(* ===== verification/Net_Prelude.thy ===== *)
theory Net_Prelude
  imports Main "HOL-Library.Word"
begin

text \<open>
  Shared ground of the development: machine integers, the results of Rust
  (\<open>Result\<close>, \<open>?\<close>, \<open>unwrap\<close>, panics), operations on \<open>&mut self\<close> as
  state-passing functions, the polling result of an \<open>async fn\<close>, the ordered
  map of the standard library, and the list lemmas the components share.
\<close>

section \<open>Machine integers\<close>

type_synonym byte = "8 word"
type_synonym u16 = "16 word"
type_synonym u32 = "32 word"
type_synonym u64 = "64 word"
type_synonym i64 = "64 word"

text \<open>
  A signed field (\<open>i64\<close>) is a word read by \<open>sint\<close>, an unsigned one by \<open>uint\<close>. The
  program uses \<open>i128\<close> only as the carrier of CBOR integers: it matches on it, casts it
  and takes one exclusive or, and never adds to it, so it is an \<open>int\<close>.
\<close>

section \<open>Results, panics and operations on a mutable receiver\<close>

datatype panic = UnwrapPanic | AssertPanic | ExplicitPanic | IndexPanic

datatype 'e failure = Error 'e | Panic panic

type_synonym ('e, 'a) result = "'e failure + 'a"

text \<open>An operation on \<open>&mut self\<close>: the state reached survives a failure.\<close>

type_synonym ('s, 'e, 'a) op = "'s \<Rightarrow> ('e, 'a) result \<times> 's"

named_theorems exec "equations that run the operations of the model"

fun unwrap :: "('e, 'a) result \<Rightarrow> ('e, 'a) result" where
  "unwrap (Inl (Error e)) = Inl (Panic UnwrapPanic)"
| "unwrap (Inl (Panic p)) = Inl (Panic p)"
| "unwrap (Inr a) = Inr a"

fun unwrap_option :: "'a option \<Rightarrow> ('e, 'a) result" where
  "unwrap_option None = Inl (Panic UnwrapPanic)"
| "unwrap_option (Some a) = Inr a"

fun ok_or :: "'e \<Rightarrow> 'a option \<Rightarrow> ('e, 'a) result" where
  "ok_or e None = Inl (Error e)"
| "ok_or e (Some a) = Inr a"

definition bind_r :: "('e, 'a) result \<Rightarrow> ('a \<Rightarrow> ('e, 'b) result) \<Rightarrow> ('e, 'b) result" where
  "bind_r r k = (case r of Inl f \<Rightarrow> Inl f | Inr a \<Rightarrow> k a)"

lemma bind_r_simps [simp, exec]:
  "bind_r (Inl f) k = Inl f"
  "bind_r (Inr a) k = k a"
  by (simp_all add: bind_r_def)

text \<open>\<open>iter().map(f).collect::<Result<Vec<_>, _>>()\<close>: stops at the first failure.\<close>

fun collect_r :: "('a \<Rightarrow> ('e, 'b) result) \<Rightarrow> 'a list \<Rightarrow> ('e, 'b list) result" where
  "collect_r f [] = Inr []"
| "collect_r f (x # xs) = bind_r (f x) (\<lambda>y. bind_r (collect_r f xs) (\<lambda>ys. Inr (y # ys)))"

lemma collect_r_map:
  "(\<And>x. x \<in> set xs \<Longrightarrow> f x = Inr (g x)) \<Longrightarrow> collect_r f xs = Inr (map g xs)"
  by (induction xs) simp_all

definition ret_s :: "'a \<Rightarrow> ('s, 'e, 'a) op" where
  "ret_s a s = (Inr a, s)"

definition fail_s :: "'e failure \<Rightarrow> ('s, 'e, 'a) op" where
  "fail_s f s = (Inl f, s)"

definition lift_r :: "('e, 'a) result \<Rightarrow> ('s, 'e, 'a) op" where
  "lift_r r s = (r, s)"

definition bind_s :: "('s, 'e, 'a) op \<Rightarrow> ('a \<Rightarrow> ('s, 'e, 'b) op) \<Rightarrow> ('s, 'e, 'b) op" where
  "bind_s m k s = (case m s of (Inl f, t) \<Rightarrow> (Inl f, t) | (Inr a, t) \<Rightarrow> k a t)"

definition unwrap_s :: "('s, 'e, 'a) op \<Rightarrow> ('s, 'e, 'a) op" where
  "unwrap_s m s = (case m s of (r, t) \<Rightarrow> (unwrap r, t))"

lemma op_simps [exec]:
  "ret_s a s = (Inr a, s)"
  "fail_s f s = (Inl f, s)"
  "lift_r r s = (r, s)"
  by (simp_all add: ret_s_def fail_s_def lift_r_def)

lemma bind_s_run [exec]:
  "m s = (Inr a, t) \<Longrightarrow> bind_s m k s = k a t"
  "m s = (Inl f, t) \<Longrightarrow> bind_s m k s = (Inl f, t)"
  by (simp_all add: bind_s_def)

lemma unwrap_s_run [exec]:
  "m s = (r, t) \<Longrightarrow> unwrap_s m s = (unwrap r, t)"
  by (simp add: unwrap_s_def)

lemma unwrap_InrD [dest!]: "unwrap r = Inr a \<Longrightarrow> r = Inr a"
  by (cases r rule: unwrap.cases) simp_all

section \<open>Asynchronous calls\<close>

text \<open>
  An \<open>async fn\<close> either runs to its result or is suspended at an \<open>await\<close> of the channel.
  \<open>Pending\<close> carries the local buffer of the suspended call.
\<close>

datatype ('e, 'a) poll = Ready "('e, 'a) result" | Pending "byte list"

text \<open>The outer option of a task: \<open>None\<close> is a run that never returns nor suspends.\<close>

type_synonym ('s, 'e, 'a) task = "'s \<Rightarrow> (('e, 'a) poll \<times> 's) option"

definition bind_t :: "('s, 'e, 'a) task \<Rightarrow> ('a \<Rightarrow> ('s, 'e, 'b) task) \<Rightarrow> ('s, 'e, 'b) task" where
  "bind_t m k s = (case m s of
       None \<Rightarrow> None
     | Some (Pending l, t) \<Rightarrow> Some (Pending l, t)
     | Some (Ready (Inl f), t) \<Rightarrow> Some (Ready (Inl f), t)
     | Some (Ready (Inr a), t) \<Rightarrow> k a t)"

lemma bind_t_run [exec]:
  "m s = Some (Ready (Inr a), t) \<Longrightarrow> bind_t m k s = k a t"
  "m s = Some (Ready (Inl f), t) \<Longrightarrow> bind_t m k s = Some (Ready (Inl f), t)"
  "m s = Some (Pending l, t) \<Longrightarrow> bind_t m k s = Some (Pending l, t)"
  by (simp_all add: bind_t_def)

definition sync_t :: "('s, 'e, 'a) op \<Rightarrow> ('s, 'e, 'a) task" where
  "sync_t m s = (case m s of (r, t) \<Rightarrow> Some (Ready r, t))"

lemma sync_t_run [exec]: "m s = (r, t) \<Longrightarrow> sync_t m s = Some (Ready r, t)"
  by (simp add: sync_t_def)

text \<open>A sequence of tasks that return returns.\<close>

lemma sync_t_returns: "\<exists>r. sync_t m s = Some r"
  by (simp add: sync_t_def split: prod.split)

lemma bind_t_returns:
  "\<exists>r. m s = Some r \<Longrightarrow> (\<And>a t. \<exists>r. k a t = Some r) \<Longrightarrow> \<exists>r. bind_t m k s = Some r"
  by (auto simp: bind_t_def split: option.splits poll.splits sum.splits prod.splits)

section \<open>The ordered map of the standard library\<close>

text \<open>
  \<open>BTreeMap\<close> keeps its entries in ascending key order, one per key; a later insertion
  of an equal key wins. \<open>lt\<close> is the strict order of the key type.
\<close>

fun btree_insert :: "('k \<Rightarrow> 'k \<Rightarrow> bool) \<Rightarrow> 'k \<Rightarrow> 'v \<Rightarrow> ('k \<times> 'v) list \<Rightarrow> ('k \<times> 'v) list" where
  "btree_insert lt k v [] = [(k, v)]"
| "btree_insert lt k v ((k', v') # m) =
     (if lt k k' then (k, v) # (k', v') # m
      else if lt k' k then (k', v') # btree_insert lt k v m
      else (k, v) # m)"

fun btree_collect :: "('k \<Rightarrow> 'k \<Rightarrow> bool) \<Rightarrow> ('k \<times> 'v) list \<Rightarrow> ('k \<times> 'v) list \<Rightarrow> ('k \<times> 'v) list" where
  "btree_collect lt m [] = m"
| "btree_collect lt m ((k, v) # kvs) = btree_collect lt (btree_insert lt k v m) kvs"

definition key_before :: "('k \<Rightarrow> 'k \<Rightarrow> bool) \<Rightarrow> ('k \<times> 'v) \<Rightarrow> ('k \<times> 'v) \<Rightarrow> bool" where
  "key_before lt p q \<longleftrightarrow> lt (fst p) (fst q) \<and> \<not> lt (fst q) (fst p)"

lemma btree_insert_last:
  "\<forall>p \<in> set m. key_before lt p (k, v) \<Longrightarrow> btree_insert lt k v m = m @ [(k, v)]"
  by (induction m) (auto simp: key_before_def)

lemma btree_collect_append:
  "sorted_wrt (key_before lt) (m @ kvs) \<Longrightarrow> btree_collect lt m kvs = m @ kvs"
proof (induction kvs arbitrary: m)
  case Nil
  then show ?case by simp
next
  case (Cons p kvs)
  obtain k v where p: "p = (k, v)" by (cases p)
  from Cons.prems have "\<forall>q \<in> set m. key_before lt q (k, v)"
    by (auto simp: sorted_wrt_append p)
  then have "btree_insert lt k v m = m @ [(k, v)]"
    by (rule btree_insert_last)
  with Cons.IH[of "m @ [(k, v)]"] Cons.prems show ?case
    by (simp add: p)
qed

lemma btree_collect_sorted:
  "sorted_wrt (key_before lt) kvs \<Longrightarrow> btree_collect lt [] kvs = kvs"
  using btree_collect_append[of lt "[]" kvs] by simp

section \<open>Splitting a byte stream at item boundaries\<close>

text \<open>
  Any prefix of a concatenation of nonempty items is a number of whole items and a
  proper prefix of the next one. This is what makes reassembly independent of how the
  sender's bytes were cut.
\<close>

lemma concat_prefix_split:
  assumes "data @ rest = concat bss" and "\<forall>b \<in> set bss. b \<noteq> []"
  obtains k l q where "k \<le> length bss" "data = concat (take k bss) @ l"
    "l @ rest = concat (drop k bss)"
    "l = [] \<or> (k < length bss \<and> bss ! k = l @ q \<and> q \<noteq> [])"
  using assms
proof (induction bss arbitrary: data thesis)
  case Nil
  then show ?case by (auto intro: Nil.prems(1)[of 0 "[]"])
next
  case (Cons b bss)
  show ?case
  proof (cases "length data < length b")
    case True
    with Cons.prems(2) obtain q where "b = data @ q" "q \<noteq> []"
      by (auto simp: append_eq_append_conv2)
    with Cons.prems(1)[of 0 data q] Cons.prems(2) show ?thesis by auto
  next
    case False
    with Cons.prems(2) obtain data' where data: "data = b @ data'" and "data' @ rest = concat bss"
      by (auto simp: append_eq_append_conv2)
    moreover have "\<forall>b \<in> set bss. b \<noteq> []" using Cons.prems(3) by simp
    ultimately obtain k l q where "k \<le> length bss" "data' = concat (take k bss) @ l"
        "l @ rest = concat (drop k bss)"
        "l = [] \<or> (k < length bss \<and> bss ! k = l @ q \<and> q \<noteq> [])"
      using Cons.IH by blast
    with Cons.prems(1)[of "Suc k" l q] data show ?thesis by auto
  qed
qed

end
