(* ===== verification/Cbor_Value.thy ===== *)
theory Cbor_Value
  imports Net_Prelude
begin

text \<open>
  The CBOR values the protocols exchange and the library that serialises them.
  \<open>cbor_value\<close> is the public enum \<open>serde_cbor::Value\<close>. The library's functions are not part of
  this repository: they are the fields of the record \<open>cbor\<close>, a parameter of every
  definition that calls them, and the predicates below state the documented behaviour
  that the theorems rely on.
\<close>

section \<open>Values\<close>

text \<open>
  \<open>Map\<close> holds the entries of a \<open>BTreeMap\<close> in iteration order; \<open>Float\<close> the bits of
  the \<open>f64\<close>; \<open>Text\<close> the bytes of the string.
\<close>

datatype cbor_value =
    Null
  | Bool bool
  | Integer int
  | Float "64 word"
  | Bytes "byte list"
  | Text string
  | Array "cbor_value list"
  | Map "(cbor_value \<times> cbor_value) list"
  | Tag u64 cbor_value

section \<open>The library as a parameter\<close>

text \<open>
  One step of \<open>StreamDeserializer<Vec<Value>>\<close> on the bytes not yet read: an array with
  the number of bytes it took, an error with \<open>is_eof()\<close>, or any other error.
\<close>

datatype stream_item = Item "cbor_value list" nat | ItemEof | ItemBad

text \<open>
  \<^item> \<open>to_vec_values\<close>: \<open>to_vec(&Vec<Value>)\<close>, its error as the printed text;
  \<^item> \<open>to_vec_value\<close>: \<open>to_vec(&Value)\<close>;
  \<^item> \<open>next_item\<close>: \<open>Deserializer::from_slice(..).into_iter::<Vec<Value>>().next()\<close> on a
    nonempty rest (on an empty rest the iterator ends);
  \<^item> \<open>from_slice_values\<close>: \<open>from_slice::<Vec<Value>>\<close>;
  \<^item> \<open>value_less\<close>: the strict part of \<open>Ord for Value\<close>, the key order of its maps;
  \<^item> \<open>value_eq\<close>: \<open>PartialEq for Value\<close>.
\<close>

record cbor =
  to_vec_values :: "cbor_value list \<Rightarrow> string + byte list"
  to_vec_value :: "cbor_value \<Rightarrow> string + byte list"
  next_item :: "byte list \<Rightarrow> stream_item"
  from_slice_values :: "byte list \<Rightarrow> string + cbor_value list"
  value_less :: "cbor_value \<Rightarrow> cbor_value \<Rightarrow> bool"
  value_eq :: "cbor_value \<Rightarrow> cbor_value \<Rightarrow> bool"

section \<open>What the theorems rely on\<close>

text \<open>
  Values that CBOR represents and that decode to themselves: integers of 64 bits and a
  sign, ASCII text, maps in key order without duplicates. Floats, tags and null never
  leave this program. \<open>d\<close> bounds the nesting, since the library refuses to read values
  nested too deeply (its limit is 128); the messages here nest at most three deep.
\<close>

definition cbor_int :: "int \<Rightarrow> bool" where
  "cbor_int n \<longleftrightarrow> - (2 ^ 64) \<le> n \<and> n < 2 ^ 64"

fun plain :: "(cbor_value \<Rightarrow> cbor_value \<Rightarrow> bool) \<Rightarrow> nat \<Rightarrow> cbor_value \<Rightarrow> bool" where
  "plain lt d Null = False"
| "plain lt d (Bool b) = True"
| "plain lt d (Integer n) = cbor_int n"
| "plain lt d (Float x) = False"
| "plain lt d (Bytes bs) = True"
| "plain lt d (Text s) = (\<forall>ch \<in> set s. of_char ch < (128 :: nat))"
| "plain lt d (Array vs) = (0 < d \<and> (\<forall>v \<in> set vs. plain lt (d - 1) v))"
| "plain lt d (Map kvs) = (0 < d \<and> sorted_wrt (key_before lt) kvs \<and>
     (\<forall>p \<in> set kvs. plain lt (d - 1) (fst p) \<and> plain lt (d - 1) (snd p)))"
| "plain lt d (Tag t v) = False"

text \<open>The arrays that stand for messages.\<close>

definition plain_values :: "cbor \<Rightarrow> cbor_value list \<Rightarrow> bool" where
  "plain_values c vs \<longleftrightarrow> (\<forall>v \<in> set vs. plain (value_less c) 100 v)"

text \<open>
  The encoding of an array of plain values: it exists and is not empty, it is read back
  from the front of any stream with its own length, and a proper prefix of it is an
  unexpected end of input.
\<close>

definition stream_code :: "cbor \<Rightarrow> cbor_value list \<Rightarrow> byte list \<Rightarrow> bool" where
  "stream_code c vs bs \<longleftrightarrow> bs \<noteq> [] \<and>
     (\<forall>rest. next_item c (bs @ rest) = Item vs (length bs)) \<and>
     (\<forall>p q. bs = p @ q \<longrightarrow> p \<noteq> [] \<longrightarrow> q \<noteq> [] \<longrightarrow> next_item c p = ItemEof)"

definition cbor_stream :: "cbor \<Rightarrow> bool" where
  "cbor_stream c \<longleftrightarrow> (\<forall>vs. plain_values c vs \<longrightarrow>
     (\<exists>bs. to_vec_values c vs = Inr bs \<and> stream_code c vs bs))"

text \<open>A whole slice decodes to the values it was made from.\<close>

definition cbor_slice :: "cbor \<Rightarrow> bool" where
  "cbor_slice c \<longleftrightarrow> (\<forall>vs. plain_values c vs \<longrightarrow>
     (\<exists>bs. to_vec_value c (Array vs) = Inr bs \<and> from_slice_values c bs = Inr vs))"

text \<open>The key order on the keys in use: integers compare by magnitude.\<close>

definition cbor_order :: "cbor \<Rightarrow> bool" where
  "cbor_order c \<longleftrightarrow> (\<forall>a b. 0 \<le> a \<longrightarrow> 0 \<le> b \<longrightarrow>
     value_less c (Integer a) (Integer b) = (a < b))"

text \<open>Equality with a truth value.\<close>

definition cbor_equal :: "cbor \<Rightarrow> bool" where
  "cbor_equal c \<longleftrightarrow> (\<forall>v b. value_eq c v (Bool b) = (v = Bool b))"

text \<open>Every decoded item takes at least one byte and none past the end.\<close>

definition cbor_progress :: "cbor \<Rightarrow> bool" where
  "cbor_progress c \<longleftrightarrow> (\<forall>bs vs n. bs \<noteq> [] \<longrightarrow> next_item c bs = Item vs n \<longrightarrow>
     0 < n \<and> n \<le> length bs)"

lemma plain_values_simps [simp]:
  "plain_values c []"
  "plain_values c (v # vs) \<longleftrightarrow> plain (value_less c) 100 v \<and> plain_values c vs"
  by (simp_all add: plain_values_def)

lemma cbor_streamE:
  assumes "cbor_stream c" and "plain_values c vs"
  obtains bs where "to_vec_values c vs = Inr bs" "stream_code c vs bs"
  using assms unfolding cbor_stream_def by blast

lemma stream_codeD:
  assumes "stream_code c vs bs"
  shows "bs \<noteq> []"
    and "next_item c (bs @ rest) = Item vs (length bs)"
    and "bs = p @ q \<Longrightarrow> p \<noteq> [] \<Longrightarrow> q \<noteq> [] \<Longrightarrow> next_item c p = ItemEof"
  using assms unfolding stream_code_def by blast+

text \<open>Integers that come from the program's 64-bit and 32-bit fields are plain.\<close>

lemma cbor_int_u64 [simp]: "cbor_int (uint (w :: u64))"
  unfolding cbor_int_def
proof
  show "- (2 ^ 64) \<le> uint w"
    by (rule order_trans[OF _ uint_ge_0]) simp
  show "uint w < 2 ^ 64"
    using uint_lt2p[of w] by simp
qed

lemma cbor_int_i64 [simp]: "cbor_int (sint (w :: i64))"
  unfolding cbor_int_def using sint_range_size[of w] by (auto simp: word_size)

lemma cbor_int_u32 [simp]: "cbor_int (uint (w :: u32))"
  unfolding cbor_int_def
proof
  show "- (2 ^ 64) \<le> uint w"
    by (rule order_trans[OF _ uint_ge_0]) simp
  show "uint w < 2 ^ 64"
    using uint_lt2p[of w] by simp
qed

lemma cbor_int_small [simp]: "0 \<le> n \<Longrightarrow> n < 65536 \<Longrightarrow> cbor_int n"
  by (simp add: cbor_int_def)

end
