(* ===== verification/Chain_Model.thy ===== *)
theory Chain_Model
  imports Cbor_Value
begin

text \<open>
  The data model of \<open>src/model.rs\<close> (points, tips, block headers, the conversions between
  them) and the error type of \<open>src/lib.rs\<close>.
\<close>

section \<open>Points, tips and block headers\<close>

record point =
  pt_slot :: u64
  pt_hash :: "byte list"

record tip =
  tip_block_number :: i64
  tip_slot_number :: u64
  tip_hash :: "byte list"

record block_header =
  bh_block_number :: i64
  bh_slot_number :: i64
  bh_hash :: "byte list"
  bh_prev_hash :: "byte list"
  bh_node_vkey :: "byte list"
  bh_node_vrf_vkey :: "byte list"
  bh_eta_vrf_0 :: "byte list"
  bh_eta_vrf_1 :: "byte list"
  bh_leader_vrf_0 :: "byte list"
  bh_leader_vrf_1 :: "byte list"
  bh_block_size :: i64
  bh_block_body_hash :: "byte list"
  bh_pool_opcert :: "byte list"
  bh_unknown_0 :: i64
  bh_unknown_1 :: i64
  bh_unknown_2 :: "byte list"
  bh_protocol_major_version :: i64
  bh_protocol_minor_version :: i64

section \<open>Errors\<close>

text \<open>
  \<open>Error\<close> is a \<open>String\<close>. A formatted message is kept as its literal text and the argument
  it prints, so that the \<open>Debug\<close> rendering of the argument is left open.
\<close>

datatype error =
    ErrText string
  | ErrValue string "cbor_value option"
  | ErrInt string int
  | ErrPoints string "point list"
  | ErrLib string

section \<open>Conversions\<close>

text \<open>\<open>impl Into<Point> for Tip\<close>\<close>

definition point_of_tip :: "tip \<Rightarrow> point" where
  "point_of_tip t = \<lparr>pt_slot = tip_slot_number t, pt_hash = tip_hash t\<rparr>"

text \<open>
  \<open>impl TryFrom<(u64, &str)> for Point\<close>; \<open>decode\<close> is \<open>hex::decode\<close>, a parameter that is
  \<open>None\<close> where the library reports an error.
\<close>

definition point_of_hex :: "(string \<Rightarrow> byte list option) \<Rightarrow> u64 \<times> string \<Rightarrow> (error, point) result" where
  "point_of_hex decode pair = (case pair of (slot, hash) \<Rightarrow>
     bind_r (ok_or (ErrText ''Bad hash hex.'') (decode hash))
       (\<lambda>bytes. Inr \<lparr>pt_slot = slot, pt_hash = bytes\<rparr>))"

text \<open>\<open>impl From<(u64, &[u8])> for Point\<close>\<close>

definition point_of_bytes :: "u64 \<times> byte list \<Rightarrow> point" where
  "point_of_bytes pair = (case pair of (slot, hash) \<Rightarrow> \<lparr>pt_slot = slot, pt_hash = hash\<rparr>)"

lemma point_of_hex_decoded:
  "decode hash = Some bytes \<Longrightarrow>
     point_of_hex decode (slot, hash) = Inr (point_of_bytes (slot, bytes))"
  by (simp add: point_of_hex_def point_of_bytes_def)

end
