(* ===== verification/Mux.thy ===== *)
theory Mux
  imports Chain_Model
begin

unbundle bit_operations_syntax

text \<open>
  The multiplexer of \<open>src/mux.rs\<close>: a connection writes the payloads of its channels as
  frames on one byte stream, and a background task (the demultiplexer) cuts the incoming
  stream into frames and puts each payload on the queue of its channel.

  The socket is the bytes written (\<open>cn_sent\<close>) and the bytes that have arrived and are not
  yet read (\<open>cn_input\<close>, with \<open>cn_eof\<close> once the peer has closed its end). What the
  operating system decides is an input of the model: \<open>cn_clock k\<close> is the number of
  microseconds that the k-th send from now will measure, \<open>cn_writes k\<close> what the socket will
  make of it. The table of channels holds each sender together
  with the payloads its receiver has not taken yet: there is one receiver per entry.
\<close>

section \<open>Interfaces\<close>

text \<open>The byte order conversions of \<open>byteorder\<close> and \<open>tokio\<close>, a parameter.\<close>

record wire =
  put_u16 :: "u16 \<Rightarrow> byte list"
  put_u32 :: "u32 \<Rightarrow> byte list"
  get_u16 :: "byte list \<Rightarrow> u16"
  get_u32 :: "byte list \<Rightarrow> u32"

definition wire_ok :: "wire \<Rightarrow> bool" where
  "wire_ok w \<longleftrightarrow>
     (\<forall>x. length (put_u16 w x) = 2 \<and> get_u16 w (put_u16 w x) = x) \<and>
     (\<forall>x. length (put_u32 w x) = 4 \<and> get_u32 w (put_u32 w x) = x)"

lemma wire_okD [simp]:
  assumes "wire_ok w"
  shows "length (put_u16 w x) = 2" "get_u16 w (put_u16 w x) = x" "length (put_u32 w y) = 4"
  using assms by (simp_all add: wire_ok_def)

text \<open>
  A table of mailboxes: what the demultiplexer, which posts, and the channels, which are
  opened, read and closed, expect of it.
\<close>

locale mailboxes =
  fixes open_box :: "'k \<Rightarrow> 'm \<Rightarrow> 'm"
    and close_box :: "'k \<Rightarrow> 'm \<Rightarrow> 'm"
    and post :: "'k \<Rightarrow> 'p \<Rightarrow> 'm \<Rightarrow> 'm"
    and box :: "'m \<Rightarrow> 'k \<Rightarrow> 'p list option"
  assumes box_open: "box (open_box k m) k' = (if k' = k then Some [] else box m k')"
    and box_close: "box (close_box k m) k' = (if k' = k then None else box m k')"
    and box_post: "box (post k p m) k' =
      (if k' = k then map_option (\<lambda>q. q @ [p]) (box m k) else box m k')"
begin

fun post_all :: "('k \<times> 'p) list \<Rightarrow> 'm \<Rightarrow> 'm" where
  "post_all [] m = m"
| "post_all ((k, p) # ds) m = post_all ds (post k p m)"

lemma box_post_all:
  "box (post_all ds m) k = map_option (\<lambda>q. q @ [p. (k', p) \<leftarrow> ds, k' = k]) (box m k)"
proof (induction ds arbitrary: m)
  case Nil
  then show ?case by (cases "box m k") simp_all
next
  case (Cons d ds)
  then show ?case by (cases d; cases "box m k") (auto simp: box_post)
qed

lemma box_open_post_all:
  "box (post_all ds (open_box k m)) k = Some [p. (k', p) \<leftarrow> ds, k' = k]"
  by (simp add: box_post_all box_open)

lemma post_all_closed: "box m k = None \<Longrightarrow> box (post_all ds m) k = None"
  by (simp add: box_post_all)

end

section \<open>Connections\<close>

type_synonym payload = "byte list"
type_synonym channels = "u16 \<Rightarrow> payload list option"

text \<open>
  The demultiplexer's task at its two suspension points: \<open>read_exact\<close> of the header, and
  \<open>read_exact\<close> of a payload of known channel and length, each with the part of its buffer
  that is filled; or ended by a panic.
\<close>

datatype demux_task =
    AtHeader "byte list"
  | AtPayload u16 nat "byte list"
  | DemuxPanicked

text \<open>
  What a send meets: the header is written and the call of \<open>write\<close> takes \<open>n\<close> bytes of the
  payload, or the socket fails once \<open>n\<close> bytes of the frame are written.
\<close>

datatype write_outcome = Accepts nat | Breaks nat

text \<open>
  \<open>cn_demux\<close> is the weak reference to the task: \<open>Some (n, t)\<close> while \<open>n\<close> channels hold it,
  \<open>None\<close> when no channel does.
\<close>

record connection =
  cn_start_time :: nat
  cn_sent :: "byte list"
  cn_clock :: "nat \<Rightarrow> nat"
  cn_writes :: "nat \<Rightarrow> write_outcome"
  cn_input :: "byte list"
  cn_eof :: bool
  cn_channels :: channels
  cn_demux :: "(nat \<times> demux_task) option"

definition connection_new :: "nat \<Rightarrow> (nat \<Rightarrow> nat) \<Rightarrow> (nat \<Rightarrow> write_outcome) \<Rightarrow> connection" where
  "connection_new now clock writes =
     \<lparr>cn_start_time = now, cn_sent = [], cn_clock = clock, cn_writes = writes,
      cn_input = [], cn_eof = False, cn_channels = Map.empty, cn_demux = None\<rparr>"

text \<open>
  A connected stream, of a TCP or a unix socket. \<open>dialer\<close> is what the system and the timer
  answer: the clock, what \<open>timeout\<close> around \<open>connect\<close> comes to (the timer's error, or what
  \<open>connect\<close> returned) and what setting \<open>TCP_NODELAY\<close> returns. Both errors become an
  \<open>io::Error\<close>.
\<close>

record socket =
  sk_clock :: "nat \<Rightarrow> nat"
  sk_writes :: "nat \<Rightarrow> write_outcome"

record dialer =
  dl_now :: nat
  dl_connect :: "string \<Rightarrow> error + (error + socket)"
  dl_set_nodelay :: "socket \<Rightarrow> error + unit"

definition from_tcp_stream :: "nat \<Rightarrow> socket \<Rightarrow> connection" where
  "from_tcp_stream now stream = connection_new now (sk_clock stream) (sk_writes stream)"

definition from_unix_stream :: "nat \<Rightarrow> socket \<Rightarrow> connection" where
  "from_unix_stream now stream = connection_new now (sk_clock stream) (sk_writes stream)"

definition tcp_connect :: "dialer \<Rightarrow> string \<Rightarrow> error + connection" where
  "tcp_connect dial addr = (case dl_connect dial addr of
       Inl elapsed \<Rightarrow> Inl elapsed
     | Inr (Inl e) \<Rightarrow> Inl e
     | Inr (Inr stream) \<Rightarrow>
        (case dl_set_nodelay dial stream of
           Inl e \<Rightarrow> Inl e
         | Inr _ \<Rightarrow> Inr (from_tcp_stream (dl_now dial) stream)))"

definition unix_connect :: "dialer \<Rightarrow> string \<Rightarrow> error + connection" where
  "unix_connect dial addr = (case dl_connect dial addr of
       Inl elapsed \<Rightarrow> Inl elapsed
     | Inr (Inl e) \<Rightarrow> Inl e
     | Inr (Inr stream) \<Rightarrow> Inr (from_unix_stream (dl_now dial) stream))"

definition duration :: "nat \<Rightarrow> connection \<Rightarrow> nat" where
  "duration now conn = now - cn_start_time conn"

subsection \<open>The table of channels\<close>

definition register :: "u16 \<Rightarrow> channels \<Rightarrow> channels" where
  "register idx chs = chs(idx \<mapsto> [])"

definition unregister :: "u16 \<Rightarrow> channels \<Rightarrow> channels" where
  "unregister idx chs = chs(idx := None)"

text \<open>A payload for a channel that is not attached is reported and dropped.\<close>

definition deliver :: "u16 \<Rightarrow> payload \<Rightarrow> channels \<Rightarrow> channels" where
  "deliver idx payload chs = (case chs idx of
       Some queue \<Rightarrow> chs(idx \<mapsto> queue @ [payload])
     | None \<Rightarrow> chs)"

interpretation chans: mailboxes register unregister deliver "\<lambda>chs. chs"
  by unfold_locales
    (auto simp: register_def unregister_def deliver_def split: option.splits)

subsection \<open>Sending\<close>

text \<open>
  The header: the clock truncated to 32 bits, the index of the channel, and the length of
  the payload truncated to 16 bits.
\<close>

definition frame_header :: "wire \<Rightarrow> nat \<Rightarrow> u16 \<Rightarrow> nat \<Rightarrow> byte list" where
  "frame_header w micros idx len =
     put_u32 w (word_of_nat micros) @ put_u16 w idx @ put_u16 w (word_of_nat len)"

text \<open>A failure of the socket meets an \<open>unwrap\<close>.\<close>

definition connection_send :: "wire \<Rightarrow> u16 \<Rightarrow> payload \<Rightarrow> (connection, error, unit) op" where
  "connection_send w idx payload conn =
     (let header = frame_header w (cn_clock conn 0) idx (length payload);
          conn' = conn\<lparr>cn_clock := (\<lambda>k. cn_clock conn (Suc k)),
                       cn_writes := (\<lambda>k. cn_writes conn (Suc k))\<rparr>
      in case cn_writes conn 0 of
           Accepts n \<Rightarrow>
             (Inr (), conn'\<lparr>cn_sent := cn_sent conn @ header @ take n payload\<rparr>)
         | Breaks n \<Rightarrow>
             (Inl (Panic UnwrapPanic),
              conn'\<lparr>cn_sent := cn_sent conn @ take n (header @ payload)\<rparr>))"

subsection \<open>The demultiplexer\<close>

text \<open>\<open>read_exact\<close> into a buffer of \<open>n\<close> bytes of which \<open>buf\<close> is filled.\<close>

definition read_exact :: "nat \<Rightarrow> byte list \<Rightarrow> byte list \<Rightarrow> byte list \<times> byte list" where
  "read_exact n buf inp = (buf @ take (n - length buf) inp, drop (n - length buf) inp)"

text \<open>
  The loop of the task, run on the bytes that have arrived until it waits for more. At the
  end of the stream \<open>read_exact\<close> fails and its \<open>unwrap\<close> ends the task.
\<close>

function demux_run :: "wire \<Rightarrow> bool \<Rightarrow> channels \<Rightarrow> demux_task \<Rightarrow> byte list \<Rightarrow>
    channels \<times> demux_task \<times> byte list" where
  "demux_run w eof chs (AtHeader buf) inp =
     (case read_exact 8 buf inp of (header, inp') \<Rightarrow>
        if length header < 8
        then (chs, if eof then DemuxPanicked else AtHeader header, inp')
        else demux_run w eof chs
          (AtPayload (get_u16 w (take 2 (drop 4 header)) XOR 0x8000)
             (unat (get_u16 w (drop 6 header))) []) inp')"
| "demux_run w eof chs (AtPayload idx len buf) inp =
     (case read_exact len buf inp of (payload, inp') \<Rightarrow>
        if length payload < len
        then (chs, if eof then DemuxPanicked else AtPayload idx len payload, inp')
        else demux_run w eof (deliver idx payload chs) (AtHeader []) inp')"
| "demux_run w eof chs DemuxPanicked inp = (chs, DemuxPanicked, inp)"
  by pat_completeness auto

fun demux_rank :: "demux_task \<Rightarrow> nat" where
  "demux_rank (AtHeader buf) = (if length buf < 8 then 0 else 2)"
| "demux_rank (AtPayload idx len buf) = 1"
| "demux_rank DemuxPanicked = 0"

termination demux_run
  by (relation "measures [\<lambda>(w, eof, chs, t, inp). length inp, \<lambda>(w, eof, chs, t, inp). demux_rank t]")
    (auto simp: read_exact_def)

declare demux_run.simps(1,2) [simp del]

definition demux_poll :: "wire \<Rightarrow> connection \<Rightarrow> connection" where
  "demux_poll w conn = (case cn_demux conn of
       None \<Rightarrow> conn
     | Some (n, t) \<Rightarrow>
        (case demux_run w (cn_eof conn) (cn_channels conn) t (cn_input conn) of
           (chs, t', inp) \<Rightarrow>
             conn\<lparr>cn_channels := chs, cn_demux := Some (n, t'), cn_input := inp\<rparr>))"

text \<open>\<open>run_demux\<close>: share the running task, or start one.\<close>

definition run_demux :: "connection \<Rightarrow> connection" where
  "run_demux conn = conn\<lparr>cn_demux := (case cn_demux conn of
       Some (n, t) \<Rightarrow> Some (Suc n, t)
     | None \<Rightarrow> Some (1, AtHeader []))\<rparr>"

subsection \<open>Receiving\<close>

text \<open>
  \<open>receiver.recv().await.unwrap()\<close>: while the caller waits the task runs on what has
  arrived; an empty queue suspends the caller, a queue whose sender is gone is a panic.
\<close>

definition connection_recv :: "wire \<Rightarrow> u16 \<Rightarrow> connection \<Rightarrow> (error, payload) poll \<times> connection" where
  "connection_recv w idx conn =
     (let conn' = demux_poll w conn in
      case cn_channels conn' idx of
        None \<Rightarrow> (Ready (Inl (Panic UnwrapPanic)), conn')
      | Some [] \<Rightarrow> (Pending [], conn')
      | Some (payload # queue) \<Rightarrow>
          (Ready (Inr payload), conn'\<lparr>cn_channels := (cn_channels conn')(idx \<mapsto> queue)\<rparr>))"

section \<open>Channels\<close>

record channel =
  ch_idx :: u16
  ch_conn :: connection
  ch_bytes :: "byte list"

definition connection_channel :: "u16 \<Rightarrow> connection \<Rightarrow> channel" where
  "connection_channel idx conn =
     \<lparr>ch_idx = idx,
      ch_conn = run_demux (conn\<lparr>cn_channels := register idx (cn_channels conn)\<rparr>),
      ch_bytes = []\<rparr>"

definition channel_get_index :: "channel \<Rightarrow> u16" where
  "channel_get_index ch = ch_idx ch"

definition channel_send :: "wire \<Rightarrow> byte list \<Rightarrow> (channel, error, unit) op" where
  "channel_send w data ch = (case connection_send w (ch_idx ch) data (ch_conn ch) of
     (r, conn) \<Rightarrow> (r, ch\<lparr>ch_conn := conn\<rparr>))"

definition channel_recv :: "wire \<Rightarrow> channel \<Rightarrow> (error, payload) poll \<times> channel" where
  "channel_recv w ch = (case connection_recv w (ch_idx ch) (ch_conn ch) of
     (r, conn) \<Rightarrow> (r, ch\<lparr>ch_conn := conn\<rparr>))"

text \<open>
  Dropping a channel unregisters it and releases the task; the last release aborts it, with
  whatever it had read of a frame. The abort is modelled as at once. In the code it only asks for
  the end of the task, which comes when the task is suspended: at once when it is (on a runtime
  of one thread always), else at the end of the poll it is in on another thread. Such a late poll
  still cuts frames that have arrived, for no channel or for one that is opened meanwhile; it
  holds the lock on the socket's reading half, so that a new task reads only after it.
\<close>

definition demux_drop :: "connection \<Rightarrow> connection" where
  "demux_drop conn = conn\<lparr>cn_demux := (case cn_demux conn of
       Some (n, t) \<Rightarrow> if n \<le> 1 then None else Some (n - 1, t)
     | None \<Rightarrow> None)\<rparr>"

definition channel_drop :: "channel \<Rightarrow> connection" where
  "channel_drop ch = demux_drop
     ((ch_conn ch)\<lparr>cn_channels := unregister (ch_idx ch) (cn_channels (ch_conn ch))\<rparr>)"

end
