(* ===== verification/Mux_Facts.thy ===== *)
theory Mux_Facts
  imports Mux
begin

unbundle bit_operations_syntax

text \<open>
  What the multiplexer does: its frames survive the demultiplexer however the stream is
  cut, the demultiplexer settles, every receive consumes part of a finite supply.
\<close>

section \<open>The demultiplexer settles\<close>

text \<open>A task that waits for bytes that have not arrived, or has ended.\<close>

fun waiting :: "bool \<Rightarrow> demux_task \<Rightarrow> byte list \<Rightarrow> bool" where
  "waiting eof (AtHeader buf) inp \<longleftrightarrow> \<not> eof \<and> length buf < 8 \<and> inp = []"
| "waiting eof (AtPayload idx len buf) inp \<longleftrightarrow> \<not> eof \<and> length buf < len \<and> inp = []"
| "waiting eof DemuxPanicked inp \<longleftrightarrow> True"

lemma demux_run_waits:
  "demux_run w eof chs t inp = (chs', t', inp') \<Longrightarrow> waiting eof t' inp'"
proof (induction w eof chs t inp rule: demux_run.induct)
  case (1 w eof chs buf inp)
  then show ?case
    by (auto simp: demux_run.simps(1)[of w eof chs buf inp] read_exact_def split: if_splits)
next
  case (2 w eof chs idx len buf inp)
  then show ?case
    by (auto simp: demux_run.simps(2)[of w eof chs idx len buf inp] read_exact_def split: if_splits)
qed simp

lemma demux_run_waiting: "waiting eof t inp \<Longrightarrow> demux_run w eof chs t inp = (chs, t, inp)"
  by (cases t) (auto simp: demux_run.simps(1,2) read_exact_def)

definition quiet :: "connection \<Rightarrow> bool" where
  "quiet conn \<longleftrightarrow> (case cn_demux conn of
       None \<Rightarrow> True
     | Some (n, t) \<Rightarrow> waiting (cn_eof conn) t (cn_input conn))"

lemma demux_poll_quiet [simp]: "quiet (demux_poll w conn)"
  by (auto simp: quiet_def demux_poll_def split: option.split prod.split dest: demux_run_waits)

lemma quiet_demux_poll: "quiet conn \<Longrightarrow> demux_poll w conn = conn"
  by (auto simp: quiet_def demux_poll_def demux_run_waiting split: option.splits)

lemma demux_poll_idem [simp]: "demux_poll w (demux_poll w conn) = demux_poll w conn"
  by (simp add: quiet_demux_poll)

lemma quiet_frame [simp]:
  "quiet (conn\<lparr>cn_channels := chs\<rparr>) = quiet conn"
  by (simp_all add: quiet_def split: option.split prod.split)

lemma connection_recv_poll:
  "connection_recv w idx (demux_poll w conn) = connection_recv w idx conn"
  by (simp add: connection_recv_def)

section \<open>Frames\<close>

definition frame :: "wire \<Rightarrow> nat \<Rightarrow> u16 \<Rightarrow> payload \<Rightarrow> byte list" where
  "frame w micros idx payload = frame_header w micros idx (length payload) @ payload"

lemma length_frame_header [simp]: "wire_ok w \<Longrightarrow> length (frame_header w t idx len) = 8"
  by (simp add: frame_header_def)

lemma frame_header_fields:
  assumes "wire_ok w"
  shows "get_u16 w (take 2 (drop 4 (frame_header w t idx len))) = idx"
    and "get_u16 w (drop 6 (frame_header w t idx len)) = word_of_nat len"
  using assms by (simp_all add: frame_header_def)

text \<open>A header announces the length of its payload modulo \<open>2 ^ 16\<close>.\<close>

lemma demux_header:
  assumes "wire_ok w"
  shows "demux_run w eof chs (AtHeader []) (frame_header w t idx len @ rest) =
    demux_run w eof chs (AtPayload (idx XOR 0x8000) (len mod 2 ^ 16) []) rest"
proof -
  have "unat (word_of_nat len :: u16) = len mod 2 ^ 16"
    by (simp add: unat_of_nat)
  with assms show ?thesis
    by (simp add: demux_run.simps(1)[of _ _ _ "[]"] read_exact_def frame_header_fields)
qed

lemma demux_payload:
  assumes "length buf + length data = len"
  shows "demux_run w eof chs (AtPayload idx len buf) (data @ rest) =
    demux_run w eof (deliver idx (buf @ data) chs) (AtHeader []) rest"
proof -
  have "len - length buf = length data" using assms by simp
  with assms show ?thesis
    by (simp add: demux_run.simps(2) read_exact_def)
qed

lemma demux_frame:
  assumes "wire_ok w" and "length payload < 65536"
  shows "demux_run w eof chs (AtHeader []) (frame w t idx payload @ rest) =
    demux_run w eof (deliver (idx XOR 0x8000) payload chs) (AtHeader []) rest"
  using assms by (simp add: frame_def demux_header demux_payload)

lemma demux_frames:
  assumes "wire_ok w" and "\<forall>(t, idx, payload) \<in> set fs. length payload < 65536"
  shows "demux_run w eof chs (AtHeader [])
      (concat (map (\<lambda>(t, idx, payload). frame w t idx payload) fs) @ rest) =
    demux_run w eof (chans.post_all (map (\<lambda>(t, idx, payload). (idx XOR 0x8000, payload)) fs) chs)
      (AtHeader []) rest"
  using assms(2)
proof (induction fs arbitrary: chs)
  case Nil
  then show ?case by simp
next
  case (Cons f fs)
  then show ?case by (cases f) (simp add: demux_frame[OF assms(1)])
qed

text \<open>The stream may be cut anywhere: the task resumes where it stopped.\<close>

lemma demux_run_append:
  "demux_run w False chs t (inp @ late) =
    (case demux_run w False chs t inp of
       (chs', t', inp') \<Rightarrow> demux_run w False chs' t' (inp' @ late))"
proof (induction w "False" chs t inp arbitrary: late rule: demux_run.induct)
  case (1 w chs buf inp)
  show ?case
  proof (cases "length buf + length inp < 8")
    case True
    then have "demux_run w False chs (AtHeader buf) inp = (chs, AtHeader (buf @ inp), [])"
      by (simp add: demux_run.simps(1) read_exact_def)
    then show ?thesis
      using True by (simp add: demux_run.simps(1) read_exact_def)
  next
    case False
    then show ?thesis
      using 1 by (simp add: demux_run.simps(1)[of w False chs buf] read_exact_def)
  qed
next
  case (2 w chs idx len buf inp)
  show ?case
  proof (cases "length buf + length inp < len")
    case True
    then have "demux_run w False chs (AtPayload idx len buf) inp =
        (chs, AtPayload idx len (buf @ inp), [])"
      by (simp add: demux_run.simps(2) read_exact_def)
    then show ?thesis
      using True by (simp add: demux_run.simps(2) read_exact_def)
  next
    case False
    then show ?thesis
      using 2 by (simp add: demux_run.simps(2)[of w False chs idx len buf] read_exact_def)
  qed
next
  case (3 w chs inp)
  then show ?case by simp
qed

text \<open>Taking the first payload of a queue does not interfere with the task.\<close>

lemma demux_run_pop:
  assumes "demux_run w eof chs t inp = (chs', t', inp')" and "chs idx = Some (p # q)"
  shows "\<exists>q'. chs' idx = Some (p # q') \<and>
    demux_run w eof (chs(idx \<mapsto> q)) t inp = (chs'(idx \<mapsto> q'), t', inp')"
  using assms
proof (induction w eof chs t inp arbitrary: q rule: demux_run.induct)
  case (1 w eof chs buf inp)
  then show ?case
    by (auto simp: demux_run.simps(1)[of w eof _ buf inp] read_exact_def split: if_splits)
next
  case (2 w eof chs i len buf inp)
  obtain payload rest where read: "read_exact len buf inp = (payload, rest)"
    by (cases "read_exact len buf inp")
  show ?case
  proof (cases "length payload < len")
    case True
    with 2(2,3) show ?thesis by (auto simp: demux_run.simps(2)[of w eof _ i len buf inp] read)
  next
    case False
    let ?q = "if i = idx then q @ [payload] else q"
    have "deliver i payload (chs(idx \<mapsto> q)) = (deliver i payload chs)(idx \<mapsto> ?q)"
      using 2(3) by (auto simp: deliver_def split: option.split)
    moreover have "deliver i payload chs idx = Some (p # ?q)"
      using 2(3) by (auto simp: deliver_def split: option.split)
    moreover have "demux_run w eof (deliver i payload chs) (AtHeader []) rest = (chs', t', inp')"
      using 2(2) False by (simp add: demux_run.simps(2)[of w eof _ i len buf inp] read)
    ultimately show ?thesis
      using 2(1)[OF read[symmetric] False, of ?q] False
      by (simp only: demux_run.simps(2)[of w eof _ i len buf inp] read prod.case if_False)
  qed
qed simp


section \<open>The backlog of a channel\<close>

text \<open>
  A bound on the payloads a channel can still receive from what has arrived: the payloads on
  its queue and the bytes that are not yet delivered. Receiving lowers it, so a loop
  that keeps receiving stops.
\<close>

fun task_weight :: "demux_task \<Rightarrow> nat" where
  "task_weight (AtHeader buf) = length buf"
| "task_weight (AtPayload idx len buf) = 8 + length buf"
| "task_weight DemuxPanicked = 0"

definition queue_length :: "channels \<Rightarrow> u16 \<Rightarrow> nat" where
  "queue_length chs idx = (case chs idx of None \<Rightarrow> 0 | Some q \<Rightarrow> length q)"

definition backlog :: "u16 \<Rightarrow> connection \<Rightarrow> nat" where
  "backlog idx conn = queue_length (cn_channels conn) idx + length (cn_input conn) +
     (case cn_demux conn of None \<Rightarrow> 0 | Some (n, t) \<Rightarrow> task_weight t)"

lemma queue_length_deliver: "queue_length (deliver i p chs) idx \<le> Suc (queue_length chs idx)"
  by (auto simp: queue_length_def deliver_def split: option.splits)

lemma demux_run_weight:
  "demux_run w eof chs t inp = (chs', t', inp') \<Longrightarrow>
    queue_length chs' idx + length inp' + task_weight t' \<le>
    queue_length chs idx + length inp + task_weight t"
proof (induction w eof chs t inp rule: demux_run.induct)
  case (1 w eof chs buf inp)
  then show ?case
    by (fastforce simp: demux_run.simps(1)[of w eof chs buf inp] read_exact_def split: if_splits)
next
  case (2 w eof chs i len buf inp)
  show ?case
  proof (cases "length buf + length inp < len")
    case True
    with 2 show ?thesis
      by (auto simp: demux_run.simps(2)[of w eof chs i len buf inp] read_exact_def split: if_splits)
  next
    case False
    with 2 have "queue_length chs' idx + length inp' + task_weight t' \<le>
        queue_length (deliver i (buf @ take (len - length buf) inp) chs) idx +
        length (drop (len - length buf) inp)"
      by (auto simp: demux_run.simps(2)[of w eof chs i len buf inp] read_exact_def split: if_splits)
    with queue_length_deliver[of i "buf @ take (len - length buf) inp" chs idx] show ?thesis
      by simp
  qed
qed simp

lemma demux_poll_backlog: "backlog idx (demux_poll w conn) \<le> backlog idx conn"
proof (cases "cn_demux conn")
  case None
  then show ?thesis by (simp add: demux_poll_def)
next
  case (Some nt)
  obtain n t where nt: "nt = (n, t)" by (cases nt)
  obtain chs' t' inp' where run:
    "demux_run w (cn_eof conn) (cn_channels conn) t (cn_input conn) = (chs', t', inp')"
    by (cases "demux_run w (cn_eof conn) (cn_channels conn) t (cn_input conn)")
  from demux_run_weight[OF run, of idx] show ?thesis
    by (simp add: demux_poll_def backlog_def Some nt run)
qed

lemma connection_recv_backlog:
  assumes "connection_recv w idx conn = (Ready (Inr p), conn')"
  shows "backlog idx conn' < backlog idx conn"
proof -
  from assms have "backlog idx conn' < backlog idx (demux_poll w conn)"
    by (auto simp: connection_recv_def Let_def backlog_def queue_length_def
        split: option.splits list.splits)
  with demux_poll_backlog[of idx w conn] show ?thesis by simp
qed

section \<open>Sending\<close>

text \<open>The connection and the channel after a send, and a socket that never fails.\<close>

definition after_send :: "wire \<Rightarrow> u16 \<Rightarrow> payload \<Rightarrow> connection \<Rightarrow> connection" where
  "after_send w idx payload conn = snd (connection_send w idx payload conn)"

definition sent :: "wire \<Rightarrow> byte list \<Rightarrow> channel \<Rightarrow> channel" where
  "sent w data ch = snd (channel_send w data ch)"

definition writable :: "connection \<Rightarrow> bool" where
  "writable conn \<longleftrightarrow> (\<forall>k. \<exists>n. cn_writes conn k = Accepts n)"

lemma after_send_simps [simp]:
  "cn_channels (after_send w idx data conn) = cn_channels conn"
  "cn_demux (after_send w idx data conn) = cn_demux conn"
  "cn_input (after_send w idx data conn) = cn_input conn"
  "cn_eof (after_send w idx data conn) = cn_eof conn"
  "cn_writes (after_send w idx data conn) k = cn_writes conn (Suc k)"
  by (simp_all add: after_send_def connection_send_def Let_def split: write_outcome.split)

lemma after_send_accepts:
  "cn_writes conn 0 = Accepts n \<Longrightarrow> cn_sent (after_send w idx data conn) =
    cn_sent conn @ frame_header w (cn_clock conn 0) idx (length data) @ take n data"
  by (simp add: after_send_def connection_send_def)

lemma sent_conn [simp]: "ch_conn (sent w data ch) = after_send w (ch_idx ch) data (ch_conn ch)"
  "ch_idx (sent w data ch) = ch_idx ch" "ch_bytes (sent w data ch) = ch_bytes ch"
  by (simp_all add: sent_def channel_send_def after_send_def split: prod.split)

lemma channel_send_writable:
  "writable (ch_conn ch) \<Longrightarrow> channel_send w data ch = (Inr (), sent w data ch)"
  by (auto simp: sent_def channel_send_def connection_send_def writable_def Let_def
      split: write_outcome.split prod.split)
    (metis write_outcome.distinct(1))

lemma channel_send_sent: "snd (channel_send w data ch) = sent w data ch"
  by (simp add: sent_def)

lemma after_send_frame [simp]:
  "backlog idx (after_send w i data conn) = backlog idx conn"
  "quiet (after_send w i data conn) = quiet conn"
  "writable conn \<Longrightarrow> writable (after_send w i data conn)"
  "writable (conn\<lparr>cn_channels := chs\<rparr>) = writable conn"
  by (simp_all add: backlog_def quiet_def writable_def split: option.split prod.split)

text \<open>The index of a channel is that of its construction for as long as it lives.\<close>

lemma channel_index_fixed:
  "channel_get_index (connection_channel idx conn) = idx"
  "channel_get_index (snd (channel_send w data ch)) = channel_get_index ch"
  "channel_get_index (snd (channel_recv w ch)) = channel_get_index ch"
  by (simp_all add: channel_get_index_def connection_channel_def channel_send_def channel_recv_def
      split: prod.split)

end
