(* ===== verification/Wire_Values.thy ===== *)
theory Wire_Values
  imports Chain_Model
begin

text \<open>
  The cursor \<open>Values\<close> of \<open>src/protocols.rs\<close> over the elements of a decoded array, and the
  conversions of points, tips and block headers to and from such arrays.
\<close>

section \<open>The cursor\<close>

text \<open>
  \<open>Values\<close> wraps a slice iterator, so a cursor is the list of the elements not yet read.
  Every accessor calls \<open>next\<close> before it looks at the element: the element is gone even
  when the accessor reports an error.
\<close>

type_synonym 'a cursor = "(cbor_value list, error, 'a) op"

fun v_array :: "cbor_value list cursor" where
  "v_array [] = (Inl (Error (ErrValue ''Integer required: '' None)), [])"
| "v_array (Array vs # rest) = (Inr vs, rest)"
| "v_array (v # rest) = (Inl (Error (ErrValue ''Integer required: '' (Some v))), rest)"

fun v_map :: "(cbor_value \<times> cbor_value) list cursor" where
  "v_map [] = (Inl (Error (ErrValue ''Integer required: '' None)), [])"
| "v_map (Map kvs # rest) = (Inr kvs, rest)"
| "v_map (v # rest) = (Inl (Error (ErrValue ''Integer required: '' (Some v))), rest)"

fun v_integer :: "int cursor" where
  "v_integer [] = (Inl (Error (ErrValue ''Integer required, found '' None)), [])"
| "v_integer (Integer n # rest) = (Inr n, rest)"
| "v_integer (v # rest) = (Inl (Error (ErrValue ''Integer required, found '' (Some v))), rest)"

fun v_bool :: "bool cursor" where
  "v_bool [] = (Inl (Error (ErrValue ''Boolean required, found '' None)), [])"
| "v_bool (Bool b # rest) = (Inr b, rest)"
| "v_bool (v # rest) = (Inl (Error (ErrValue ''Boolean required, found '' (Some v))), rest)"

fun v_bytes :: "byte list cursor" where
  "v_bytes [] = (Inl (Error (ErrValue ''Bytes required, found '' None)), [])"
| "v_bytes (Bytes bs # rest) = (Inr bs, rest)"
| "v_bytes (v # rest) = (Inl (Error (ErrValue ''Bytes required, found '' (Some v))), rest)"

fun v_end :: "unit cursor" where
  "v_end [] = (Inr (), [])"
| "v_end (v # rest) = (Inl (Error (ErrValue ''End of array required, found '' (Some v))), rest)"

text \<open>\<open>array.array()?.try_into()?\<close>: a nested cursor, consumed by the conversion.\<close>

definition v_nested :: "(cbor_value list \<Rightarrow> (error, 'a) result) \<Rightarrow> 'a cursor" where
  "v_nested conv = bind_s v_array (\<lambda>vs. lift_r (conv vs))"

text \<open>A conversion takes its cursor by value: what is left of it is dropped.\<close>

definition consume :: "'a cursor \<Rightarrow> cbor_value list \<Rightarrow> (error, 'a) result" where
  "consume m vs = fst (m vs)"

lemma consume_run [exec]: "m vs = (r, rest) \<Longrightarrow> consume m vs = r"
  by (simp add: consume_def)

lemma v_nested_run [exec]:
  "v_nested conv (Array vs # rest) = (conv vs, rest)"
  by (simp add: v_nested_def bind_s_def lift_r_def)

lemma v_bool_run [exec]: "bind_s v_bool k (Bool b # rest) = k b rest"
  by (simp add: bind_s_def)

section \<open>Points and tips\<close>

definition point_to_vec :: "point \<Rightarrow> cbor_value list" where
  "point_to_vec p = [Integer (uint (pt_slot p)), Bytes (pt_hash p)]"

definition point_of_values :: "cbor_value list \<Rightarrow> (error, point) result" where
  "point_of_values = consume
     (bind_s v_integer (\<lambda>slot.
      bind_s v_bytes (\<lambda>hash.
      bind_s v_end (\<lambda>_.
      ret_s \<lparr>pt_slot = word_of_int slot, pt_hash = hash\<rparr>))))"

definition tip_to_vec :: "tip \<Rightarrow> cbor_value list" where
  "tip_to_vec t =
     [Array [Integer (uint (tip_slot_number t)), Bytes (tip_hash t)],
      Integer (sint (tip_block_number t))]"

definition tip_of_values :: "cbor_value list \<Rightarrow> (error, tip) result" where
  "tip_of_values = consume
     (bind_s (v_nested (consume
        (bind_s v_integer (\<lambda>slot_number.
         bind_s v_bytes (\<lambda>hash.
         bind_s v_end (\<lambda>_.
         ret_s (word_of_int slot_number, hash))))))) (\<lambda>(slot_number, hash).
      bind_s v_integer (\<lambda>block_number.
      bind_s v_end (\<lambda>_.
      ret_s \<lparr>tip_block_number = word_of_int block_number,
             tip_slot_number = slot_number, tip_hash = hash\<rparr>))))"

section \<open>Wrapped block headers\<close>

record wrapped_header =
  wh_bytes :: "byte list"

text \<open>
  \<open>WrappedBlockHeader::hash\<close>; \<open>blake2b\<close> is the hash function of \<open>blake2b_simd\<close>, a
  parameter that takes the length of the digest and the data.
\<close>

definition header_hash :: "(nat \<Rightarrow> byte list \<Rightarrow> byte list) \<Rightarrow> wrapped_header \<Rightarrow> byte list" where
  "header_hash blake2b w = blake2b 32 (wh_bytes w)"

definition wrapped_of_values :: "cbor_value list \<Rightarrow> (error, wrapped_header) result" where
  "wrapped_of_values = consume
     (bind_s v_integer (\<lambda>_.
      bind_s v_bytes (\<lambda>bytes.
      bind_s v_end (\<lambda>_.
      ret_s \<lparr>wh_bytes = bytes\<rparr>))))"

text \<open>The two-element arrays of the VRF fields.\<close>

definition bytes_pair :: "cbor_value list \<Rightarrow> (error, byte list \<times> byte list) result" where
  "bytes_pair = consume
     (bind_s v_bytes (\<lambda>x. bind_s v_bytes (\<lambda>y. bind_s v_end (\<lambda>_. ret_s (x, y)))))"

text \<open>The body of a header, read by \<open>TryInto<BlockHeader> for WrappedBlockHeader\<close>.\<close>

definition header_body_of_values ::
    "byte list \<Rightarrow> cbor_value list \<Rightarrow> (error, block_header) result" where
  "header_body_of_values hash = consume
     (bind_s v_integer (\<lambda>block_number.
      bind_s v_integer (\<lambda>slot_number.
      bind_s v_bytes (\<lambda>prev_hash.
      bind_s v_bytes (\<lambda>node_vkey.
      bind_s v_bytes (\<lambda>node_vrf_vkey.
      bind_s (v_nested bytes_pair) (\<lambda>eta_vrf.
      bind_s (v_nested bytes_pair) (\<lambda>leader_vrf.
      bind_s v_integer (\<lambda>block_size.
      bind_s v_bytes (\<lambda>block_body_hash.
      bind_s v_bytes (\<lambda>pool_opcert.
      bind_s v_integer (\<lambda>unknown_0.
      bind_s v_integer (\<lambda>unknown_1.
      bind_s v_bytes (\<lambda>unknown_2.
      bind_s v_integer (\<lambda>protocol_major_version.
      bind_s v_integer (\<lambda>protocol_minor_version.
      bind_s v_end (\<lambda>_.
      ret_s
        \<lparr>bh_block_number = word_of_int block_number,
         bh_slot_number = word_of_int slot_number,
         bh_hash = hash,
         bh_prev_hash = prev_hash,
         bh_node_vkey = node_vkey,
         bh_node_vrf_vkey = node_vrf_vkey,
         bh_eta_vrf_0 = fst eta_vrf,
         bh_eta_vrf_1 = snd eta_vrf,
         bh_leader_vrf_0 = fst leader_vrf,
         bh_leader_vrf_1 = snd leader_vrf,
         bh_block_size = word_of_int block_size,
         bh_block_body_hash = block_body_hash,
         bh_pool_opcert = pool_opcert,
         bh_unknown_0 = word_of_int unknown_0,
         bh_unknown_1 = word_of_int unknown_1,
         bh_unknown_2 = unknown_2,
         bh_protocol_major_version = word_of_int protocol_major_version,
         bh_protocol_minor_version = word_of_int protocol_minor_version\<rparr>)))))))))))))))))"

text \<open>\<open>map_err(|e| format!("{:?}", e))\<close> on an error of the library.\<close>

fun lib_result :: "string + 'a \<Rightarrow> (error, 'a) result" where
  "lib_result (Inl e) = Inl (Error (ErrLib e))"
| "lib_result (Inr a) = Inr a"

definition header_of_wrapped ::
    "cbor \<Rightarrow> (nat \<Rightarrow> byte list \<Rightarrow> byte list) \<Rightarrow> wrapped_header \<Rightarrow> (error, block_header) result" where
  "header_of_wrapped c blake2b w =
     (let hash = header_hash blake2b w
      in bind_r (lib_result (from_slice_values c (wh_bytes w))) (\<lambda>values.
         consume (bind_s (v_nested (header_body_of_values hash)) (\<lambda>header.
                  bind_s v_end (\<lambda>_. ret_s header))) values))"

text \<open>The body of a header, written by \<open>TryFrom<BlockHeader> for WrappedBlockHeader\<close>.\<close>

definition header_to_values :: "block_header \<Rightarrow> cbor_value list" where
  "header_to_values h =
     [Integer (sint (bh_block_number h)),
      Integer (sint (bh_slot_number h)),
      Bytes (bh_prev_hash h),
      Bytes (bh_node_vkey h),
      Bytes (bh_node_vrf_vkey h),
      Array [Bytes (bh_eta_vrf_0 h), Bytes (bh_eta_vrf_1 h)],
      Array [Bytes (bh_leader_vrf_0 h), Bytes (bh_leader_vrf_1 h)],
      Integer (sint (bh_block_size h)),
      Bytes (bh_block_body_hash h),
      Bytes (bh_pool_opcert h),
      Integer (sint (bh_unknown_0 h)),
      Integer (sint (bh_unknown_1 h)),
      Bytes (bh_unknown_2 h),
      Integer (sint (bh_protocol_major_version h)),
      Integer (sint (bh_protocol_minor_version h))]"

definition wrapped_of_header :: "cbor \<Rightarrow> block_header \<Rightarrow> (error, wrapped_header) result" where
  "wrapped_of_header c h =
     bind_r (lib_result (to_vec_value c (Array [Array (header_to_values h)])))
       (\<lambda>bytes. Inr \<lparr>wh_bytes = bytes\<rparr>)"

section \<open>Round trips\<close>

lemma point_of_point_to_vec [simp]: "point_of_values (point_to_vec p) = Inr p"
  by (simp add: point_of_values_def point_to_vec_def exec)

lemma tip_of_tip_to_vec [simp]: "tip_of_values (tip_to_vec t) = Inr t"
  by (simp add: tip_of_values_def tip_to_vec_def exec)

lemma wrapped_of_values_back [simp]:
  "wrapped_of_values [Integer n, Bytes (wh_bytes w)] = Inr w"
  by (simp add: wrapped_of_values_def exec)

lemma header_body_of_header [simp]:
  "header_body_of_values hash (header_to_values h) = Inr (h\<lparr>bh_hash := hash\<rparr>)"
  by (simp add: header_body_of_values_def header_to_values_def bytes_pair_def exec)

lemma plain_header: "plain_values c [Array (header_to_values h)]"
  by (simp add: header_to_values_def)

lemma plain_point [simp]: "\<forall>v \<in> set (point_to_vec p). plain lt d v"
  by (simp add: point_to_vec_def)

lemma plain_tip [simp]: "0 < d \<Longrightarrow> \<forall>v \<in> set (tip_to_vec t). plain lt d v"
  by (simp add: tip_to_vec_def)

text \<open>A header comes back from its wrapped form with its hash recomputed.\<close>

lemma header_wrap_unwrap:
  assumes "cbor_slice c"
  obtains w where "wrapped_of_header c h = Inr w"
    and "header_of_wrapped c blake2b w = Inr (h\<lparr>bh_hash := header_hash blake2b w\<rparr>)"
proof -
  obtain bs where bs: "to_vec_value c (Array [Array (header_to_values h)]) = Inr bs"
      "from_slice_values c bs = Inr [Array (header_to_values h)]"
    using assms plain_header unfolding cbor_slice_def by blast
  show thesis
    by (rule that[of "\<lparr>wh_bytes = bs\<rparr>"])
      (simp_all add: wrapped_of_header_def header_of_wrapped_def bs exec)
qed

end
