(* ===== verification/Protocol.thy ===== *)
theory Protocol
  imports Mux_Facts Wire_Values
begin

text \<open>
  The traits \<open>Message\<close> and \<open>Protocol\<close> of \<open>src/protocols.rs\<close>: their default methods, above
  all \<open>receive_bytes\<close>, which cuts the bytes of a channel into messages, and \<open>execute\<close>,
  the loop that runs a state machine against its peer until nobody has agency.

  A type that implements the trait is a record of its methods; the default methods take
  the record, as the compiled code takes the implementation.
\<close>

section \<open>The traits\<close>

datatype agency = Client | Server | NoAgency

record ('s, 'm) protocol =
  pr_id :: "'s \<Rightarrow> (error, u16) result"
  pr_role :: "'s \<Rightarrow> agency"
  pr_agency :: "'s \<Rightarrow> agency"
  pr_send :: "('s, error, 'm) op"
  pr_recv :: "'m \<Rightarrow> ('s, error, unit) op"
  pr_from_iter :: "cbor_value list \<Rightarrow> (error, 'm) result"
  pr_to_bytes :: "'m \<Rightarrow> (error, byte list) result"
  pr_channel :: "'s \<Rightarrow> channel"
  pr_set_channel :: "channel \<Rightarrow> 's \<Rightarrow> 's"

text \<open>Default methods of \<open>Message\<close>.\<close>

definition message_from_values :: "cbor_value list \<Rightarrow> (error, 'm) result" where
  "message_from_values values = Inl (Panic ExplicitPanic)"

definition message_from_iter ::
    "(cbor_value list \<Rightarrow> (error, 'm) result) \<Rightarrow> cbor_value list \<Rightarrow> (error, 'm) result" where
  "message_from_iter from_values array = from_values array"

definition message_to_bytes ::
    "cbor \<Rightarrow> ('m \<Rightarrow> (error, cbor_value list) result) \<Rightarrow> 'm \<Rightarrow> (error, byte list) result" where
  "message_to_bytes c to_values m =
     bind_r (to_values m) (\<lambda>values. unwrap (lib_result (to_vec_values c values)))"

section \<open>Sending and receiving bytes\<close>

definition send_bytes :: "('s, 'm) protocol \<Rightarrow> ('s, error, byte list option) op" where
  "send_bytes P s =
     (if pr_agency P s \<noteq> pr_role P s then (Inl (Panic AssertPanic), s)
      else bind_s (unwrap_s (pr_send P)) (\<lambda>message.
           bind_s (lift_r (pr_to_bytes P message)) (\<lambda>bytes.
           ret_s (Some bytes))) s)"

text \<open>
  The loop over the items of the buffer: \<open>off\<close> is the offset of the stream deserializer,
  \<open>last_offset\<close> where the last whole message ended. The result is the rest to keep for the next frame.
\<close>

partial_function (option) receive_loop ::
  "cbor \<Rightarrow> ('s, 'm) protocol \<Rightarrow> byte list \<Rightarrow> nat \<Rightarrow> nat \<Rightarrow> 's \<Rightarrow>
    ((error, byte list option) result \<times> 's) option" where
  "receive_loop c P data off last_offset s =
     (if length data \<le> off
      then Some (if off = length data then Inr None else Inl (Panic AssertPanic), s)
      else case next_item c (drop off data) of
        Item values n \<Rightarrow>
          (case unwrap (pr_from_iter P values) of
             Inl f \<Rightarrow> Some (Inl f, s)
           | Inr message \<Rightarrow>
              (case unwrap_s (pr_recv P message) s of
                 (Inl f, s') \<Rightarrow> Some (Inl f, s')
               | (Inr _, s') \<Rightarrow> receive_loop c P data (off + n) (off + n) s'))
      | ItemEof \<Rightarrow> Some (Inr (Some (drop last_offset data)), s)
      | ItemBad \<Rightarrow> Some (Inl (Panic ExplicitPanic), s))"

definition receive_bytes ::
    "cbor \<Rightarrow> ('s, 'm) protocol \<Rightarrow> byte list \<Rightarrow> 's \<Rightarrow>
      ((error, byte list option) result \<times> 's) option" where
  "receive_bytes c P data s =
     (if pr_agency P s = NoAgency \<or> pr_agency P s = pr_role P s
      then Some (Inl (Panic AssertPanic), s)
      else receive_loop c P data 0 0 s)"

section \<open>Running a protocol\<close>

definition set_bytes :: "('s, 'm) protocol \<Rightarrow> byte list \<Rightarrow> 's \<Rightarrow> 's" where
  "set_bytes P bytes s = pr_set_channel P ((pr_channel P s)\<lparr>ch_bytes := bytes\<rparr>) s"

text \<open>
  \<open>execute\<close> from the head of its loop (\<open>None\<close>), or resumed at the \<open>await\<close> of \<open>recv\<close> with
  the buffer it had taken from the channel (\<open>Some bytes\<close>).
\<close>

partial_function (option) execute_from ::
  "wire \<Rightarrow> cbor \<Rightarrow> ('s, 'm) protocol \<Rightarrow> byte list option \<Rightarrow> 's \<Rightarrow>
    ((error, unit) poll \<times> 's) option" where
  "execute_from w c P at_await s = (case at_await of
     None \<Rightarrow>
       (if pr_agency P s = NoAgency then Some (Ready (Inr ()), s)
        else if pr_agency P s = pr_role P s then
          (case send_bytes P s of
             (Inl f, s') \<Rightarrow> Some (Ready (Inl f), s')
           | (Inr None, s') \<Rightarrow> Some (Ready (Inl (Panic UnwrapPanic)), s')
           | (Inr (Some data), s') \<Rightarrow>
               (case channel_send w data (pr_channel P s') of
                  (Inl f, ch) \<Rightarrow> Some (Ready (Inl f), pr_set_channel P ch s')
                | (Inr _, ch) \<Rightarrow> execute_from w c P None (pr_set_channel P ch s')))
        else execute_from w c P (Some (ch_bytes (pr_channel P s))) (set_bytes P [] s))
   | Some bytes \<Rightarrow>
       (case channel_recv w (pr_channel P s) of
          (Ready (Inl f), ch) \<Rightarrow> Some (Ready (Inl f), pr_set_channel P ch s)
        | (Pending _, ch) \<Rightarrow> Some (Pending bytes, pr_set_channel P ch s)
        | (Ready (Inr new_data), ch) \<Rightarrow>
            (case receive_bytes c P (bytes @ new_data) (pr_set_channel P ch s) of
               None \<Rightarrow> None
             | Some (Inl f, s') \<Rightarrow> Some (Ready (Inl f), s')
             | Some (Inr kept, s') \<Rightarrow>
                 execute_from w c P None
                   (set_bytes P (case kept of None \<Rightarrow> [] | Some b \<Rightarrow> b) s'))))"

definition execute :: "wire \<Rightarrow> cbor \<Rightarrow> ('s, 'm) protocol \<Rightarrow> ('s, error, unit) task" where
  "execute w c P = execute_from w c P None"

section \<open>The contract of a protocol\<close>

text \<open>
  What \<open>execute\<close> needs of an implementation: the channel is a field that its handlers do
  not touch, the role is fixed, and a successful send gives the turn away.
\<close>

locale protocol_contract =
  fixes P :: "('s, 'm) protocol"
  assumes get_set: "pr_channel P (pr_set_channel P ch s) = ch"
    and set_set: "pr_set_channel P ch (pr_set_channel P ch' s) = pr_set_channel P ch s"
    and set_get: "pr_set_channel P (pr_channel P s) s = s"
    and role_set: "pr_role P (pr_set_channel P ch s) = pr_role P s"
    and agency_set: "pr_agency P (pr_set_channel P ch s) = pr_agency P s"
    and send_set: "pr_send P (pr_set_channel P ch s) =
      (fst (pr_send P s), pr_set_channel P ch (snd (pr_send P s)))"
    and recv_set: "pr_recv P m (pr_set_channel P ch s) =
      (fst (pr_recv P m s), pr_set_channel P ch (snd (pr_recv P m s)))"
    and send_role: "pr_role P (snd (pr_send P s)) = pr_role P s"
    and recv_role: "pr_role P (snd (pr_recv P m s)) = pr_role P s"
    and send_turn: "pr_agency P s = pr_role P s \<Longrightarrow> pr_role P s \<noteq> NoAgency \<Longrightarrow>
      pr_send P s = (Inr m, s') \<Longrightarrow> pr_agency P s' \<noteq> pr_role P s'"
begin

lemmas lens [simp] = get_set set_set set_get role_set agency_set

lemma send_channel [simp]: "pr_channel P (snd (pr_send P s)) = pr_channel P s"
  using send_set[of "pr_channel P s" s] by (metis get_set set_get snd_conv)

lemma recv_channel [simp]: "pr_channel P (snd (pr_recv P m s)) = pr_channel P s"
  using recv_set[of m "pr_channel P s" s] by (metis get_set set_get snd_conv)

end

section \<open>The contract of a message type\<close>

text \<open>
  What the protocols need of their messages: a well-formed message is written as plain
  values that read back as the same message.
\<close>

locale message_codec =
  fixes c :: cbor
    and to_values :: "'m \<Rightarrow> (error, cbor_value list) result"
    and from_iter :: "cbor_value list \<Rightarrow> (error, 'm) result"
    and wf :: "'m \<Rightarrow> bool"
  assumes round_trip: "wf m \<Longrightarrow>
    \<exists>vs. to_values m = Inr vs \<and> plain_values c vs \<and> from_iter vs = Inr m"
begin

text \<open>Its bytes are read back from the front of any stream.\<close>

lemma bytes_round_trip:
  assumes "cbor_stream c" and "wf m"
  shows "\<exists>bs vs. message_to_bytes c to_values m = Inr bs \<and>
    from_iter vs = Inr m \<and> stream_code c vs bs"
proof -
  obtain vs where vs: "to_values m = Inr vs" "plain_values c vs" "from_iter vs = Inr m"
    using round_trip[OF assms(2)] by blast
  obtain bs where "to_vec_values c vs = Inr bs" "stream_code c vs bs"
    using cbor_streamE[OF assms(1) vs(2)] by blast
  with vs show ?thesis by (auto simp: message_to_bytes_def)
qed

end

end
