(* ===== verification/Protocol_Facts.thy ===== *)
theory Protocol_Facts
  imports Protocol
begin

text \<open>
  What the default methods of \<open>Protocol\<close> guarantee to every implementation that keeps the
  contract: they return, and they hand the messages of a byte stream to the state machine
  one by one, whatever frames the stream was cut into.
\<close>

section \<open>Messages on a stream\<close>

text \<open>\<open>bs\<close> is an encoding of the message \<open>m\<close>.\<close>

definition encodes :: "cbor \<Rightarrow> ('s, 'm) protocol \<Rightarrow> 'm \<Rightarrow> byte list \<Rightarrow> bool" where
  "encodes c P m bs \<longleftrightarrow> (\<exists>vs. pr_from_iter P vs = Inr m \<and> stream_code c vs bs)"

text \<open>The reference semantics: the messages of a list, one after the other.\<close>

fun process :: "('s, 'm) protocol \<Rightarrow> 'm list \<Rightarrow> ('s, error, unit) op" where
  "process P [] s = (Inr (), s)"
| "process P (m # ms) s = bind_s (unwrap_s (pr_recv P m)) (\<lambda>_. process P ms) s"

text \<open>What is kept of a buffer: nothing, or a proper beginning of the next message.\<close>

definition incomplete :: "byte list \<Rightarrow> byte list list \<Rightarrow> bool" where
  "incomplete l bss \<longleftrightarrow> l = [] \<or> (\<exists>q. q \<noteq> [] \<and> bss \<noteq> [] \<and> hd bss = l @ q)"

lemma process_append:
  "process P (ms @ ms') s = bind_s (process P ms) (\<lambda>_. process P ms') s"
proof (induction ms arbitrary: s)
  case Nil
  then show ?case by (simp add: bind_s_def)
next
  case (Cons m ms)
  then show ?case by (simp add: bind_s_def split: prod.split sum.split)
qed

lemma process_take:
  assumes "process P ms s = (Inr (), s')"
  obtains t where "process P (take k ms) s = (Inr (), t)" "process P (drop k ms) t = (Inr (), s')"
  using assms process_append[of P "take k ms" "drop k ms" s]
  by (auto simp: bind_s_def split: prod.splits sum.splits)

lemma encodes_nonempty: "encodes c P m bs \<Longrightarrow> bs \<noteq> []"
  by (auto simp: encodes_def stream_code_def)

lemma encodes_all_nonempty: "list_all2 (encodes c P) ms bss \<Longrightarrow> \<forall>b \<in> set bss. b \<noteq> []"
  by (induction rule: list_all2_induct) (auto dest: encodes_nonempty)

text \<open>One whole message at the front of what is left of the buffer.\<close>

lemma receive_loop_item:
  assumes "encodes c P m bs" and "drop off data = bs @ rest" and "off \<le> length data"
  shows "receive_loop c P data off last_offset s =
    (case unwrap_s (pr_recv P m) s of
       (Inl f, s') \<Rightarrow> Some (Inl f, s')
     | (Inr _, s') \<Rightarrow> receive_loop c P data (off + length bs) (off + length bs) s')"
proof -
  from assms(1) obtain vs where vs: "pr_from_iter P vs = Inr m" "stream_code c vs bs"
    by (auto simp: encodes_def)
  from assms(2) encodes_nonempty[OF assms(1)] have "\<not> length data \<le> off" by auto
  with vs show ?thesis
    by (simp add: receive_loop.simps[of c P data off] assms(2) stream_codeD(2)[OF vs(2)])
qed

text \<open>The buffer ends inside a message: its beginning is kept.\<close>

lemma receive_loop_end:
  assumes "drop off data = l" and "off \<le> length data" and "last_offset = off"
    and "l = [] \<or> (encodes c P m (l @ q) \<and> q \<noteq> [])"
  shows "receive_loop c P data off last_offset s =
    Some (Inr (if l = [] then None else Some l), s)"
proof (cases "l = []")
  case True
  with assms show ?thesis by (simp add: receive_loop.simps[of c P data off])
next
  case False
  with assms obtain vs where "stream_code c vs (l @ q)" "q \<noteq> []"
    by (auto simp: encodes_def)
  with False have "next_item c l = ItemEof" by (auto intro: stream_codeD(3))
  moreover have "length data \<noteq> off" using False assms(1) by auto
  ultimately show ?thesis
    using False assms by (simp add: receive_loop.simps[of c P data off])
qed

lemma receive_loop_stream:
  assumes "list_all2 (encodes c P) ms bss" and "drop off data = concat bss @ l"
    and "off \<le> length data" and "l = [] \<or> (\<exists>m q. encodes c P m (l @ q) \<and> q \<noteq> [])"
    and "last_offset = off" and "process P ms s = (Inr (), s')"
  shows "receive_loop c P data off last_offset s =
    Some (Inr (if l = [] then None else Some l), s')"
  using assms
proof (induction arbitrary: off last_offset s rule: list_all2_induct)
  case Nil
  then show ?case using receive_loop_end[of off data l last_offset c P _ _ s] by auto
next
  case (Cons m ms bs bss)
  obtain t where t: "pr_recv P m s = (Inr (), t)" "process P ms t = (Inr (), s')"
    using Cons.prems(5) by (auto simp: bind_s_def unwrap_s_def split: prod.splits sum.splits)
  have "off + length bs \<le> length data"
    using Cons.prems(2) arg_cong[OF Cons.prems(1), of length] by simp
  moreover have "drop (off + length bs) data = concat bss @ l"
    using Cons.prems(1) drop_drop[of "length bs" off data] by (simp add: add.commute del: drop_drop)
  ultimately have "receive_loop c P data (off + length bs) (off + length bs) t =
      Some (Inr (if l = [] then None else Some l), s')"
    using Cons.IH Cons.prems(3) t(2) by blast
  with Cons.prems(1,2) t(1) Cons.hyps(1) show ?case
    by (simp add: receive_loop_item[where rest = "concat bss @ l"] unwrap_s_def)
qed

section \<open>A channel with its feed\<close>

text \<open>
  The channel \<open>ch\<close> with \<open>l\<close> kept from earlier frames and the payloads \<open>ps\<close> on its queue.
\<close>

definition feed :: "byte list \<Rightarrow> payload list \<Rightarrow> channel \<Rightarrow> channel" where
  "feed l ps ch = ch\<lparr>ch_bytes := l,
     ch_conn := (ch_conn ch)\<lparr>cn_channels := (cn_channels (ch_conn ch))(ch_idx ch \<mapsto> ps)\<rparr>\<rparr>"

lemma feed_simps [simp]:
  "feed l ps (feed l' ps' ch) = feed l ps ch"
  "(feed l ps ch)\<lparr>ch_bytes := l'\<rparr> = feed l' ps ch"
  "ch_bytes (feed l ps ch) = l"
  "ch_idx (feed l ps ch) = ch_idx ch"
  "cn_sent (ch_conn (feed l ps ch)) = cn_sent (ch_conn ch)"
  "quiet (ch_conn (feed l ps ch)) = quiet (ch_conn ch)"
  by (simp_all add: feed_def)

lemma feed_exists:
  "cn_channels (ch_conn ch) (ch_idx ch) = Some ps \<Longrightarrow> ch = feed (ch_bytes ch) ps ch"
  by (simp add: feed_def map_upd_triv)

lemma channel_recv_feed [simp]:
  assumes "quiet (ch_conn ch)"
  shows "channel_recv w (feed l (p # ps) ch) = (Ready (Inr p), feed l ps ch)"
    and "channel_recv w (feed l [] ch) = (Pending [], feed l [] ch)"
  using assms
  by (simp_all add: feed_def channel_recv_def connection_recv_def quiet_demux_poll)

lemma sent_feed [simp]: "sent w data (feed l ps ch) = feed l ps (sent w data ch)"
  by (simp add: feed_def sent_def channel_send_def connection_send_def Let_def
      split: write_outcome.split)

lemma writable_feed [simp]: "writable (ch_conn (feed l ps ch)) = writable (ch_conn ch)"
  by (simp add: feed_def)

text \<open>Payloads that the demultiplexer puts on the channel's queue between two calls.\<close>

definition arrive :: "payload list \<Rightarrow> channel \<Rightarrow> channel" where
  "arrive ps ch = ch\<lparr>ch_conn := (ch_conn ch)\<lparr>cn_channels :=
     fold (deliver (ch_idx ch)) ps (cn_channels (ch_conn ch))\<rparr>\<rparr>"

lemma fold_deliver: "chs idx = Some q \<Longrightarrow> fold (deliver idx) ps chs idx = Some (q @ ps)"
  by (induction ps arbitrary: chs q) (simp_all add: deliver_def)

lemma arrive_simps [simp]:
  "ch_bytes (arrive ps ch) = ch_bytes ch"
  "ch_idx (arrive ps ch) = ch_idx ch"
  "cn_sent (ch_conn (arrive ps ch)) = cn_sent (ch_conn ch)"
  "quiet (ch_conn (arrive ps ch)) = quiet (ch_conn ch)"
  "writable (ch_conn (arrive ps ch)) = writable (ch_conn ch)"
  "cn_channels (ch_conn ch) (ch_idx ch) = Some q \<Longrightarrow>
     cn_channels (ch_conn (arrive ps ch)) (ch_idx ch) = Some (q @ ps)"
  by (simp_all add: arrive_def fold_deliver)

text \<open>
  Between two calls: nothing is kept from earlier frames, the demultiplexer waits, the socket
  takes what is sent, and the payloads on the queue hold the bytes \<open>data\<close>.
\<close>

definition holds :: "byte list \<Rightarrow> channel \<Rightarrow> bool" where
  "holds data ch \<longleftrightarrow> ch_bytes ch = [] \<and> quiet (ch_conn ch) \<and> writable (ch_conn ch) \<and>
     (\<exists>ps. cn_channels (ch_conn ch) (ch_idx ch) = Some ps \<and> concat ps = data)"

lemma holdsE:
  assumes "holds data ch"
  obtains ps where "feed [] ps ch = ch" "concat ps = data" "quiet (ch_conn ch)"
    "writable (ch_conn ch)"
proof -
  from assms obtain ps where ps: "ch_bytes ch = []" "quiet (ch_conn ch)" "concat ps = data"
    "writable (ch_conn ch)" "cn_channels (ch_conn ch) (ch_idx ch) = Some ps"
    by (auto simp: holds_def)
  from that[OF _ ps(3,2,4)] feed_exists[OF ps(5)] ps(1) show thesis by simp
qed

lemma holds_feed:
  "quiet (ch_conn ch) \<Longrightarrow> writable (ch_conn ch) \<Longrightarrow> holds (concat ps) (feed [] ps ch)"
  by (auto simp: holds_def) (simp add: feed_def)

lemma holds_arrive: "holds data ch \<Longrightarrow> holds (data @ concat ps) (arrive ps ch)"
  by (auto simp: holds_def)

section \<open>Every call returns\<close>

context protocol_contract
begin

lemma unwrap_recv:
  "unwrap_s (pr_recv P m) s = (r, s') \<Longrightarrow>
     pr_channel P s' = pr_channel P s \<and> pr_role P s' = pr_role P s"
  using recv_channel[of m s] recv_role[of m s]
  by (auto simp: unwrap_s_def simp del: recv_channel split: prod.splits)

lemma receive_loop_returns:
  assumes "cbor_progress c"
  shows "\<exists>r s'. receive_loop c P data off last_offset s = Some (r, s') \<and>
    pr_channel P s' = pr_channel P s \<and> pr_role P s' = pr_role P s"
proof (induction "length data - off" arbitrary: off last_offset s rule: less_induct)
  case less
  show ?case
  proof (cases "length data \<le> off")
    case True
    then show ?thesis by (simp add: receive_loop.simps[of c P data off])
  next
    case False
    show ?thesis
    proof (cases "next_item c (drop off data)")
      case (Item vs n)
      have "drop off data \<noteq> []" using False by simp
      with assms Item have "0 < n \<and> n \<le> length (drop off data)"
        unfolding cbor_progress_def by blast
      with False have n: "0 < n" "off + n \<le> length data" by auto
      show ?thesis
      proof (cases "unwrap (pr_from_iter P vs)")
        case (Inl f)
        with False Item show ?thesis by (simp add: receive_loop.simps[of c P data off])
      next
        case (Inr m)
        obtain r t where r: "unwrap_s (pr_recv P m) s = (r, t)"
          by (cases "unwrap_s (pr_recv P m) s")
        from less[of "off + n" "off + n" t] n False unwrap_recv[OF r] r Inr Item show ?thesis
          by (cases r) (simp_all add: receive_loop.simps[of c P data off])
      qed
    next
      case ItemEof
      with False show ?thesis by (simp add: receive_loop.simps[of c P data off])
    next
      case ItemBad
      with False show ?thesis by (simp add: receive_loop.simps[of c P data off])
    qed
  qed
qed

lemma receive_bytes_returns:
  assumes "cbor_progress c"
  shows "\<exists>r s'. receive_bytes c P data s = Some (r, s') \<and>
    pr_channel P s' = pr_channel P s \<and> pr_role P s' = pr_role P s"
  by (simp add: receive_bytes_def receive_loop_returns[OF assms])

lemma send_bytes_sent:
  assumes "send_bytes P s = (Inr r, s')"
  shows "pr_channel P s' = pr_channel P s \<and> pr_role P s' = pr_role P s \<and>
    (pr_role P s \<noteq> NoAgency \<longrightarrow> pr_agency P s' \<noteq> pr_role P s') \<and> r \<noteq> None"
proof -
  from assms obtain m t where eq: "pr_agency P s = pr_role P s" and m: "pr_send P s = (Inr m, t)"
      and "s' = t" "r \<noteq> None"
    by (auto simp: send_bytes_def bind_s_def unwrap_s_def lift_r_def ret_s_def
        split: if_splits prod.splits sum.splits)
  with send_turn[OF eq _ m] send_channel[of s] send_role[of s] show ?thesis by auto
qed

text \<open>
  The backlog of the channel bounds the frames still to come; a send gives the turn away,
  so between two receives the loop turns at most twice.
\<close>

definition waiting_on :: "'s \<Rightarrow> nat" where
  "waiting_on s = backlog (ch_idx (pr_channel P s)) (ch_conn (pr_channel P s))"

lemma channel_recv_backlog:
  assumes "channel_recv w ch = (Ready (Inr p), ch')"
  shows "backlog (ch_idx ch') (ch_conn ch') < backlog (ch_idx ch) (ch_conn ch)"
proof -
  from assms obtain conn where
    "connection_recv w (ch_idx ch) (ch_conn ch) = (Ready (Inr p), conn)" "ch' = ch\<lparr>ch_conn := conn\<rparr>"
    by (auto simp: channel_recv_def split: prod.splits)
  with connection_recv_backlog show ?thesis by auto
qed

lemma set_bytes_simps [simp]:
  "waiting_on (set_bytes P l s) = waiting_on s"
  "pr_role P (set_bytes P l s) = pr_role P s"
  "pr_agency P (set_bytes P l s) = pr_agency P s"
  by (simp_all add: set_bytes_def waiting_on_def)

lemma execute_await_returns:
  assumes "cbor_progress c"
    and next_turn: "\<And>s'. waiting_on s' < waiting_on s \<Longrightarrow> \<exists>r. execute_from w c P None s' = Some r"
  shows "\<exists>r. execute_from w c P (Some l) s = Some r"
proof (cases "channel_recv w (pr_channel P s)")
  case (Pair res ch)
  show ?thesis
  proof (cases "\<exists>p. res = Ready (Inr p)")
    case True
    then obtain p where p: "res = Ready (Inr p)" by blast
    from receive_bytes_returns[OF assms(1), of "l @ p" "pr_set_channel P ch s"]
    obtain r s' where r: "receive_bytes c P (l @ p) (pr_set_channel P ch s) = Some (r, s')"
      and "pr_channel P s' = ch" by auto
    then have "waiting_on s' < waiting_on s"
      using channel_recv_backlog[of w "pr_channel P s" p ch] Pair p by (simp add: waiting_on_def)
    with next_turn r Pair p show ?thesis
      by (cases r) (simp_all add: execute_from.simps[of w c P "Some l"])
  next
    case False
    then consider f where "res = Ready (Inl f)" | b where "res = Pending b"
      by (metis poll.exhaust sumE)
    then show ?thesis
      using Pair by cases (simp_all add: execute_from.simps[of w c P "Some l"])
  qed
qed

lemma execute_head_returns:
  assumes "cbor_progress c" and "pr_agency P s = NoAgency \<or> pr_agency P s \<noteq> pr_role P s"
    and next_turn: "\<And>s'. waiting_on s' < waiting_on s \<Longrightarrow> \<exists>r. execute_from w c P None s' = Some r"
  shows "\<exists>r. execute_from w c P None s = Some r"
  using assms(2)
    execute_await_returns[OF assms(1), of "set_bytes P [] s" w "ch_bytes (pr_channel P s)"] next_turn
  by (auto simp: execute_from.simps[of w c P None s])

lemma execute_turn_returns:
  assumes "cbor_progress c"
    and next_turn: "\<And>s'. waiting_on s' < waiting_on s \<Longrightarrow> \<exists>r. execute_from w c P None s' = Some r"
  shows "\<exists>r. execute_from w c P None s = Some r"
proof (cases "pr_agency P s = NoAgency \<or> pr_agency P s \<noteq> pr_role P s")
  case True
  with assms show ?thesis by (blast intro: execute_head_returns)
next
  case False
  obtain r s' where sb: "send_bytes P s = (r, s')" by (cases "send_bytes P s")
  show ?thesis
  proof (cases "\<exists>data. r = Inr (Some data)")
    case True
    then obtain data where data: "r = Inr (Some data)" by blast
    obtain r2 ch where ch: "channel_send w data (pr_channel P s') = (r2, ch)"
      by (cases "channel_send w data (pr_channel P s')")
    then have "ch = sent w data (pr_channel P s')" by (simp add: sent_def)
    let ?s = "pr_set_channel P ch s'"
    note sent = send_bytes_sent[OF sb[unfolded data]]
    with False have "pr_agency P ?s \<noteq> pr_role P ?s" by auto
    moreover have "waiting_on ?s = waiting_on s"
      using sent \<open>ch = _\<close> by (simp add: waiting_on_def)
    ultimately have "\<exists>r. execute_from w c P None ?s = Some r"
      using next_turn by (metis execute_head_returns[OF assms(1)])
    with False sb data ch show ?thesis
      by (cases r2) (simp_all add: execute_from.simps[of w c P None s])
  next
    case no: False
    then obtain f where "r = Inl f"
      using sb send_bytes_sent by (metis option.exhaust sumE)
    with False sb show ?thesis by (simp add: execute_from.simps[of w c P None s])
  qed
qed

text \<open>
  For every protocol that keeps the contract \<open>execute\<close> ends, fails or suspends, from any
  state, on any bytes and for any behaviour of the peer: it never spins.
\<close>

lemma execute_returns:
  assumes "cbor_progress c"
  shows "\<exists>r. execute w c P s = Some r"
  unfolding execute_def
proof (induction "waiting_on s" arbitrary: s rule: less_induct)
  case less
  then show ?case by (rule execute_turn_returns[OF assms])
qed

lemma resume_returns:
  assumes "cbor_progress c"
  shows "\<exists>r. execute_from w c P (Some l) s = Some r"
  by (rule execute_await_returns[OF assms]) (rule execute_returns[OF assms, unfolded execute_def])

text \<open>A run that succeeds has consumed some of the backlog, if it was the peer's turn.\<close>

lemma await_consumes:
  assumes "cbor_progress c" and "execute_from w c P (Some l) s = Some (Ready (Inr ()), s')"
    and next_turn: "\<And>t. waiting_on t < waiting_on s \<Longrightarrow>
      execute_from w c P None t = Some (Ready (Inr ()), s') \<Longrightarrow> waiting_on s' \<le> waiting_on t"
  shows "waiting_on s' < waiting_on s"
proof (cases "channel_recv w (pr_channel P s)")
  case (Pair res ch)
  with assms(2) obtain p where p: "res = Ready (Inr p)"
    by (auto simp: execute_from.simps[of w c P "Some l"] split: poll.splits sum.splits)
  from receive_bytes_returns[OF assms(1), of "l @ p" "pr_set_channel P ch s"]
  obtain r t where r: "receive_bytes c P (l @ p) (pr_set_channel P ch s) = Some (r, t)"
    and "pr_channel P t = ch" by auto
  then have less: "waiting_on t < waiting_on s"
    using channel_recv_backlog[of w "pr_channel P s" p ch] Pair p by (simp add: waiting_on_def)
  from assms(2) Pair p r obtain kept where "r = Inr kept"
    by (cases r) (simp_all add: execute_from.simps[of w c P "Some l"])
  with assms(2) Pair p r
  have "execute_from w c P None (set_bytes P (case kept of None \<Rightarrow> [] | Some b \<Rightarrow> b) t) =
      Some (Ready (Inr ()), s')"
    by (simp add: execute_from.simps[of w c P "Some l"])
  from next_turn[OF _ this] less show ?thesis by simp
qed

lemma head_consumes:
  assumes "cbor_progress c" and "execute_from w c P None s = Some (Ready (Inr ()), s')"
    and "pr_agency P s \<noteq> NoAgency" "pr_agency P s \<noteq> pr_role P s"
    and next_turn: "\<And>t. waiting_on t < waiting_on s \<Longrightarrow>
      execute_from w c P None t = Some (Ready (Inr ()), s') \<Longrightarrow> waiting_on s' \<le> waiting_on t"
  shows "waiting_on s' < waiting_on s"
  using await_consumes[OF assms(1), of w "ch_bytes (pr_channel P s)" "set_bytes P [] s" s']
    assms(2-4) next_turn by (simp add: execute_from.simps[of w c P None s])

lemma execute_consumes:
  assumes "cbor_progress c" and "execute w c P s = Some (Ready (Inr ()), s')"
  shows "waiting_on s' \<le> waiting_on s \<and>
    (pr_agency P s = NoAgency \<or> pr_agency P s = pr_role P s \<or> waiting_on s' < waiting_on s)"
  using assms(2) unfolding execute_def
proof (induction "waiting_on s" arbitrary: s rule: less_induct)
  case less
  have next_turn: "waiting_on s' \<le> waiting_on t"
    if "waiting_on t < waiting_on s" "execute_from w c P None t = Some (Ready (Inr ()), s')" for t
    using less(1)[OF that] by blast
  consider "pr_agency P s = NoAgency" | "pr_agency P s \<noteq> NoAgency" "pr_agency P s \<noteq> pr_role P s"
    | "pr_agency P s \<noteq> NoAgency" "pr_agency P s = pr_role P s"
    by blast
  then show ?case
  proof cases
    case 1
    with less.prems show ?thesis by (simp add: execute_from.simps[of w c P None s])
  next
    case 2
    with head_consumes[OF assms(1) less.prems 2 next_turn] show ?thesis by simp
  next
    case 3
    with less.prems obtain data t ch where t: "send_bytes P s = (Inr (Some data), t)"
        "channel_send w data (pr_channel P t) = (Inr (), ch)"
        "execute_from w c P None (pr_set_channel P ch t) = Some (Ready (Inr ()), s')"
      by (auto simp: execute_from.simps[of w c P None s] split: prod.splits sum.splits option.splits)
    note sent = send_bytes_sent[OF t(1)]
    have "ch = sent w data (pr_channel P t)" using t(2) by (simp add: sent_def)
    then have same: "waiting_on (pr_set_channel P ch t) = waiting_on s"
      using sent by (simp add: waiting_on_def)
    have "pr_agency P t \<noteq> pr_role P t" using sent 3 by metis
    then have "waiting_on s' \<le> waiting_on s"
      using head_consumes[OF assms(1) t(3)] t(3) same next_turn
      by (cases "pr_agency P t = NoAgency")
        (auto simp: execute_from.simps[of w c P None "pr_set_channel P ch t"])
    with 3 show ?thesis by simp
  qed
qed

section \<open>Messages are processed in order, whatever the frames\<close>

lemma process_set:
  "process P ms (pr_set_channel P ch s) =
    (fst (process P ms s), pr_set_channel P ch (snd (process P ms s)))"
proof (induction ms arbitrary: s)
  case Nil
  then show ?case by simp
next
  case (Cons m ms)
  then show ?case
    by (cases "pr_recv P m s") (auto simp: bind_s_def unwrap_s_def recv_set split: sum.splits)
qed

lemma process_channel:
  "process P ms s = (r, s') \<Longrightarrow> pr_channel P s' = pr_channel P s \<and> pr_role P s' = pr_role P s"
proof (induction ms arbitrary: s)
  case Nil
  then show ?case by simp
next
  case (Cons m ms)
  then show ?case
    by (fastforce simp: bind_s_def dest: unwrap_recv split: prod.splits sum.splits)
qed

text \<open>
  A buffer that begins a stream of messages: the whole ones are processed, the beginning of
  the next one is kept.
\<close>

lemma receive_bytes_stream:
  assumes "list_all2 (encodes c P) ms bss" and "data @ rest = concat bss"
    and "process P ms s = (Inr (), s')"
    and "pr_agency P s \<noteq> NoAgency" "pr_agency P s \<noteq> pr_role P s"
  obtains k l t where "k \<le> length ms" "incomplete l (drop k bss)"
    "l @ rest = concat (drop k bss)" "process P (take k ms) s = (Inr (), t)"
    "receive_bytes c P data s = Some (Inr (if l = [] then None else Some l), t)"
proof -
  have len: "length ms = length bss" using assms(1) by (rule list_all2_lengthD)
  obtain k l q where k: "k \<le> length bss" "data = concat (take k bss) @ l"
      "l @ rest = concat (drop k bss)"
      "l = [] \<or> (k < length bss \<and> bss ! k = l @ q \<and> q \<noteq> [])"
    using concat_prefix_split[OF assms(2) encodes_all_nonempty[OF assms(1)]] by blast
  obtain t where t: "process P (take k ms) s = (Inr (), t)"
    using process_take[OF assms(3)] by blast
  have "list_all2 (encodes c P) (take k ms) (take k bss)"
    using assms(1) by (rule list_all2_takeI)
  moreover have "l = [] \<or> (\<exists>m q. encodes c P m (l @ q) \<and> q \<noteq> [])"
    using k(4) list_all2_nthD2[OF assms(1)] by metis
  ultimately have "receive_loop c P data 0 0 s =
      Some (Inr (if l = [] then None else Some l), t)"
    using k(2) t by (intro receive_loop_stream) simp_all
  moreover have "incomplete l (drop k bss)"
    using k(4) by (auto simp: incomplete_def hd_drop_conv_nth)
  ultimately show thesis
    using that[of k l t] k len t assms(4,5) by (simp add: receive_bytes_def)
qed

text \<open>
  The loop on a stream of messages in which it is never this side's turn and which ends the
  exchange: it stops after the message that took the agency away, or after the last one of
  the frame that held it, and what it leaves is the rest of the stream.
\<close>

definition peer_speaks :: "'m list \<Rightarrow> 's \<Rightarrow> bool" where
  "peer_speaks ms s \<longleftrightarrow> (\<forall>k \<le> length ms. \<exists>t. process P (take k ms) s = (Inr (), t) \<and>
     (pr_agency P t = NoAgency \<or> pr_agency P t \<noteq> pr_role P t) \<and>
     (k = length ms \<longrightarrow> pr_agency P t = NoAgency))"

lemma peer_speaks_drop:
  assumes "peer_speaks ms s" and "k \<le> length ms" and "process P (take k ms) s = (Inr (), t)"
  shows "peer_speaks (drop k ms) t"
  unfolding peer_speaks_def
proof (intro allI impI)
  fix j assume j: "j \<le> length (drop k ms)"
  have "process P (take (k + j) ms) s = process P (take j (drop k ms)) t"
    using assms(2,3) by (simp add: take_add process_append bind_s_def)
  moreover have "k + j \<le> length ms" using j assms(2) by simp
  ultimately show "\<exists>u. process P (take j (drop k ms)) t = (Inr (), u) \<and>
      (pr_agency P u = NoAgency \<or> pr_agency P u \<noteq> pr_role P u) \<and>
      (j = length (drop k ms) \<longrightarrow> pr_agency P u = NoAgency)"
    using assms(1)[unfolded peer_speaks_def, rule_format, of "k + j"] assms(2) by auto
qed

lemma execute_stop:
  "pr_agency P s = NoAgency \<Longrightarrow> execute w c P s = Some (Ready (Inr ()), s)"
  by (simp add: execute_def execute_from.simps[of w c P None s])

lemma execute_receive:
  assumes "quiet (ch_conn ch)" and "pr_agency P s \<noteq> NoAgency" "pr_agency P s \<noteq> pr_role P s"
    and "receive_bytes c P (l @ p) (pr_set_channel P (feed [] ps ch) s) =
      Some (Inr kept, pr_set_channel P (feed [] ps ch) t)"
  shows "execute w c P (pr_set_channel P (feed l (p # ps) ch) s) =
    execute w c P (pr_set_channel P (feed (case kept of None \<Rightarrow> [] | Some b \<Rightarrow> b) ps ch) t)"
  using assms
  by (simp add: execute_def set_bytes_def
      execute_from.simps[of w c P None "pr_set_channel P (feed l (p # ps) ch) s"]
      execute_from.simps[of w c P "Some l"])

lemma receive_stream:
  assumes "list_all2 (encodes c P) ms bss" and "data @ rest = concat bss"
    and "process P ms s = (Inr (), s')"
    and "pr_agency P s \<noteq> NoAgency" "pr_agency P s \<noteq> pr_role P s"
  obtains k l t where "k \<le> length ms" "incomplete l (drop k bss)"
    "l @ rest = concat (drop k bss)" "process P (take k ms) s = (Inr (), t)"
    "receive_bytes c P data (pr_set_channel P ch s) =
      Some (Inr (if l = [] then None else Some l), pr_set_channel P ch t)"
proof -
  have "process P ms (pr_set_channel P ch s) = (Inr (), pr_set_channel P ch s')"
    by (simp add: process_set assms(3))
  from receive_bytes_stream[OF assms(1,2) this] assms(4,5)
  obtain k l t' where k: "k \<le> length ms" "incomplete l (drop k bss)" "l @ rest = concat (drop k bss)"
    and t': "process P (take k ms) (pr_set_channel P ch s) = (Inr (), t')"
      "receive_bytes c P data (pr_set_channel P ch s) =
        Some (Inr (if l = [] then None else Some l), t')"
    by auto
  from t'(1) obtain t where "process P (take k ms) s = (Inr (), t)" "t' = pr_set_channel P ch t"
    by (cases "process P (take k ms) s") (simp add: process_set)
  with that[OF k] t'(2) show thesis by simp
qed

lemma execute_stream:
  assumes "list_all2 (encodes c P) ms bss" and "l @ concat ps = concat bss"
    and "incomplete l bss" and "quiet (ch_conn ch)" and "peer_speaks ms s"
  shows "\<exists>k l' ps' t. k \<le> length ms \<and> process P (take k ms) s = (Inr (), t) \<and>
    pr_agency P t = NoAgency \<and> l' @ concat ps' = concat (drop k bss) \<and>
    incomplete l' (drop k bss) \<and>
    execute w c P (pr_set_channel P (feed l ps ch) s) =
      Some (Ready (Inr ()), pr_set_channel P (feed l' ps' ch) t)"
  using assms
proof (induction ps arbitrary: l s ms bss)
  case Nil
  have "bss = []"
  proof (rule ccontr)
    assume "bss \<noteq> []"
    then obtain b bs where "bss = b # bs" by (cases bss) auto
    with Nil.prems(2,3) encodes_all_nonempty[OF Nil.prems(1)] show False
      by (auto simp: incomplete_def)
  qed
  with Nil.prems(1) have "ms = []" by simp
  with Nil.prems(5) have "pr_agency P s = NoAgency" by (simp add: peer_speaks_def)
  with Nil.prems \<open>ms = []\<close> show ?case
    by (intro exI[of _ 0]) (auto simp: execute_stop intro!: exI[of _ l] exI[of _ "[]"])
next
  case (Cons p ps)
  show ?case
  proof (cases "pr_agency P s = NoAgency")
    case True
    with Cons.prems show ?thesis
      by (intro exI[of _ 0]) (auto simp: execute_stop intro!: exI[of _ l] exI[of _ "p # ps"])
  next
    case False
    from Cons.prems(5) obtain s' where "process P ms s = (Inr (), s')"
      and turn: "pr_agency P s \<noteq> pr_role P s"
      using False unfolding peer_speaks_def
      by (metis le0 le_refl process.simps(1) prod.inject take0 take_all_iff)
    moreover have "(l @ p) @ concat ps = concat bss" using Cons.prems(2) by simp
    ultimately obtain k l1 t where k: "k \<le> length ms" "incomplete l1 (drop k bss)"
        "l1 @ concat ps = concat (drop k bss)" "process P (take k ms) s = (Inr (), t)"
        "receive_bytes c P (l @ p) (pr_set_channel P (feed [] ps ch) s) =
          Some (Inr (if l1 = [] then None else Some l1), pr_set_channel P (feed [] ps ch) t)"
      using receive_stream[OF Cons.prems(1)] False by metis
    have kept: "(case if l1 = [] then None else Some l1 of None \<Rightarrow> [] | Some b \<Rightarrow> b) = l1"
      by simp
    have "list_all2 (encodes c P) (drop k ms) (drop k bss)"
      using Cons.prems(1) by (rule list_all2_dropI)
    from Cons.IH[OF this k(3,2) Cons.prems(4) peer_speaks_drop[OF Cons.prems(5) k(1,4)]]
    obtain j l' ps' u where j: "j \<le> length (drop k ms)"
        "process P (take j (drop k ms)) t = (Inr (), u)" "pr_agency P u = NoAgency"
        "l' @ concat ps' = concat (drop j (drop k bss))" "incomplete l' (drop j (drop k bss))"
        "execute w c P (pr_set_channel P (feed l1 ps ch) t) =
          Some (Ready (Inr ()), pr_set_channel P (feed l' ps' ch) u)"
      by blast
    have "process P (take (k + j) ms) s = (Inr (), u)"
      using k(4) j(2) by (simp add: take_add process_append bind_s_def)
    moreover have "k + j \<le> length ms" using j(1) k(1) by simp
    ultimately show ?thesis
      using j execute_receive[OF Cons.prems(4) False turn k(5), of w, unfolded kept]
      by (intro exI[of _ "k + j"]) (auto simp: add.commute)
  qed
qed

text \<open>
  An exchange that ends with its last message: the loop returns after exactly these
  messages, wherever the frames were cut.
\<close>

fun exchange :: "'m list \<Rightarrow> 's \<Rightarrow> 's \<Rightarrow> bool" where
  "exchange [] s s' \<longleftrightarrow> s' = s \<and> pr_agency P s = NoAgency"
| "exchange (m # ms) s s' \<longleftrightarrow> pr_agency P s \<noteq> NoAgency \<and> pr_agency P s \<noteq> pr_role P s \<and>
     (\<exists>t. pr_recv P m s = (Inr (), t) \<and> exchange ms t s')"

lemma exchange_process:
  "exchange ms s s' \<Longrightarrow> k \<le> length ms \<Longrightarrow>
    \<exists>t. process P (take k ms) s = (Inr (), t) \<and> exchange (drop k ms) t s'"
proof (induction ms arbitrary: s k)
  case Nil
  then show ?case by simp
next
  case (Cons m ms)
  then show ?case by (cases k) (auto simp: bind_s_def unwrap_s_def)
qed

lemma exchange_agency:
  "exchange ms s s' \<Longrightarrow> (pr_agency P s = NoAgency \<longleftrightarrow> ms = []) \<and>
    (pr_agency P s = NoAgency \<or> pr_agency P s \<noteq> pr_role P s)"
  by (cases ms) auto

lemma exchange_peer_speaks: "exchange ms s s' \<Longrightarrow> peer_speaks ms s"
  unfolding peer_speaks_def
proof (intro allI impI)
  fix k
  assume "exchange ms s s'" "k \<le> length ms"
  then obtain t where t: "process P (take k ms) s = (Inr (), t)" "exchange (drop k ms) t s'"
    using exchange_process by blast
  with exchange_agency[OF t(2)] show "\<exists>t. process P (take k ms) s = (Inr (), t) \<and>
      (pr_agency P t = NoAgency \<or> pr_agency P t \<noteq> pr_role P t) \<and>
      (k = length ms \<longrightarrow> pr_agency P t = NoAgency)"
    by auto
qed

lemma execute_exchange:
  assumes "list_all2 (encodes c P) ms bss" and "l @ concat ps = concat bss"
    and "incomplete l bss" and "quiet (ch_conn ch)" and "exchange ms s s'"
  shows "\<exists>ps'. execute w c P (pr_set_channel P (feed l ps ch) s) =
      Some (Ready (Inr ()), pr_set_channel P (feed [] ps' ch) s') \<and> concat ps' = []"
proof -
  obtain k l' ps' t where k: "k \<le> length ms" "process P (take k ms) s = (Inr (), t)"
      "pr_agency P t = NoAgency" "l' @ concat ps' = concat (drop k bss)"
      "execute w c P (pr_set_channel P (feed l ps ch) s) =
        Some (Ready (Inr ()), pr_set_channel P (feed l' ps' ch) t)"
    using execute_stream[OF assms(1-4) exchange_peer_speaks[OF assms(5)]] by blast
  from exchange_process[OF assms(5) k(1)] k(2) have t: "exchange (drop k ms) t s'" by auto
  with exchange_agency[OF t] k(1,3) have "k = length ms" by simp
  with t k(4) list_all2_lengthD[OF assms(1)] have "t = s'" "l' = []" "concat ps' = []" by simp_all
  with k(5) show ?thesis by auto
qed

text \<open>A run that has nothing to read is suspended, and resumes as it would have gone on.\<close>

lemma execute_waits:
  assumes "quiet (ch_conn ch)" and "pr_agency P s \<noteq> NoAgency" "pr_agency P s \<noteq> pr_role P s"
  shows "execute w c P (pr_set_channel P (feed l [] ch) s) =
    Some (Pending l, pr_set_channel P (feed [] [] ch) s)"
  using assms
  by (simp add: execute_def set_bytes_def
      execute_from.simps[of w c P None "pr_set_channel P (feed l [] ch) s"]
      execute_from.simps[of w c P "Some l"])

text \<open>Empty payloads do not wake it up for good.\<close>

lemma execute_idles:
  assumes "quiet (ch_conn ch)" and "pr_agency P s \<noteq> NoAgency" "pr_agency P s \<noteq> pr_role P s"
    and "concat ps = []"
  shows "execute w c P (pr_set_channel P (feed [] ps ch) s) =
    Some (Pending [], pr_set_channel P (feed [] [] ch) s)"
  using assms(4)
proof (induction ps)
  case Nil
  show ?case by (rule execute_waits[OF assms(1-3)])
next
  case (Cons p ps)
  then have "receive_bytes c P ([] @ p) (pr_set_channel P (feed [] ps ch) s) =
      Some (Inr None, pr_set_channel P (feed [] ps ch) s)"
    using assms(2,3) by (simp add: receive_bytes_def receive_loop.simps[of c P "[]"])
  from execute_receive[OF assms(1-3) this] Cons show ?case by simp
qed

text \<open>Bytes that are no item at all end the run with a panic.\<close>

lemma execute_garbage:
  assumes "quiet (ch_conn ch)" and "pr_agency P s \<noteq> NoAgency" "pr_agency P s \<noteq> pr_role P s"
    and "next_item c p = ItemBad" "p \<noteq> []"
  shows "execute w c P (pr_set_channel P (feed [] (p # ps) ch) s) =
    Some (Ready (Inl (Panic ExplicitPanic)), pr_set_channel P (feed [] ps ch) s)"
  using assms
  by (simp add: execute_def set_bytes_def receive_bytes_def receive_loop.simps[of c P p]
      execute_from.simps[of w c P None "pr_set_channel P (feed [] (p # ps) ch) s"]
      execute_from.simps[of w c P "Some []"])

lemma execute_resumes:
  assumes "pr_agency P s \<noteq> NoAgency" "pr_agency P s \<noteq> pr_role P s"
  shows "execute_from w c P (Some l) (pr_set_channel P (feed [] ps ch) s) =
    execute w c P (pr_set_channel P (feed l ps ch) s)"
  using assms
  by (simp add: execute_def set_bytes_def
      execute_from.simps[of w c P None "pr_set_channel P (feed l ps ch) s"])

text \<open>
  The frames up to the one that completes the next message only fill the buffer.
\<close>

lemma receive_bytes_short:
  assumes "stream_code c vs bs" and "bs = data @ q" "q \<noteq> []"
    and "pr_agency P s \<noteq> NoAgency" "pr_agency P s \<noteq> pr_role P s"
  shows "receive_bytes c P data s = Some (Inr (if data = [] then None else Some data), s)"
  using assms stream_codeD(3)[OF assms(1,2) _ assms(3)]
  by (simp add: receive_bytes_def receive_loop.simps[of c P data 0])

lemma execute_gather:
  assumes "stream_code c vs bs" and "l @ concat ps = bs @ rest" and "length l < length bs"
    and "quiet (ch_conn ch)" and "pr_agency P s \<noteq> NoAgency" "pr_agency P s \<noteq> pr_role P s"
  shows "\<exists>l' p ps'. l' @ p @ concat ps' = bs @ rest \<and> length l' < length bs \<and>
    length bs \<le> length (l' @ p) \<and>
    execute w c P (pr_set_channel P (feed l ps ch) s) =
      execute w c P (pr_set_channel P (feed l' (p # ps') ch) s)"
  using assms(2,3)
proof (induction ps arbitrary: l)
  case Nil
  then show ?case using arg_cong[OF Nil(1), of length] by simp
next
  case (Cons p ps)
  show ?case
  proof (cases "length bs \<le> length (l @ p)")
    case True
    with Cons.prems show ?thesis by (metis append.assoc concat.simps(2))
  next
    case False
    have eq: "(l @ p) @ concat ps = bs @ rest" using Cons.prems(1) by simp
    with False obtain q where q: "bs = (l @ p) @ q" "q \<noteq> []"
      by (auto simp: append_eq_append_conv2)
    have "receive_bytes c P (l @ p) (pr_set_channel P (feed [] ps ch) s) =
        Some (Inr (if l @ p = [] then None else Some (l @ p)), pr_set_channel P (feed [] ps ch) s)"
      by (rule receive_bytes_short[OF assms(1) q]) (use assms(5,6) in simp_all)
    moreover have "(case if l @ p = [] then None else Some (l @ p) of None \<Rightarrow> [] | Some b \<Rightarrow> b) = l @ p"
      by simp
    ultimately have "execute w c P (pr_set_channel P (feed l (p # ps) ch) s) =
        execute w c P (pr_set_channel P (feed (l @ p) ps ch) s)"
      using execute_receive[OF assms(4-6)] by metis
    with Cons.IH[OF eq] False show ?thesis by simp
  qed
qed

text \<open>A message that hands the turn over, wherever it was cut.\<close>

lemma execute_message:
  assumes "encodes c P m bs" and "l @ concat ps = bs" and "length l < length bs"
    and "quiet (ch_conn ch)" and "pr_agency P s \<noteq> NoAgency" "pr_agency P s \<noteq> pr_role P s"
    and "pr_recv P m s = (Inr (), t)"
  shows "\<exists>ps'. execute w c P (pr_set_channel P (feed l ps ch) s) =
    execute w c P (pr_set_channel P (feed [] ps' ch) t) \<and> concat ps' = []"
proof -
  obtain vs where "stream_code c vs bs" using assms(1) by (auto simp: encodes_def)
  from execute_gather[OF this, of l ps "[]" ch s w] assms(2-6)
  obtain l' p ps' where g: "l' @ p @ concat ps' = bs" "length bs \<le> length (l' @ p)"
    "execute w c P (pr_set_channel P (feed l ps ch) s) =
      execute w c P (pr_set_channel P (feed l' (p # ps') ch) s)"
    by auto
  then have bs: "l' @ p = bs" "concat ps' = []" by auto
  let ?s = "pr_set_channel P (feed [] ps' ch) s"
  have "process P [m] ?s = (Inr (), pr_set_channel P (feed [] ps' ch) t)"
    by (simp add: bind_s_def unwrap_s_def recv_set assms(7))
  then have "receive_bytes c P (l' @ p) ?s = Some (Inr None, pr_set_channel P (feed [] ps' ch) t)"
    using receive_loop_stream[of c P "[m]" "[bs]" 0 bs "[]" 0 ?s] assms(1,5,6) bs(1)
    by (simp add: receive_bytes_def)
  from execute_receive[OF assms(4-6) this] g(3) bs(2) show ?thesis by auto
qed

text \<open>A frame of whole messages is processed to its end, whoever has the turn on the way.\<close>

lemma execute_frame:
  assumes "list_all2 (encodes c P) ms bss" and "p = concat bss"
    and "quiet (ch_conn ch)" and "pr_agency P s \<noteq> NoAgency" "pr_agency P s \<noteq> pr_role P s"
    and "process P ms s = (Inr (), t)"
  shows "execute w c P (pr_set_channel P (feed [] (p # ps) ch) s) =
    execute w c P (pr_set_channel P (feed [] ps ch) t)"
proof -
  have "receive_loop c P ([] @ p) 0 0 (pr_set_channel P (feed [] ps ch) s) =
      Some (Inr None, pr_set_channel P (feed [] ps ch) t)"
    using receive_loop_stream[OF assms(1), where off = 0 and data = p and l = "[]"
        and last_offset = 0 and s = "pr_set_channel P (feed [] ps ch) s"] assms(2,6) by (simp add: process_set)
  then show ?thesis
    using execute_receive[OF assms(3-5), where l = "[]" and p = p and ps = ps and kept = None
        and t = t and w = w] assms(4,5)
    by (simp add: receive_bytes_def)
qed

text \<open>
  A message that is no message of the protocol, or that the state machine rejects: the run
  ends there with the failure, whatever follows.
\<close>

definition handle :: "cbor_value list \<Rightarrow> ('s, error, unit) op" where
  "handle vs s = (case unwrap (pr_from_iter P vs) of
       Inl f \<Rightarrow> (Inl f, s)
     | Inr m \<Rightarrow> unwrap_s (pr_recv P m) s)"

lemma execute_rejects:
  assumes "stream_code c vs bs" and "l @ concat ps = bs @ rest" and "length l < length bs"
    and "quiet (ch_conn ch)" and "pr_agency P s \<noteq> NoAgency" "pr_agency P s \<noteq> pr_role P s"
    and "handle vs s = (Inl f, t)"
  shows "\<exists>ps'. execute w c P (pr_set_channel P (feed l ps ch) s) =
    Some (Ready (Inl f), pr_set_channel P (feed [] ps' ch) t)"
proof -
  from execute_gather[OF assms(1-6), of w]
  obtain l' p ps' where g: "l' @ p @ concat ps' = bs @ rest" "length bs \<le> length (l' @ p)"
    "execute w c P (pr_set_channel P (feed l ps ch) s) =
      execute w c P (pr_set_channel P (feed l' (p # ps') ch) s)"
    by blast
  then obtain more_bytes where lp: "l' @ p = bs @ more_bytes"
    by (metis append.assoc append_eq_append_conv_if append_take_drop_id)
  let ?ch = "feed [] ps' ch"
  have "handle vs (pr_set_channel P ?ch s) = (Inl f, pr_set_channel P ?ch t)"
    using assms(7) by (auto simp: handle_def unwrap_s_def recv_set split: sum.splits prod.splits)
  then have "receive_bytes c P (l' @ p) (pr_set_channel P ?ch s) =
      Some (Inl f, pr_set_channel P ?ch t)"
    using assms(5,6) stream_codeD(1)[OF assms(1)]
    by (auto simp: lp receive_bytes_def receive_loop.simps[of c P _ 0] stream_codeD(2)[OF assms(1)]
        handle_def split: sum.splits prod.splits)
  then show ?thesis
    using assms(5,6) g(3)
    by (auto simp: execute_def set_bytes_def channel_recv_feed[OF assms(4)]
        execute_from.simps[of w c P None "pr_set_channel P (feed l' (p # ps') ch) s"]
        execute_from.simps[of w c P "Some l'"])
qed

text \<open>The turn of this side: the message is encoded and written as one frame.\<close>

lemma execute_send:
  assumes "pr_agency P s = pr_role P s" "pr_role P s \<noteq> NoAgency"
    and "pr_send P s = (Inr m, t)" and "pr_to_bytes P m = Inr data"
    and "writable (ch_conn (pr_channel P s))"
  shows "execute w c P s = execute w c P (pr_set_channel P (sent w data (pr_channel P s)) t)"
proof -
  have "send_bytes P s = (Inr (Some data), t)"
    using assms by (simp add: send_bytes_def exec)
  moreover have "pr_channel P t = pr_channel P s"
    using send_channel[of s] assms(3) by simp
  ultimately show ?thesis
    using assms(1,2) channel_send_writable[OF assms(5)]
    by (simp add: execute_def execute_from.simps[of w c P None s])
qed

text \<open>A socket that fails ends the run with a panic.\<close>

lemma execute_send_breaks:
  assumes "pr_agency P s = pr_role P s" "pr_role P s \<noteq> NoAgency"
    and "pr_send P s = (Inr m, t)" and "pr_to_bytes P m = Inr data"
    and "cn_writes (ch_conn (pr_channel P s)) 0 = Breaks n"
  shows "execute w c P s = Some (Ready (Inl (Panic UnwrapPanic)),
    pr_set_channel P (sent w data (pr_channel P s)) t)"
proof -
  have "send_bytes P s = (Inr (Some data), t)"
    using assms by (simp add: send_bytes_def exec)
  moreover have "pr_channel P t = pr_channel P s"
    using send_channel[of s] assms(3) by simp
  moreover have "channel_send w data (pr_channel P s) =
      (Inl (Panic UnwrapPanic), sent w data (pr_channel P s))"
    using assms(5) by (simp add: sent_def channel_send_def connection_send_def Let_def)
  ultimately show ?thesis
    using assms(1,2) by (simp add: execute_def execute_from.simps[of w c P None s])
qed

section \<open>Invariants of a run\<close>

text \<open>
  What every handler keeps, a run keeps; and a run that succeeds has nobody's turn left.
\<close>

lemma receive_loop_invariant:
  assumes recv: "\<And>m s. I s \<Longrightarrow> I (snd (pr_recv P m s))"
    and run: "receive_loop c P data off last_offset s = Some (r, s')" and "I s"
  shows "I s'"
proof -
  have "case (((((c, P), data), off), last_offset), s) of
      (((((c, Q), data), off), last_offset), s) \<Rightarrow> Q = P \<longrightarrow> I s \<longrightarrow> I (snd (r, s'))"
  proof (rule receive_loop.raw_induct[where
        Pa = "\<lambda>args res. case args of
          (((((c, Q), data), off), last_offset), s) \<Rightarrow> Q = P \<longrightarrow> I s \<longrightarrow> I (snd res)", OF _ run],
      unfold split, intro impI)
    fix f c Q data off last_offset s res
    assume IH: "\<And>c Q data off last_offset s res. f c Q data off last_offset s = Some res \<Longrightarrow>
        Q = P \<longrightarrow> I s \<longrightarrow> I (snd res)"
      and eq: "(if length data \<le> off
        then Some (if off = length data then Inr None else Inl (Panic AssertPanic), s)
        else case next_item c (drop off data) of
          Item values n \<Rightarrow>
            (case unwrap (pr_from_iter Q values) of
               Inl f \<Rightarrow> Some (Inl f, s)
             | Inr message \<Rightarrow>
                (case unwrap_s (pr_recv Q message) s of
                   (Inl f, s') \<Rightarrow> Some (Inl f, s')
                 | (Inr _, s') \<Rightarrow> f c Q data (off + n) (off + n) s'))
        | ItemEof \<Rightarrow> Some (Inr (Some (drop last_offset data)), s)
        | ItemBad \<Rightarrow> Some (Inl (Panic ExplicitPanic), s)) = Some res"
      and Q: "Q = P" and "I s"
    have step: "I t" if "unwrap_s (pr_recv P m) s = (res, t)" for m res t
      using recv[OF \<open>I s\<close>, of m] that by (auto simp: unwrap_s_def split: prod.splits)
    show "I (snd res)"
      using eq step IH Q \<open>I s\<close>
      by (auto split: if_splits stream_item.splits sum.splits prod.splits)
  qed
  with assms(3) show ?thesis by simp
qed

lemma receive_bytes_invariant:
  assumes "\<And>m s. I s \<Longrightarrow> I (snd (pr_recv P m s))"
    and "receive_bytes c P data s = Some (r, s')" and "I s"
  shows "I s'"
  using assms(2,3) receive_loop_invariant[where I = I, OF assms(1)]
  by (auto simp: receive_bytes_def split: if_splits)

lemma send_bytes_invariant:
  assumes "\<And>s. I s \<Longrightarrow> I (snd (pr_send P s))"
    and "send_bytes P s = (r, s')" and "I s"
  shows "I s'"
  using assms(1)[OF assms(3)] assms(2,3)
  by (auto simp: send_bytes_def bind_s_def unwrap_s_def lift_r_def ret_s_def
      split: if_splits prod.splits sum.splits)

text \<open>An invariant of the handlers and of what the loop does with the channel.\<close>

lemma execute_channel_invariant:
  assumes recv: "\<And>m s. I s \<Longrightarrow> I (snd (pr_recv P m s))"
    and send: "\<And>s. I s \<Longrightarrow> I (snd (pr_send P s))"
    and buffer: "\<And>b s. I s \<Longrightarrow> I (set_bytes P b s)"
    and chan_send: "\<And>d s. I s \<Longrightarrow>
      I (pr_set_channel P (snd (channel_send w d (pr_channel P s))) s)"
    and chan_recv: "\<And>s. I s \<Longrightarrow> I (pr_set_channel P (snd (channel_recv w (pr_channel P s))) s)"
    and run: "execute_from w c P at_await s = Some (r, s')" and "I s"
  shows "I s' \<and> (r = Ready (Inr ()) \<longrightarrow> pr_agency P s' = NoAgency)"
proof -
  let ?ok = "\<lambda>res. I (snd res) \<and> (fst res = Ready (Inr ()) \<longrightarrow> pr_agency P (snd res) = NoAgency)"
  have "case ((((w, c), P), at_await), s) of
      ((((v, c), Q), at_await), s) \<Rightarrow> v = w \<and> Q = P \<longrightarrow> I s \<longrightarrow> ?ok (r, s')"
  proof (rule execute_from.raw_induct[where
        Pa = "\<lambda>args res. case args of ((((v, c), Q), at_await), s) \<Rightarrow>
          v = w \<and> Q = P \<longrightarrow> I s \<longrightarrow> ?ok res",
        OF _ run],
      unfold split, intro impI)
    fix f v c Q at_await s res
    assume IH: "\<And>v c Q at_await s res. f v c Q at_await s = Some res \<Longrightarrow>
        v = w \<and> Q = P \<longrightarrow> I s \<longrightarrow> ?ok res"
      and eq: "(case at_await of
     None \<Rightarrow>
       (if pr_agency Q s = NoAgency then Some (Ready (Inr ()), s)
        else if pr_agency Q s = pr_role Q s then
          (case send_bytes Q s of
             (Inl f, s') \<Rightarrow> Some (Ready (Inl f), s')
           | (Inr None, s') \<Rightarrow> Some (Ready (Inl (Panic UnwrapPanic)), s')
           | (Inr (Some data), s') \<Rightarrow>
               (case channel_send v data (pr_channel Q s') of
                  (Inl f, ch) \<Rightarrow> Some (Ready (Inl f), pr_set_channel Q ch s')
                | (Inr _, ch) \<Rightarrow> f v c Q None (pr_set_channel Q ch s')))
        else f v c Q (Some (ch_bytes (pr_channel Q s))) (set_bytes Q [] s))
   | Some bytes \<Rightarrow>
       (case channel_recv v (pr_channel Q s) of
          (Ready (Inl f), ch) \<Rightarrow> Some (Ready (Inl f), pr_set_channel Q ch s)
        | (Ready (Inr new_data), ch) \<Rightarrow>
            (case receive_bytes c Q (bytes @ new_data) (pr_set_channel Q ch s) of
               None \<Rightarrow> None
             | Some (Inl f, s') \<Rightarrow> Some (Ready (Inl f), s')
             | Some (Inr kept, s') \<Rightarrow>
                 f v c Q None (set_bytes Q (case kept of None \<Rightarrow> [] | Some b \<Rightarrow> b) s'))
        | (Pending _, ch) \<Rightarrow> Some (Pending bytes, pr_set_channel Q ch s))) = Some res"
      and "v = w \<and> Q = P" and I: "I s"
    then have Q: "v = w" "Q = P" by simp_all
    show "?ok res"
    proof (cases at_await)
      case None
      show ?thesis
      proof (cases "send_bytes P s")
        case (Pair r1 s1)
        then have "I s1" using send_bytes_invariant[of I s r1 s1] send I by blast
        have "I (pr_set_channel P ch s1)" if "channel_send w d (pr_channel P s1) = (q, ch)" for d q ch
          using chan_send[OF \<open>I s1\<close>, of d] that by simp
        with eq None Q I \<open>I s1\<close> Pair IH buffer show ?thesis
          by (auto split: if_splits sum.splits option.splits prod.splits)
      qed
    next
      case (Some l)
      obtain r1 ch where ch: "channel_recv w (pr_channel P s) = (r1, ch)"
        by (cases "channel_recv w (pr_channel P s)")
      with chan_recv[OF I] have I_ch: "I (pr_set_channel P ch s)" by simp
      show ?thesis
      proof (cases "\<exists>p. r1 = Ready (Inr p)")
        case True
        then obtain p where p: "r1 = Ready (Inr p)" by blast
        from eq Some Q ch p obtain r2 s2 where
            r2: "receive_bytes c P (l @ p) (pr_set_channel P ch s) = Some (r2, s2)"
          by (auto split: option.splits)
        then have "I s2"
          using receive_bytes_invariant[of I c "l @ p" _ r2 s2] recv I_ch by blast
        with eq Some Q ch p r2 IH buffer show ?thesis
          by (auto split: sum.splits)
      next
        case False
        with eq Some Q ch I_ch show ?thesis
          by (auto split: poll.splits sum.splits)
      qed
    qed
  qed
  with assms(7) show ?thesis by simp
qed

lemma execute_invariant:
  assumes "\<And>m s. I s \<Longrightarrow> I (snd (pr_recv P m s))" and "\<And>s. I s \<Longrightarrow> I (snd (pr_send P s))"
    and "\<And>ch s. I s \<Longrightarrow> I (pr_set_channel P ch s)"
    and "execute_from w c P at_await s = Some (r, s')" and "I s"
  shows "I s' \<and> (r = Ready (Inr ()) \<longrightarrow> pr_agency P s' = NoAgency)"
  using assms by (intro execute_channel_invariant[where I = I, OF _ _ _ _ _ assms(4,5)])
    (simp_all add: set_bytes_def)

text \<open>What has been written stays written, and nobody but the peer closes the stream.\<close>

lemma execute_sender:
  assumes "execute_from w c P at_await s = Some (r, s')"
  shows "\<exists>data. cn_sent (ch_conn (pr_channel P s')) = cn_sent (ch_conn (pr_channel P s)) @ data"
    and "cn_eof (ch_conn (pr_channel P s')) = cn_eof (ch_conn (pr_channel P s))"
proof -
  let ?I = "\<lambda>t. (\<exists>data. cn_sent (ch_conn (pr_channel P t)) = cn_sent (ch_conn (pr_channel P s)) @ data) \<and>
    cn_eof (ch_conn (pr_channel P t)) = cn_eof (ch_conn (pr_channel P s))"
  have "?I s' \<and> (r = Ready (Inr ()) \<longrightarrow> pr_agency P s' = NoAgency)"
  proof (rule execute_channel_invariant[where I = ?I, OF _ _ _ _ _ assms])
    fix t d assume "?I t"
    moreover have "\<exists>data. cn_sent (ch_conn (snd (channel_send w d ch))) = cn_sent (ch_conn ch) @ data"
        "cn_eof (ch_conn (snd (channel_send w d ch))) = cn_eof (ch_conn ch)" for ch
      by (auto simp: channel_send_def connection_send_def Let_def
          split: write_outcome.split prod.split)
    ultimately show "?I (pr_set_channel P (snd (channel_send w d (pr_channel P t))) t)"
      by (metis append.assoc get_set)
  next
    fix t assume "?I t"
    moreover have "cn_sent (ch_conn (snd (channel_recv w ch))) = cn_sent (ch_conn ch)"
        "cn_eof (ch_conn (snd (channel_recv w ch))) = cn_eof (ch_conn ch)" for ch
      by (simp_all add: channel_recv_def connection_recv_def demux_poll_def Let_def
          split: prod.split option.split list.split)
    ultimately show "?I (pr_set_channel P (snd (channel_recv w (pr_channel P t))) t)" by simp
  qed (simp_all add: set_bytes_def)
  then show "\<exists>data. cn_sent (ch_conn (pr_channel P s')) = cn_sent (ch_conn (pr_channel P s)) @ data"
    and "cn_eof (ch_conn (pr_channel P s')) = cn_eof (ch_conn (pr_channel P s))"
    by blast+
qed

end

end
