(* ===== verification/Cbor_Sample.thy ===== *)
theory Cbor_Sample
  imports Mux
begin

text \<open>
  One instance of each library parameter, to show that the hypotheses on them can hold
  together: big-endian integers, and a codec that writes valid CBOR (RFC 8949) in
  its indefinite-length form, where every array, map and string is a sequence of items
  closed by a break byte. It is not a model of \<open>serde_cbor\<close>, whose output is definite;
  the theorems hold for any parameter with the stated laws.
\<close>

section \<open>Big-endian integers\<close>

fun nat_bytes :: "nat \<Rightarrow> nat \<Rightarrow> byte list" where
  "nat_bytes 0 n = []"
| "nat_bytes (Suc k) n = nat_bytes k (n div 256) @ [word_of_nat n]"

definition bytes_nat :: "byte list \<Rightarrow> nat" where
  "bytes_nat bs = foldl (\<lambda>a b. a * 256 + unat b) 0 bs"

lemma length_nat_bytes [simp]: "length (nat_bytes k n) = k"
  by (induction k arbitrary: n) simp_all

lemma bytes_nat_snoc [simp]: "bytes_nat (bs @ [b]) = bytes_nat bs * 256 + unat b"
  by (simp add: bytes_nat_def)

lemma bytes_nat_nat_bytes [simp]: "bytes_nat (nat_bytes k n) = n mod 256 ^ k"
proof (induction k arbitrary: n)
  case 0
  then show ?case by (simp add: bytes_nat_def)
next
  case (Suc k)
  have "n mod (256 * 256 ^ k) = 256 * (n div 256 mod 256 ^ k) + n mod 256"
    by (rule mod_mult2_eq)
  with Suc show ?case by (simp add: unat_of_nat)
qed

definition sample_wire :: wire where
  "sample_wire =
     \<lparr>put_u16 = (\<lambda>x. nat_bytes 2 (unat x)), put_u32 = (\<lambda>x. nat_bytes 4 (unat x)),
      get_u16 = (\<lambda>bs. word_of_nat (bytes_nat bs)), get_u32 = (\<lambda>bs. word_of_nat (bytes_nat bs))\<rparr>"

lemma sample_wire_ok: "wire_ok sample_wire"
proof -
  have "unat (x :: u16) mod 65536 = unat x" for x
    using unsigned_less[of x, where ?'a = nat] by simp
  moreover have "unat (x :: u32) mod 4294967296 = unat x" for x
    using unsigned_less[of x, where ?'a = nat] by simp
  ultimately show ?thesis by (simp add: wire_ok_def sample_wire_def)
qed

section \<open>The encoder\<close>

fun enc :: "cbor_value \<Rightarrow> byte list" where
  "enc Null = [0xf6]"
| "enc (Bool b) = [if b then 0xf5 else 0xf4]"
| "enc (Integer n) =
     (if 0 \<le> n then 0x1b # nat_bytes 8 (nat n) else 0x3b # nat_bytes 8 (nat (- 1 - n)))"
| "enc (Float x) = 0xfb # nat_bytes 8 (unat x)"
| "enc (Bytes bs) = 0x5f # concat (map (\<lambda>b. [0x41, b]) bs) @ [0xff]"
| "enc (Text s) = 0x7f # concat (map (\<lambda>ch. [0x61, of_char ch]) s) @ [0xff]"
| "enc (Array vs) = 0x9f # concat (map enc vs) @ [0xff]"
| "enc (Map kvs) = 0xbf # concat (map (\<lambda>p. enc (fst p) @ enc (snd p)) kvs) @ [0xff]"
| "enc (Tag t v) = 0xdb # nat_bytes 8 (unat t) @ enc v"

section \<open>The decoder\<close>

datatype 'a got = Got 'a "byte list" | Short | Wrong

fun got_bind :: "'a got \<Rightarrow> ('a \<Rightarrow> byte list \<Rightarrow> 'b got) \<Rightarrow> 'b got" where
  "got_bind (Got a rest) k = k a rest"
| "got_bind Short k = Short"
| "got_bind Wrong k = Wrong"

definition dec_u64 :: "byte list \<Rightarrow> nat got" where
  "dec_u64 bs = (if length bs < 8 then Short else Got (bytes_nat (take 8 bs)) (drop 8 bs))"

fun dec_chunks :: "byte \<Rightarrow> byte list \<Rightarrow> byte list got" where
  "dec_chunks t [] = Short"
| "dec_chunks t [b] = (if b = 0xff then Got [] [] else if b = t then Short else Wrong)"
| "dec_chunks t (b # x # rest) =
     (if b = 0xff then Got [] (x # rest)
      else if b = t then got_bind (dec_chunks t rest) (\<lambda>xs. Got (x # xs))
      else Wrong)"

fun dec :: "nat \<Rightarrow> byte list \<Rightarrow> cbor_value got"
  and dec_list :: "nat \<Rightarrow> byte list \<Rightarrow> cbor_value list got"
  and dec_pairs :: "nat \<Rightarrow> byte list \<Rightarrow> (cbor_value \<times> cbor_value) list got" where
  "dec 0 bs = Wrong"
| "dec (Suc f) bs = (case bs of
     [] \<Rightarrow> Short
   | b # rest \<Rightarrow>
      if b = 0xf5 then Got (Bool True) rest
      else if b = 0xf4 then Got (Bool False) rest
      else if b = 0x1b then got_bind (dec_u64 rest) (\<lambda>n. Got (Integer (int n)))
      else if b = 0x3b then got_bind (dec_u64 rest) (\<lambda>n. Got (Integer (- 1 - int n)))
      else if b = 0x5f then got_bind (dec_chunks 0x41 rest) (\<lambda>xs. Got (Bytes xs))
      else if b = 0x7f then got_bind (dec_chunks 0x61 rest)
        (\<lambda>xs. Got (Text (map (\<lambda>x. char_of (unat x)) xs)))
      else if b = 0x9f then got_bind (dec_list f rest) (\<lambda>vs. Got (Array vs))
      else if b = 0xbf then got_bind (dec_pairs f rest) (\<lambda>kvs. Got (Map kvs))
      else Wrong)"
| "dec_list 0 bs = Wrong"
| "dec_list (Suc f) bs = (case bs of
     [] \<Rightarrow> Short
   | b # rest \<Rightarrow>
      if b = 0xff then Got [] rest
      else got_bind (dec f bs) (\<lambda>v rest. got_bind (dec_list f rest) (\<lambda>vs. Got (v # vs))))"
| "dec_pairs 0 bs = Wrong"
| "dec_pairs (Suc f) bs = (case bs of
     [] \<Rightarrow> Short
   | b # rest \<Rightarrow>
      if b = 0xff then Got [] rest
      else got_bind (dec f bs) (\<lambda>k rest. got_bind (dec f rest) (\<lambda>v rest.
           got_bind (dec_pairs f rest) (\<lambda>kvs. Got ((k, v) # kvs)))))"

text \<open>\<open>2 n\<close> units of fuel are enough to read a value of \<open>n\<close> bytes.\<close>

lemma dec_u64_nat_bytes [simp]:
  "n < 2 ^ 64 \<Longrightarrow> dec_u64 (nat_bytes 8 n @ rest) = Got n rest"
  by (simp add: dec_u64_def)

lemma dec_chunks_all [simp]:
  "t \<noteq> 0xff \<Longrightarrow> dec_chunks t (concat (map (\<lambda>b. [t, f b]) bs) @ 0xff # rest) = Got (map f bs) rest"
proof (induction bs)
  case Nil
  then show ?case by (cases rest) simp_all
qed simp

lemma dec_chunks_prefix:
  assumes "t \<noteq> 0xff" and "concat (map (\<lambda>b. [t, f b]) bs) @ [0xff] = p @ q" and "q \<noteq> []"
  shows "dec_chunks t p = Short"
  using assms(2)
proof (induction bs arbitrary: p)
  case Nil
  with assms(3) show ?case by (cases p) auto
next
  case (Cons b bs)
  with assms(1,3) show ?case by (cases p rule: list.exhaust; cases "tl p") auto
qed

lemma enc_first: "\<exists>b bs. enc v = b # bs \<and> b \<noteq> 0xff"
  by (cases v) auto

lemma enc_not_Nil [simp]: "enc v \<noteq> []"
  using enc_first[of v] by auto

lemma char_of_byte [simp]: "char_of (unat (of_char ch :: byte)) = ch"
proof -
  have "unat (of_char ch :: byte) = unat (word_of_nat (of_char ch) :: byte)"
    by (simp add: of_nat_of_char)
  also have "\<dots> = of_char ch" by (simp add: unat_of_nat)
  finally show ?thesis by simp
qed

text \<open>Reading back an encoding.\<close>

definition reads_back :: "cbor_value \<Rightarrow> bool" where
  "reads_back v \<longleftrightarrow> (\<forall>f rest. 2 * length (enc v) \<le> f \<longrightarrow> dec f (enc v @ rest) = Got v rest)"

lemma dec_list_enc:
  assumes "\<forall>v \<in> set vs. reads_back v" and "2 * length (concat (map enc vs)) + 3 \<le> f"
  shows "dec_list f (concat (map enc vs) @ 0xff # rest) = Got vs rest"
  using assms
proof (induction vs arbitrary: f)
  case Nil
  then obtain f' where "f = Suc f'" by (cases f) auto
  then show ?case by simp
next
  case (Cons v vs)
  obtain b bs where b: "enc v = b # bs" "b \<noteq> 0xff" using enc_first by blast
  from Cons.prems(2) obtain f' where f': "f = Suc f'" by (cases f) auto
  have "dec f' (enc v @ concat (map enc vs) @ 0xff # rest) = Got v (concat (map enc vs) @ 0xff # rest)"
    using Cons.prems f' unfolding reads_back_def by simp
  moreover have "dec_list f' (concat (map enc vs) @ 0xff # rest) = Got vs rest"
    using Cons.prems f' b by (intro Cons.IH) auto
  ultimately show ?case using b f' by simp
qed

lemma dec_pairs_enc:
  assumes "\<forall>p \<in> set kvs. reads_back (fst p) \<and> reads_back (snd p)"
    and "2 * length (concat (map (\<lambda>p. enc (fst p) @ enc (snd p)) kvs)) + 3 \<le> f"
  shows "dec_pairs f (concat (map (\<lambda>p. enc (fst p) @ enc (snd p)) kvs) @ 0xff # rest) = Got kvs rest"
  using assms
proof (induction kvs arbitrary: f)
  case Nil
  then obtain f' where "f = Suc f'" by (cases f) auto
  then show ?case by simp
next
  case (Cons p kvs)
  obtain b bs where b: "enc (fst p) = b # bs" "b \<noteq> 0xff" using enc_first by blast
  from Cons.prems(2) obtain f' where f': "f = Suc f'" by (cases f) auto
  let ?tail = "concat (map (\<lambda>p. enc (fst p) @ enc (snd p)) kvs) @ 0xff # rest"
  have "dec f' (enc (fst p) @ enc (snd p) @ ?tail) = Got (fst p) (enc (snd p) @ ?tail)"
    and "dec f' (enc (snd p) @ ?tail) = Got (snd p) ?tail"
    using Cons.prems f' unfolding reads_back_def by simp_all
  moreover have "dec_pairs f' ?tail = Got kvs rest"
    using Cons.prems f' b by (intro Cons.IH) auto
  ultimately show ?case using b f' by simp
qed

lemma reads_backI:
  assumes "\<And>f rest. 2 * length (enc v) \<le> Suc f \<Longrightarrow> dec (Suc f) (enc v @ rest) = Got v rest"
  shows "reads_back v"
  unfolding reads_back_def
proof (intro allI impI)
  fix f rest
  assume f: "2 * length (enc v) \<le> f"
  moreover have "enc v \<noteq> []" by simp
  ultimately obtain f' where "f = Suc f'" by (cases f) auto
  with f assms show "dec f (enc v @ rest) = Got v rest" by simp
qed

lemma plain_reads_back: "plain lt d v \<Longrightarrow> reads_back v"
proof (induction v arbitrary: d)
  case (Array vs)
  then have "\<forall>v \<in> set vs. reads_back v" by auto
  then show ?case
    by (intro reads_backI) (simp add: dec_list_enc)
next
  case (Map kvs)
  then have "\<forall>p \<in> set kvs. reads_back (fst p) \<and> reads_back (snd p)"
    by (auto simp: fsts.simps snds.simps)
  then show ?case
    by (intro reads_backI) (simp add: dec_pairs_enc)
next
  case (Integer n)
  then show ?case
    by (intro reads_backI) (auto simp: cbor_int_def)
next
  case (Text s)
  have "map ((\<lambda>x. char_of (unat x)) \<circ> (of_char :: char \<Rightarrow> byte)) s = s"
    by (rule map_idI) simp
  then show ?case by (intro reads_backI) simp
qed (auto intro!: reads_backI)

text \<open>A proper prefix of an encoding.\<close>

definition short_prefixes :: "cbor_value \<Rightarrow> bool" where
  "short_prefixes v \<longleftrightarrow>
     (\<forall>f p q. enc v = p @ q \<longrightarrow> q \<noteq> [] \<longrightarrow> 2 * length p < f \<longrightarrow> dec f p = Short)"

lemma reads_backD: "reads_back v \<Longrightarrow> 2 * length (enc v) \<le> f \<Longrightarrow> dec f (enc v @ rest) = Got v rest"
  by (simp add: reads_back_def)

lemma short_prefixesD:
  "short_prefixes v \<Longrightarrow> enc v = p @ q \<Longrightarrow> q \<noteq> [] \<Longrightarrow> 2 * length p < f \<Longrightarrow> dec f p = Short"
  unfolding short_prefixes_def by blast

text \<open>Either the input ends inside the value, or the value is followed by the rest.\<close>

lemma prefix_cases [consumes 2, case_names inside after]:
  assumes "enc v @ r = p @ q" and "q \<noteq> []"
    and "\<And>q'. enc v = p @ q' \<Longrightarrow> q' \<noteq> [] \<Longrightarrow> thesis"
    and "\<And>p'. p = enc v @ p' \<Longrightarrow> r = p' @ q \<Longrightarrow> thesis"
  shows thesis
proof -
  from assms(1) obtain us where "enc v = p @ us \<and> us @ r = q \<or> enc v @ us = p \<and> r = us @ q"
    by (auto simp: append_eq_append_conv2)
  then show thesis
  proof
    assume us: "enc v = p @ us \<and> us @ r = q"
    show thesis
    proof (cases "us = []")
      case True
      with us show ?thesis by (intro assms(4)[of "[]"]) auto
    next
      case False
      with us assms(3) show ?thesis by blast
    qed
  next
    assume "enc v @ us = p \<and> r = us @ q"
    with assms(4)[of us] show thesis by simp
  qed
qed

lemma dec_list_prefix:
  assumes "\<forall>v \<in> set vs. reads_back v \<and> short_prefixes v"
    and "concat (map enc vs) @ [0xff] = p @ q" and "q \<noteq> []" and "2 * length p + 1 < f"
  shows "dec_list f p = Short"
  using assms
proof (induction vs arbitrary: p f)
  case Nil
  then show ?case by (cases f; cases p) auto
next
  case (Cons v vs)
  from Cons.prems(4) obtain f' where f': "f = Suc f'" by (cases f) auto
  obtain b bs where b: "enc v = b # bs" "b \<noteq> 0xff" using enc_first by blast
  from Cons.prems(2) have "enc v @ concat (map enc vs) @ [0xff] = p @ q" by simp
  from this Cons.prems(3) show ?case
  proof (cases rule: prefix_cases)
    case (inside q')
    then have "dec f' p = Short"
      using Cons.prems f' by (intro short_prefixesD[of v]) auto
    with inside f' b show ?thesis by (cases p) auto
  next
    case (after p')
    have "dec f' (enc v @ p') = Got v p'"
      using Cons.prems after f' by (intro reads_backD) auto
    moreover have "dec_list f' p' = Short"
      using Cons.prems Cons.IH[of p' f'] after f' b by auto
    ultimately show ?thesis using after f' b by simp
  qed
qed

lemma dec_pairs_prefix:
  assumes "\<forall>p \<in> set kvs. reads_back (fst p) \<and> short_prefixes (fst p) \<and>
      reads_back (snd p) \<and> short_prefixes (snd p)"
    and "concat (map (\<lambda>p. enc (fst p) @ enc (snd p)) kvs) @ [0xff] = p @ q"
    and "q \<noteq> []" and "2 * length p + 1 < f"
  shows "dec_pairs f p = Short"
  using assms
proof (induction kvs arbitrary: p f)
  case Nil
  then show ?case by (cases f; cases p) auto
next
  case (Cons kv kvs)
  from Cons.prems(4) obtain f' where f': "f = Suc f'" by (cases f) auto
  obtain b bs where b: "enc (fst kv) = b # bs" "b \<noteq> 0xff" using enc_first by blast
  let ?r = "concat (map (\<lambda>p. enc (fst p) @ enc (snd p)) kvs) @ [0xff]"
  from Cons.prems(2) have "enc (fst kv) @ (enc (snd kv) @ ?r) = p @ q" by simp
  from this Cons.prems(3) show ?case
  proof (cases rule: prefix_cases)
    case (inside q')
    then have "dec f' p = Short"
      using Cons.prems f' by (intro short_prefixesD[of "fst kv"]) auto
    with inside f' b show ?thesis by (cases p) auto
  next
    case (after p1)
    have k: "dec f' (enc (fst kv) @ p1) = Got (fst kv) p1"
      using Cons.prems after f' by (intro reads_backD) auto
    from after(2) Cons.prems(3) show ?thesis
    proof (cases rule: prefix_cases)
      case (inside q')
      then have "dec f' p1 = Short"
        using Cons.prems after f' by (intro short_prefixesD[of "snd kv"]) auto
      with k after(1) f' b show ?thesis by simp
    next
      case v: (after p2)
      then have "dec f' (enc (snd kv) @ p2) = Got (snd kv) p2" and "dec_pairs f' p2 = Short"
        using Cons.prems Cons.IH[of p2 f'] after(1) f' b by (auto intro!: reads_backD)
      with k after(1) v f' b show ?thesis by simp
    qed
  qed
qed

lemma short_prefixesI:
  assumes "\<And>b bs f p q. enc v = b # bs \<Longrightarrow> bs = p @ q \<Longrightarrow> q \<noteq> [] \<Longrightarrow>
    2 * length p + 1 < f \<Longrightarrow> dec (Suc f) (b # p) = Short"
  shows "short_prefixes v"
  unfolding short_prefixes_def
proof (intro allI impI)
  fix f p q
  assume p: "enc v = p @ q" "q \<noteq> []" "2 * length p < f"
  then obtain f' where f': "f = Suc f'" by (cases f) auto
  show "dec f p = Short"
  proof (cases p)
    case Nil
    with f' show ?thesis by simp
  next
    case (Cons b bs)
    with p f' assms[of b "bs @ q" bs q f'] show ?thesis by simp
  qed
qed

lemma plain_short_prefixes: "plain lt d v \<Longrightarrow> short_prefixes v"
proof (induction v arbitrary: d)
  case (Array vs)
  then have "\<forall>v \<in> set vs. reads_back v \<and> short_prefixes v"
    using plain_reads_back by fastforce
  then show ?case
    by (intro short_prefixesI) (auto dest: dec_list_prefix)
next
  case (Map kvs)
  then have "\<forall>p \<in> set kvs. reads_back (fst p) \<and> short_prefixes (fst p) \<and>
      reads_back (snd p) \<and> short_prefixes (snd p)"
    using plain_reads_back by (fastforce simp: fsts.simps snds.simps)
  then show ?case
    by (intro short_prefixesI) (auto dest: dec_pairs_prefix)
next
  case (Integer n)
  have "dec_u64 p = Short" if "nat_bytes 8 m = p @ q" "q \<noteq> []" for m p q
  proof -
    have "length (p @ q) = 8" using length_nat_bytes[of 8 m] by (simp only: that(1))
    with that(2) have "length p < 8" by (cases q) auto
    then show ?thesis by (simp add: dec_u64_def)
  qed
  then show ?case
    by (intro short_prefixesI) (fastforce split: if_splits)
next
  case (Bytes bs)
  then show ?case
    using dec_chunks_prefix[of "0x41" "\<lambda>b. b"] by (intro short_prefixesI) auto
next
  case (Text s)
  then show ?case
    using dec_chunks_prefix[of "0x61" "of_char"] by (intro short_prefixesI) auto
qed (auto intro!: short_prefixesI)

section \<open>The instance\<close>

definition sample_next :: "byte list \<Rightarrow> stream_item" where
  "sample_next bs = (case dec (2 * length bs + 1) bs of
     Got (Array vs) rest \<Rightarrow>
       (if length rest < length bs then Item vs (length bs - length rest) else ItemBad)
   | Got v rest \<Rightarrow> ItemBad
   | Short \<Rightarrow> ItemEof
   | Wrong \<Rightarrow> ItemBad)"

definition sample_from_slice :: "byte list \<Rightarrow> string + cbor_value list" where
  "sample_from_slice bs = (case dec (2 * length bs + 1) bs of
     Got (Array vs) [] \<Rightarrow> Inr vs
   | _ \<Rightarrow> Inl ''invalid'')"

fun sample_less :: "cbor_value \<Rightarrow> cbor_value \<Rightarrow> bool" where
  "sample_less (Integer a) (Integer b) = (a < b)"
| "sample_less v w = False"

definition sample_cbor :: cbor where
  "sample_cbor =
     \<lparr>to_vec_values = (\<lambda>vs. Inr (enc (Array vs))), to_vec_value = (\<lambda>v. Inr (enc v)),
      next_item = sample_next, from_slice_values = sample_from_slice,
      value_less = sample_less, value_eq = (=)\<rparr>"

lemma plain_values_Array: "plain_values c vs \<Longrightarrow> plain (value_less c) 101 (Array vs)"
  by (simp add: plain_values_def)

lemma sample_cbor_stream: "cbor_stream sample_cbor"
  unfolding cbor_stream_def
proof (intro allI impI)
  fix vs
  assume "plain_values sample_cbor vs"
  then have "plain (value_less sample_cbor) 101 (Array vs)" by (rule plain_values_Array)
  then have whole: "reads_back (Array vs)" and short: "short_prefixes (Array vs)"
    by (rule plain_reads_back, rule plain_short_prefixes)
  have "stream_code sample_cbor vs (enc (Array vs))"
    unfolding stream_code_def
  proof (intro conjI allI impI)
    fix rest
    show "next_item sample_cbor (enc (Array vs) @ rest) = Item vs (length (enc (Array vs)))"
      using reads_backD[OF whole, of "2 * length (enc (Array vs) @ rest) + 1" rest]
      by (simp add: sample_cbor_def sample_next_def del: enc.simps)
  next
    fix p q
    assume "enc (Array vs) = p @ q" "p \<noteq> []" "q \<noteq> []"
    then show "next_item sample_cbor p = ItemEof"
      using short_prefixesD[OF short, of p q "2 * length p + 1"]
      by (simp add: sample_cbor_def sample_next_def del: enc.simps)
  qed simp
  then show "\<exists>bs. to_vec_values sample_cbor vs = Inr bs \<and> stream_code sample_cbor vs bs"
    by (simp add: sample_cbor_def)
qed

lemma sample_cbor_slice: "cbor_slice sample_cbor"
  unfolding cbor_slice_def
proof (intro allI impI)
  fix vs
  assume "plain_values sample_cbor vs"
  then have "plain (value_less sample_cbor) 101 (Array vs)" by (rule plain_values_Array)
  then have "reads_back (Array vs)" by (rule plain_reads_back)
  from reads_backD[OF this, of "2 * length (enc (Array vs)) + 1" "[]"]
  show "\<exists>bs. to_vec_value sample_cbor (Array vs) = Inr bs \<and> from_slice_values sample_cbor bs = Inr vs"
    by (simp add: sample_cbor_def sample_from_slice_def del: enc.simps)
qed

lemma sample_cbor_progress: "cbor_progress sample_cbor"
  unfolding cbor_progress_def
  by (auto simp: sample_cbor_def sample_next_def split: got.splits cbor_value.splits if_splits)

lemma sample_cbor_order: "cbor_order sample_cbor"
  by (simp add: cbor_order_def sample_cbor_def)

lemma sample_cbor_eq: "value_eq sample_cbor v w = (v = w)"
  by (simp add: sample_cbor_def)

lemmas sample_laws = sample_cbor_stream sample_cbor_slice sample_cbor_progress sample_cbor_order
  sample_wire_ok

text \<open>A channel whose queue holds \<open>ps\<close>, on a socket that accepts whole frames.\<close>

definition sample_connection :: connection where
  "sample_connection = connection_new 0 (\<lambda>_. 0) (\<lambda>_. Accepts 65535)"

definition sample_dial :: dialer where
  "sample_dial = \<lparr>dl_now = 0,
     dl_connect = (\<lambda>addr. Inr (Inr \<lparr>sk_clock = (\<lambda>_. 0), sk_writes = (\<lambda>_. Accepts 65535)\<rparr>)),
     dl_set_nodelay = (\<lambda>stream. Inr ())\<rparr>"

lemma sample_dialled [simp]:
  "tcp_connect sample_dial addr = Inr sample_connection"
  "unix_connect sample_dial addr = Inr sample_connection"
  by (simp_all add: tcp_connect_def unix_connect_def from_tcp_stream_def from_unix_stream_def
      sample_dial_def sample_connection_def)

definition sample_channel :: "u16 \<Rightarrow> payload list \<Rightarrow> channel" where
  "sample_channel idx ps =
     \<lparr>ch_idx = idx,
      ch_conn = sample_connection\<lparr>cn_channels := [idx \<mapsto> ps], cn_demux := Some (1, AtHeader [])\<rparr>,
      ch_bytes = []\<rparr>"

lemma sample_channel_simps [simp]:
  "ch_idx (sample_channel idx ps) = idx"
  "ch_bytes (sample_channel idx ps) = []"
  "cn_channels (ch_conn (sample_channel idx ps)) = [idx \<mapsto> ps]"
  "cn_sent (ch_conn (sample_channel idx ps)) = []"
  by (simp_all add: sample_channel_def sample_connection_def connection_new_def)

end
