(* ===== verification/Tx_Submission.thy ===== *)
theory Tx_Submission
  imports Protocol_Facts Cbor_Sample
begin

text \<open>
  The transaction submission client of \<open>src/protocols/txsubmission.rs\<close>, which never has a
  transaction to offer, and what it does.
\<close>

section \<open>Messages\<close>

datatype tx_message = TxArray "cbor_value list" | TxRaw "byte list"

definition tx_from_values :: "cbor_value list \<Rightarrow> (error, tx_message) result" where
  "tx_from_values values = Inr (TxArray values)"

fun tx_to_values :: "tx_message \<Rightarrow> (error, cbor_value list) result" where
  "tx_to_values (TxArray values) = Inr values"
| "tx_to_values (TxRaw data) = Inl (Panic ExplicitPanic)"

fun tx_to_bytes :: "cbor \<Rightarrow> tx_message \<Rightarrow> (error, byte list) result" where
  "tx_to_bytes c (TxRaw data) = Inr data"
| "tx_to_bytes c message =
     bind_r (tx_to_values message) (\<lambda>values. unwrap (lib_result (to_vec_values c values)))"

section \<open>The client\<close>

datatype tx_state = TxIdle | TxIdsBlocking | TxIdsNonBlocking | TxDone

fun tx_debug :: "tx_state \<Rightarrow> string" where
  "tx_debug TxIdle = ''Idle''"
| "tx_debug TxIdsBlocking = ''TxIdsBlocking''"
| "tx_debug TxIdsNonBlocking = ''TxIdsNonBlocking''"
| "tx_debug TxDone = ''Done''"

record tx_submission =
  tx_channel :: channel
  tx_state :: tx_state

definition tx_new :: "connection \<Rightarrow> tx_submission" where
  "tx_new conn = \<lparr>tx_channel = connection_channel 0x0004 conn, tx_state = TxIdle\<rparr>"

text \<open>
  The reply is written by hand: an array of two elements, the message number and an empty
  array of indefinite length.
\<close>

definition msg_reply_tx_ids :: "tx_submission \<Rightarrow> tx_message" where
  "msg_reply_tx_ids s = TxRaw [0x82, 0x01, 0x9f, 0xff]"

definition tx_agency :: "tx_submission \<Rightarrow> agency" where
  "tx_agency s = (case tx_state s of
       TxIdle \<Rightarrow> NoAgency
     | TxIdsBlocking \<Rightarrow> NoAgency
     | TxIdsNonBlocking \<Rightarrow> NoAgency
     | TxDone \<Rightarrow> NoAgency)"

definition tx_send :: "(tx_submission, error, tx_message) op" where
  "tx_send s = (case tx_state s of
       TxIdsBlocking \<Rightarrow> (Inl (Error (ErrText ''Unexpected.'')), s\<lparr>tx_state := TxDone\<rparr>)
     | TxIdsNonBlocking \<Rightarrow> (Inr (msg_reply_tx_ids s), s\<lparr>tx_state := TxIdle\<rparr>)
     | other \<Rightarrow> (Inl (Error (ErrText (''Unexpected state: '' @ tx_debug other))), s))"

text \<open>Indexing past the end of the array is a panic.\<close>

definition index_r :: "'a list \<Rightarrow> nat \<Rightarrow> (error, 'a) result" where
  "index_r xs i = (if i < length xs then Inr (xs ! i) else Inl (Panic IndexPanic))"

fun tx_recv :: "cbor \<Rightarrow> tx_message \<Rightarrow> (tx_submission, error, unit) op" where
  "tx_recv c (TxArray cbor_array) s = (case index_r cbor_array 0 of
       Inl f \<Rightarrow> (Inl f, s)
     | Inr (Integer message_id) \<Rightarrow>
        (if message_id = 0 then
           (case index_r cbor_array 1 of
              Inl f \<Rightarrow> (Inl f, s)
            | Inr flag \<Rightarrow>
               (let is_blocking = value_eq c flag (Bool True)
                in (Inr (), s\<lparr>tx_state := if is_blocking then TxIdsBlocking
                                          else TxIdsNonBlocking\<rparr>)))
         else (Inr (), s))
     | Inr _ \<Rightarrow> (Inr (), s))"
| "tx_recv c (TxRaw data) s = (Inl (Panic ExplicitPanic), s)"

definition tx_protocol :: "cbor \<Rightarrow> (tx_submission, tx_message) protocol" where
  "tx_protocol c =
     \<lparr>pr_id = (\<lambda>_. Inr 0x0004),
      pr_role = (\<lambda>_. Client),
      pr_agency = tx_agency,
      pr_send = tx_send,
      pr_recv = tx_recv c,
      pr_from_iter = message_from_iter tx_from_values,
      pr_to_bytes = tx_to_bytes c,
      pr_channel = tx_channel,
      pr_set_channel = (\<lambda>ch s. s\<lparr>tx_channel := ch\<rparr>)\<rparr>"

section \<open>The contracts hold\<close>

lemma tx_no_agency [simp]: "tx_agency s = NoAgency"
  by (simp add: tx_agency_def split: tx_state.split)

lemma tx_recv_frame:
  "tx_recv c m (s\<lparr>tx_channel := ch\<rparr>) =
    (fst (tx_recv c m s), (snd (tx_recv c m s))\<lparr>tx_channel := ch\<rparr>)"
  by (cases m) (auto simp: Let_def split: sum.split cbor_value.split)

interpretation tx: protocol_contract "tx_protocol c" for c
  by unfold_locales
    (auto simp: tx_protocol_def tx_send_def tx_recv_frame msg_reply_tx_ids_def
      split: tx_state.splits)

interpretation tx_msg: message_codec c tx_to_values "message_from_iter tx_from_values"
    "\<lambda>m. \<exists>vs. m = TxArray vs \<and> plain_values c vs" for c
  by unfold_locales (auto simp: message_from_iter_def tx_from_values_def)

section \<open>What the client does\<close>

text \<open>
  No state of the client gives the turn to anyone, so running it does nothing: it sends
  nothing, reads nothing and succeeds at once, whatever the server has asked.
\<close>

theorem tx_execute_idle: "execute w c (tx_protocol c) s = Some (Ready (Inr ()), s)"
  by (rule tx.execute_stop) (simp add: tx_protocol_def)

text \<open>
  C40. The handlers, were they called, answer the server's request for transaction numbers:
  unless the blocking flag is \<open>true\<close> they leave the client idle with a reply of an empty list;
  when it is they give up and leave the client done. Whatever follows the flag is ignored.
\<close>

theorem tx_answers_request:
  assumes "cbor_equal c"
  shows "bind_s (tx_recv c (TxArray (Integer 0 # flag # counts))) (\<lambda>_. tx_send) s =
    (if flag = Bool True
     then (Inl (Error (ErrText ''Unexpected.'')), s\<lparr>tx_state := TxDone\<rparr>)
     else (Inr (TxRaw [0x82, 0x01, 0x9f, 0xff]), s\<lparr>tx_state := TxIdle\<rparr>))"
  using assms
  by (simp add: cbor_equal_def bind_s_def index_r_def tx_send_def msg_reply_tx_ids_def)

theorem tx_answers_request_witness:
  "bind_s (tx_recv sample_cbor (TxArray [Integer 0, Bool False, Integer 0, Integer 3]))
      (\<lambda>_. tx_send) (tx_new sample_connection) =
    (Inr (TxRaw [0x82, 0x01, 0x9f, 0xff]), (tx_new sample_connection)\<lparr>tx_state := TxIdle\<rparr>)"
  using tx_answers_request[of sample_cbor "Bool False" "[Integer 0, Integer 3]"
      "tx_new sample_connection"]
  by (simp add: cbor_equal_def sample_cbor_eq)

text \<open>
  The handler of a message checks no length: it panics exactly on the empty array and on
  a request that ends at its number, and every message but that request leaves the client as
  it was.
\<close>

theorem tx_recv_outcome:
  "(case tx_recv c (TxArray values) s of
      (Inl f, t) \<Rightarrow> f = Panic IndexPanic \<and> (values = [] \<or> values = [Integer 0]) \<and> t = s
    | (Inr _, t) \<Rightarrow> values \<noteq> [] \<and> values \<noteq> [Integer 0] \<and> tx_channel t = tx_channel s \<and>
        (hd values = Integer 0 \<or> t = s))"
  by (cases "values"; cases "tl values") (auto simp: index_r_def Let_def split: cbor_value.split)

end
