(* ===== verification/Handshake.thy ===== *)
theory Handshake
  imports Protocol_Facts
begin

unbundle bit_operations_syntax

text \<open>
  The handshake of \<open>src/protocols/handshake.rs\<close>: versions of the protocol, the messages that
  propose and accept them, and the state machine of both sides.
\<close>

section \<open>Versions\<close>

datatype version = N2N int | C2N int

text \<open>Node-to-node versions before client-to-node ones, each kind by number.\<close>

instantiation version :: linorder
begin

fun less_eq_version :: "version \<Rightarrow> version \<Rightarrow> bool" where
  "less_eq_version (N2N a) (N2N b) = (a \<le> b)"
| "less_eq_version (N2N a) (C2N b) = True"
| "less_eq_version (C2N a) (N2N b) = False"
| "less_eq_version (C2N a) (C2N b) = (a \<le> b)"

definition less_version :: "version \<Rightarrow> version \<Rightarrow> bool" where
  "less_version v w \<longleftrightarrow> v \<le> w \<and> \<not> w \<le> v"

instance
proof
  fix x y z :: version
  show "(x < y) = (x \<le> y \<and> \<not> y \<le> x)" by (rule less_version_def)
  show "x \<le> x" by (cases x) simp_all
  show "x \<le> y \<Longrightarrow> y \<le> z \<Longrightarrow> x \<le> z" by (cases x; cases y; cases z) simp_all
  show "x \<le> y \<Longrightarrow> y \<le> x \<Longrightarrow> x = y" by (cases x; cases y) simp_all
  show "x \<le> y \<or> y \<le> x" by (cases x; cases y) auto
qed

end

text \<open>\<open>Version::to_values\<close>: the key and the parameters of a proposed version.\<close>

fun version_to_values :: "version \<Rightarrow> u32 \<Rightarrow> (error, cbor_value \<times> cbor_value) result" where
  "version_to_values (N2N v) magic =
     (if 1 \<le> v \<and> v \<le> 3 then Inr (Integer v, Integer (uint magic))
      else if 4 \<le> v \<and> v \<le> 7
        then Inr (Integer v, Array [Integer (uint magic), Bool False])
      else Inl (Error (ErrText ''Unsupported version.'')))"
| "version_to_values (C2N v) magic =
     (if 1 \<le> v \<and> v \<le> 9 then Inr (Integer (0x8000 XOR v), Integer (uint magic))
      else Inl (Error (ErrText ''Unsupported version.'')))"

text \<open>\<open>Version::from_values\<close>; the key and the magic number are cut to 32 bits.\<close>

fun magic_of_value :: "cbor_value \<Rightarrow> (error, u32) result" where
  "magic_of_value (Integer magic) = Inr (word_of_int magic)"
| "magic_of_value v = Inl (Error (ErrText ''Magic required.''))"

fun params_of_value :: "cbor_value \<Rightarrow> (error, u32) result" where
  "params_of_value (Array params) = (case params of
       Integer magic # Bool False # _ \<Rightarrow> Inr (word_of_int magic)
     | Integer magic # _ \<Rightarrow> Inl (Error (ErrText ''False expected.''))
     | _ \<Rightarrow> Inl (Error (ErrText ''Magic required.'')))"
| "params_of_value v = Inl (Error (ErrText ''Parameters required.''))"

definition version_of_u32 :: "u32 \<Rightarrow> cbor_value \<Rightarrow> (error, version \<times> u32) result" where
  "version_of_u32 version v =
     (if 0x0001 \<le> version \<and> version \<le> 0x0003
      then bind_r (magic_of_value v) (\<lambda>magic. Inr (N2N (uint version), magic))
      else if 0x0004 \<le> version \<and> version \<le> 0x0007
      then bind_r (params_of_value v) (\<lambda>magic. Inr (N2N (uint version), magic))
      else if 0x8001 \<le> version \<and> version \<le> 0x8009
      then bind_r (magic_of_value v) (\<lambda>magic. Inr (C2N (uint (0x8000 XOR version)), magic))
      else Inl (Error (ErrInt ''Unsupported version number: '' (uint version))))"

fun version_of_values :: "cbor_value \<times> cbor_value \<Rightarrow> (error, version \<times> u32) result" where
  "version_of_values (Integer version, v) = version_of_u32 (word_of_int version) v"
| "version_of_values (key, v) = Inl (Error (ErrText ''Version required.''))"

definition version_from_u16 :: "u16 \<Rightarrow> version" where
  "version_from_u16 v =
     (if v AND 0x8000 \<noteq> 0 then C2N (uint (v XOR 0x8000)) else N2N (uint v))"

text \<open>\<open>u16::try_from(..).unwrap()\<close>\<close>

definition u16_try_from :: "int \<Rightarrow> (error, u16) result" where
  "u16_try_from n =
     (if 0 \<le> n \<and> n < 65536 then Inr (word_of_int n) else Inl (Panic UnwrapPanic))"

fun version_to_u16 :: "version \<Rightarrow> (error, u16) result" where
  "version_to_u16 (N2N v) = u16_try_from v"
| "version_to_u16 (C2N v) = bind_r (u16_try_from v) (\<lambda>n. Inr (0x8000 XOR n))"

section \<open>Messages\<close>

datatype hs_message =
    ProposeVersions "(version \<times> u32) list"
  | AcceptVersion version u32
  | Refuse

definition accept_params :: "cbor_value list \<Rightarrow> (error, u32) result" where
  "accept_params = consume
     (bind_s v_integer (\<lambda>magic.
      bind_s v_bool (\<lambda>flag.
      if flag then fail_s (Panic AssertPanic) else ret_s (word_of_int magic))))"

definition hs_from_iter :: "cbor_value list \<Rightarrow> (error, hs_message) result" where
  "hs_from_iter = consume
     (bind_s v_integer (\<lambda>tag.
      if tag = 0 then
        bind_s v_map (\<lambda>kvs.
        bind_s (lift_r (collect_r version_of_values kvs)) (\<lambda>versions.
        ret_s (ProposeVersions versions)))
      else if tag = 1 then
        bind_s v_integer (\<lambda>n.
        bind_s (v_nested accept_params) (\<lambda>magic.
        ret_s (AcceptVersion (version_from_u16 (word_of_int n)) magic)))
      else if tag = 2 then bind_s v_array (\<lambda>reason. ret_s Refuse)
      else fail_s (Error (ErrText ''Unexpected.''))))"

fun hs_to_values :: "cbor \<Rightarrow> hs_message \<Rightarrow> (error, cbor_value list) result" where
  "hs_to_values c (ProposeVersions versions) =
     bind_r (collect_r (\<lambda>(v, m). unwrap (version_to_values v m)) versions) (\<lambda>kvs.
       Inr [Integer 0, Map (btree_collect (value_less c) [] kvs)])"
| "hs_to_values c (AcceptVersion version magic) =
     bind_r (version_to_u16 version) (\<lambda>n.
       Inr [Integer 1, Integer (uint n), Array [Integer (uint magic), Bool False]])"
| "hs_to_values c Refuse =
     Inr [Integer 1, Array [Integer 2, Integer 0, Text ''Refused.'']]"

section \<open>Both sides\<close>

datatype hs_state = Propose | Confirm | HsDone

record handshake_builder =
  hb_versions :: "version list"
  hb_magic :: u32

record handshake =
  hs_channel :: channel
  hs_role :: agency
  hs_versions :: "version list"
  hs_network_magic :: u32
  hs_state :: hs_state
  hs_version :: "version option"

definition hs_builder :: handshake_builder where
  "hs_builder = \<lparr>hb_versions = [N2N 6, N2N 7], hb_magic = 0\<rparr>"

definition network_magic :: "u32 \<Rightarrow> handshake_builder \<Rightarrow> handshake_builder" where
  "network_magic magic b = b\<lparr>hb_magic := magic\<rparr>"

definition node_to_node :: "handshake_builder \<Rightarrow> handshake_builder" where
  "node_to_node b = b\<lparr>hb_versions := [N2N 6, N2N 7]\<rparr>"

definition client_to_node :: "handshake_builder \<Rightarrow> handshake_builder" where
  "client_to_node b = b\<lparr>hb_versions := [C2N 9]\<rparr>"

definition hs_with_channel :: "handshake_builder \<Rightarrow> agency \<Rightarrow> channel \<Rightarrow> handshake" where
  "hs_with_channel b role ch =
     \<lparr>hs_channel = ch, hs_role = role, hs_versions = hb_versions b,
      hs_network_magic = hb_magic b, hs_state = Propose, hs_version = None\<rparr>"

definition hs_build :: "handshake_builder \<Rightarrow> agency \<Rightarrow> connection \<Rightarrow> (error, handshake) result" where
  "hs_build b role conn = (case role of
       Client \<Rightarrow> Inr (hs_with_channel b role (connection_channel 0x0000 conn))
     | Server \<Rightarrow> Inr (hs_with_channel b role (connection_channel 0x8000 conn))
     | NoAgency \<Rightarrow> Inl (Panic ExplicitPanic))"

definition hs_client :: "handshake_builder \<Rightarrow> connection \<Rightarrow> (error, handshake) result" where
  "hs_client b = hs_build b Client"

definition hs_server :: "handshake_builder \<Rightarrow> connection \<Rightarrow> (error, handshake) result" where
  "hs_server b = hs_build b Server"

section \<open>The state machine\<close>

definition hs_protocol_id :: "handshake \<Rightarrow> (error, u16) result" where
  "hs_protocol_id s = (case hs_role s of
       Client \<Rightarrow> Inr 0
     | Server \<Rightarrow> Inr (0 XOR 0x8000)
     | NoAgency \<Rightarrow> Inl (Panic ExplicitPanic))"

definition hs_agency :: "handshake \<Rightarrow> agency" where
  "hs_agency s = (case hs_state s of
       Propose \<Rightarrow> Client
     | Confirm \<Rightarrow> Server
     | HsDone \<Rightarrow> NoAgency)"

definition hs_send :: "(handshake, error, hs_message) op" where
  "hs_send s = (case hs_state s of
       Propose \<Rightarrow>
         (Inr (ProposeVersions (map (\<lambda>v. (v, hs_network_magic s)) (hs_versions s))),
          s\<lparr>hs_state := Confirm\<rparr>)
     | Confirm \<Rightarrow>
         (case hs_versions s of
            [] \<Rightarrow> (Inl (Error (ErrText ''No versions available.'')), s\<lparr>hs_state := HsDone\<rparr>)
          | _ \<Rightarrow> (Inr (AcceptVersion (last (hs_versions s)) (hs_network_magic s)),
                  s\<lparr>hs_state := HsDone, hs_version := Some (last (hs_versions s))\<rparr>))
     | HsDone \<Rightarrow> (Inl (Panic ExplicitPanic), s))"

definition hs_recv :: "hs_message \<Rightarrow> (handshake, error, unit) op" where
  "hs_recv m s = (case hs_state s of
       Propose \<Rightarrow> (Inr (), s\<lparr>hs_state := Confirm\<rparr>)
     | Confirm \<Rightarrow>
         (case m of
            AcceptVersion version magic \<Rightarrow>
              (if magic = hs_network_magic s then Inr () else Inl (Panic AssertPanic),
               s\<lparr>hs_state := HsDone, hs_version := List.find (\<lambda>v. v = version) (hs_versions s)\<rparr>)
          | Refuse \<Rightarrow> (Inr (), s\<lparr>hs_state := HsDone\<rparr>)
          | _ \<Rightarrow> (Inl (Error (ErrText ''Unexpected message.'')), s))
     | HsDone \<Rightarrow> (Inl (Panic ExplicitPanic), s))"

definition hs_protocol :: "cbor \<Rightarrow> (handshake, hs_message) protocol" where
  "hs_protocol c =
     \<lparr>pr_id = hs_protocol_id,
      pr_role = hs_role,
      pr_agency = hs_agency,
      pr_send = hs_send,
      pr_recv = hs_recv,
      pr_from_iter = hs_from_iter,
      pr_to_bytes = message_to_bytes c (hs_to_values c),
      pr_channel = hs_channel,
      pr_set_channel = (\<lambda>ch s. s\<lparr>hs_channel := ch\<rparr>)\<rparr>"

definition hs_result :: "(handshake, error, version \<times> u32) op" where
  "hs_result s =
     (ok_or (ErrText ''Handshake failed.'')
        (map_option (\<lambda>v. (v, hs_network_magic s)) (hs_version s)), s)"

definition negotiate :: "wire \<Rightarrow> cbor \<Rightarrow> (handshake, error, version \<times> u32) task" where
  "negotiate w c = bind_t (execute w c (hs_protocol c)) (\<lambda>_. sync_t hs_result)"

text \<open>The same call, resumed at the \<open>await\<close> where it was suspended with the buffer \<open>l\<close>.\<close>

definition negotiate_resume ::
    "wire \<Rightarrow> cbor \<Rightarrow> byte list \<Rightarrow> (handshake, error, version \<times> u32) task" where
  "negotiate_resume w c l =
     bind_t (execute_from w c (hs_protocol c) (Some l)) (\<lambda>_. sync_t hs_result)"

section \<open>The contracts hold\<close>

interpretation hs: protocol_contract "hs_protocol c" for c
  by unfold_locales
    (auto simp: hs_protocol_def hs_agency_def hs_send_def hs_recv_def
      split: hs_state.splits hs_message.splits list.splits if_splits)

text \<open>The versions that can be proposed, and their keys.\<close>

fun supported :: "version \<Rightarrow> bool" where
  "supported (N2N v) \<longleftrightarrow> 1 \<le> v \<and> v \<le> 7"
| "supported (C2N v) \<longleftrightarrow> 1 \<le> v \<and> v \<le> 9"

fun version_key :: "version \<Rightarrow> int" where
  "version_key (N2N v) = v"
| "version_key (C2N v) = 0x8000 XOR v"

fun version_number :: "version \<Rightarrow> int" where
  "version_number (N2N v) = v"
| "version_number (C2N v) = v"

lemma supported_cases:
  assumes "supported v"
  obtains "v = N2N 1" | "v = N2N 2" | "v = N2N 3" | "v = N2N 4" | "v = N2N 5" | "v = N2N 6"
    | "v = N2N 7" | "v = C2N 1" | "v = C2N 2" | "v = C2N 3" | "v = C2N 4" | "v = C2N 5"
    | "v = C2N 6" | "v = C2N 7" | "v = C2N 8" | "v = C2N 9"
proof (cases v)
  case (N2N n)
  with assms have "n \<in> {1..7}" by simp
  also have "{1..7} = {1, 2, 3, 4, 5, 6, 7 :: int}" by auto
  finally show thesis using N2N that by auto
next
  case (C2N n)
  with assms have "n \<in> {1..9}" by simp
  also have "{1..9} = {1, 2, 3, 4, 5, 6, 7, 8, 9 :: int}" by auto
  finally show thesis using C2N that by auto
qed

lemma version_round_trip:
  assumes "supported v"
  obtains p where "version_to_values v m = Inr (Integer (version_key v), p)"
    "version_of_values (Integer (version_key v), p) = Inr (v, m)"
    "2 \<le> d \<Longrightarrow> plain lt d p"
  using assms
  by (cases rule: supported_cases; simp add: version_of_u32_def)

end
