(* ===== verification/Chain_Sync.thy ===== *)
theory Chain_Sync
  imports Protocol_Facts
begin

text \<open>
  The chain sync client of \<open>src/protocols/chainsync.rs\<close>: it looks for a point it shares with
  the node and then follows the node's chain, one header or rollback per request.
\<close>

section \<open>Messages\<close>

datatype cs_message =
    RequestNext
  | AwaitReply
  | RollForward wrapped_header tip
  | RollBackward point tip
  | FindIntersect "point list"
  | IntersectFound point tip
  | IntersectNotFound tip
  | MsgDone

text \<open>
  The loop over the points of \<open>FindIntersect\<close>, which ends at the first element that is no
  array; that element has been consumed when \<open>end\<close> looks at the rest.
\<close>

function cs_points :: "point list \<Rightarrow> point list cursor" where
  "cs_points points items = (case v_array items of
       (Inr item, rest) \<Rightarrow>
         (case point_of_values item of
            Inl f \<Rightarrow> (Inl f, rest)
          | Inr point \<Rightarrow> cs_points (points @ [point]) rest)
     | (Inl _, rest) \<Rightarrow> bind_s v_end (\<lambda>_. ret_s points) rest)"
  by pat_completeness auto

lemma v_array_consumes: "v_array items = (Inr item, rest) \<Longrightarrow> items = Array item # rest"
  by (cases items rule: v_array.cases) auto

termination cs_points
  by (relation "measure (length \<circ> snd)") (auto dest!: sym[THEN v_array_consumes])

declare cs_points.simps [simp del]

definition cs_from_iter :: "cbor_value list \<Rightarrow> (error, cs_message) result" where
  "cs_from_iter = consume
     (bind_s v_integer (\<lambda>tag.
      bind_s
        (if tag = 0 then ret_s RequestNext
         else if tag = 1 then ret_s AwaitReply
         else if tag = 2 then
           bind_s (v_nested wrapped_of_values) (\<lambda>header.
           bind_s (v_nested tip_of_values) (\<lambda>tip.
           ret_s (RollForward header tip)))
         else if tag = 3 then
           bind_s (v_nested point_of_values) (\<lambda>point.
           bind_s (v_nested tip_of_values) (\<lambda>tip.
           ret_s (RollBackward point tip)))
         else if tag = 4 then
           bind_s (v_nested (consume (cs_points []))) (\<lambda>points.
           ret_s (FindIntersect points))
         else if tag = 5 then
           bind_s (v_nested point_of_values) (\<lambda>point.
           bind_s (v_nested tip_of_values) (\<lambda>tip.
           ret_s (IntersectFound point tip)))
         else if tag = 6 then
           bind_s (v_nested tip_of_values) (\<lambda>tip.
           ret_s (IntersectNotFound tip))
         else if tag = 7 then ret_s MsgDone
         else fail_s (Error (ErrInt ''Unexpected message: '' tag))) (\<lambda>message.
      bind_s v_end (\<lambda>_.
      ret_s message))))"

fun cs_to_values :: "cs_message \<Rightarrow> (error, cbor_value list) result" where
  "cs_to_values RequestNext = Inr [Integer 0]"
| "cs_to_values AwaitReply = Inr [Integer 1]"
| "cs_to_values (RollForward header tip) = Inr
     [Integer 2, Array [Integer 0, Bytes (wh_bytes header)], Array (tip_to_vec tip)]"
| "cs_to_values (RollBackward point tip) = Inr
     [Integer 3, Array (point_to_vec point), Array (tip_to_vec tip)]"
| "cs_to_values (FindIntersect points) = Inr
     [Integer 4,
      Array (map (\<lambda>p. Array [Integer (uint (pt_slot p)), Bytes (pt_hash p)]) points)]"
| "cs_to_values (IntersectFound point tip) = Inr
     [Integer 5, Array (point_to_vec point), Array (tip_to_vec tip)]"
| "cs_to_values (IntersectNotFound tip) = Inr [Integer 6, Array (tip_to_vec tip)]"
| "cs_to_values MsgDone = Inr [Integer 7]"

section \<open>The client\<close>

datatype cs_state = CsIdle | CsIntersect | CanAwait | MustReply | CsDone

fun cs_debug :: "cs_state \<Rightarrow> string" where
  "cs_debug CsIdle = ''Idle''"
| "cs_debug CsIntersect = ''Intersect''"
| "cs_debug CanAwait = ''CanAwait''"
| "cs_debug MustReply = ''MustReply''"
| "cs_debug CsDone = ''Done''"

datatype intersect = Found point tip | NotFound tip

datatype reply = Forward block_header tip | Backward point tip

datatype query = QueryIntersect "point list" | QueryReply

record chain_sync =
  cs_channel :: channel
  cs_query :: "query option"
  cs_intersect :: "intersect option"
  cs_reply :: "reply option"
  cs_state :: cs_state

definition cs_client :: "connection \<Rightarrow> chain_sync" where
  "cs_client conn =
     \<lparr>cs_channel = connection_channel 0x0002 conn, cs_query = None, cs_intersect = None,
      cs_reply = None, cs_state = CsIdle\<rparr>"

section \<open>The state machine\<close>

definition cs_agency :: "chain_sync \<Rightarrow> agency" where
  "cs_agency s =
     (if cs_query s = None then NoAgency
      else (case cs_state s of
              CsIdle \<Rightarrow> Client
            | CsIntersect \<Rightarrow> Server
            | CanAwait \<Rightarrow> Server
            | MustReply \<Rightarrow> Server
            | CsDone \<Rightarrow> NoAgency))"

definition cs_send :: "(chain_sync, error, cs_message) op" where
  "cs_send s = (case cs_state s of
       CsIdle \<Rightarrow>
         (case cs_query s of
            None \<Rightarrow> (Inl (Panic UnwrapPanic), s)
          | Some (QueryIntersect points) \<Rightarrow>
              (Inr (FindIntersect points), s\<lparr>cs_state := CsIntersect\<rparr>)
          | Some QueryReply \<Rightarrow> (Inr RequestNext, s\<lparr>cs_state := CanAwait\<rparr>))
     | other \<Rightarrow> (Inl (Error (ErrText (''Unsupported: '' @ cs_debug other))), s))"

fun cs_recv :: "cbor \<Rightarrow> (nat \<Rightarrow> byte list \<Rightarrow> byte list) \<Rightarrow> cs_message \<Rightarrow>
    (chain_sync, error, unit) op" where
  "cs_recv c blake2b RequestNext s = (Inr (), s\<lparr>cs_state := CanAwait\<rparr>)"
| "cs_recv c blake2b AwaitReply s = (Inr (), s\<lparr>cs_state := MustReply\<rparr>)"
| "cs_recv c blake2b (RollForward header tip) s =
     (case header_of_wrapped c blake2b header of
        Inl f \<Rightarrow> (Inl f, s)
      | Inr h \<Rightarrow>
         (Inr (), s\<lparr>cs_reply := Some (Forward h tip), cs_query := None, cs_state := CsIdle\<rparr>))"
| "cs_recv c blake2b (RollBackward point tip) s =
     (Inr (), s\<lparr>cs_reply := Some (Backward point tip), cs_query := None, cs_state := CsIdle\<rparr>)"
| "cs_recv c blake2b (IntersectFound point tip) s =
     (Inr (), s\<lparr>cs_intersect := Some (Found point tip), cs_query := None, cs_state := CsIdle\<rparr>)"
| "cs_recv c blake2b (IntersectNotFound tip) s =
     (Inr (), s\<lparr>cs_intersect := Some (NotFound tip), cs_query := None, cs_state := CsIdle\<rparr>)"
| "cs_recv c blake2b MsgDone s = (Inr (), s\<lparr>cs_state := CsDone\<rparr>)"
| "cs_recv c blake2b (FindIntersect points) s =
     (Inl (Error (ErrPoints ''Got unexpected message: '' points)), s)"

definition cs_protocol ::
    "cbor \<Rightarrow> (nat \<Rightarrow> byte list \<Rightarrow> byte list) \<Rightarrow> (chain_sync, cs_message) protocol" where
  "cs_protocol c blake2b =
     \<lparr>pr_id = (\<lambda>_. Inr 0x0002),
      pr_role = (\<lambda>_. Client),
      pr_agency = cs_agency,
      pr_send = cs_send,
      pr_recv = cs_recv c blake2b,
      pr_from_iter = cs_from_iter,
      pr_to_bytes = message_to_bytes c cs_to_values,
      pr_channel = cs_channel,
      pr_set_channel = (\<lambda>ch s. s\<lparr>cs_channel := ch\<rparr>)\<rparr>"

section \<open>Queries\<close>

text \<open>\<open>take().unwrap()\<close> on the two results.\<close>

definition cs_take_intersect :: "(chain_sync, error, intersect) op" where
  "cs_take_intersect s = (unwrap_option (cs_intersect s), s\<lparr>cs_intersect := None\<rparr>)"

definition cs_take_reply :: "(chain_sync, error, reply) op" where
  "cs_take_reply s = (unwrap_option (cs_reply s), s\<lparr>cs_reply := None\<rparr>)"

definition find_intersect :: "wire \<Rightarrow> cbor \<Rightarrow> (nat \<Rightarrow> byte list \<Rightarrow> byte list) \<Rightarrow> point list \<Rightarrow>
    (chain_sync, error, intersect) task" where
  "find_intersect w c blake2b points s =
     bind_t (execute w c (cs_protocol c blake2b)) (\<lambda>_. sync_t cs_take_intersect)
       (s\<lparr>cs_query := Some (QueryIntersect points)\<rparr>)"

definition request_next :: "wire \<Rightarrow> cbor \<Rightarrow> (nat \<Rightarrow> byte list \<Rightarrow> byte list) \<Rightarrow>
    (chain_sync, error, reply) task" where
  "request_next w c blake2b s =
     bind_t (execute w c (cs_protocol c blake2b)) (\<lambda>_. sync_t cs_take_reply)
       (s\<lparr>cs_query := Some QueryReply\<rparr>)"

text \<open>The same calls, resumed at the \<open>await\<close> where they were suspended with the buffer \<open>l\<close>.\<close>

definition find_intersect_resume :: "wire \<Rightarrow> cbor \<Rightarrow> (nat \<Rightarrow> byte list \<Rightarrow> byte list) \<Rightarrow> byte list \<Rightarrow>
    (chain_sync, error, intersect) task" where
  "find_intersect_resume w c blake2b l =
     bind_t (execute_from w c (cs_protocol c blake2b) (Some l)) (\<lambda>_. sync_t cs_take_intersect)"

definition request_next_resume :: "wire \<Rightarrow> cbor \<Rightarrow> (nat \<Rightarrow> byte list \<Rightarrow> byte list) \<Rightarrow> byte list \<Rightarrow>
    (chain_sync, error, reply) task" where
  "request_next_resume w c blake2b l =
     bind_t (execute_from w c (cs_protocol c blake2b) (Some l)) (\<lambda>_. sync_t cs_take_reply)"

section \<open>The contracts hold\<close>

interpretation cs: protocol_contract "cs_protocol c blake2b" for c blake2b
proof unfold_locales
  fix m ch s
  show "pr_recv (cs_protocol c blake2b) m (pr_set_channel (cs_protocol c blake2b) ch s) =
      (fst (pr_recv (cs_protocol c blake2b) m s),
       pr_set_channel (cs_protocol c blake2b) ch (snd (pr_recv (cs_protocol c blake2b) m s)))"
    by (cases m) (auto simp: cs_protocol_def split: sum.split)
qed (auto simp: cs_protocol_def cs_agency_def cs_send_def
      split: cs_state.splits option.splits query.splits if_splits)

lemma cs_points_array [simp]:
  "cs_points acc (Array (point_to_vec p) # items) = cs_points (acc @ [p]) items"
  by (simp add: cs_points.simps[of acc "_ # _"])

lemma cs_points_nil [simp]: "cs_points acc [] = (Inr acc, [])"
  by (simp add: cs_points.simps[of acc "[]"] exec)

lemma cs_points_written:
  "cs_points acc (map (\<lambda>p. Array (point_to_vec p)) points) = (Inr (acc @ points), [])"
  by (induction points arbitrary: acc) simp_all

lemma cs_round_trip:
  "\<exists>vs. cs_to_values m = Inr vs \<and> plain_values c vs \<and> cs_from_iter vs = Inr m"
proof (cases m)
  case (FindIntersect points)
  let ?vs = "[Integer 4, Array (map (\<lambda>p. Array (point_to_vec p)) points)]"
  have "cs_to_values m = Inr ?vs" by (simp add: FindIntersect point_to_vec_def)
  moreover have "plain_values c ?vs" by simp
  moreover have "cs_from_iter ?vs = Inr m"
    by (simp add: FindIntersect cs_from_iter_def cs_points_written exec)
  ultimately show ?thesis by blast
qed (simp_all add: cs_from_iter_def exec)

interpretation cs_msg: message_codec c cs_to_values cs_from_iter "\<lambda>_. True" for c
  by unfold_locales (rule cs_round_trip)

end
