(* ===== verification/Block_Fetch.thy ===== *)
theory Block_Fetch
  imports Protocol_Facts
begin

text \<open>
  The block fetch client of \<open>src/protocols/blockfetch.rs\<close>: it asks for a range of blocks
  and hands out the blocks of the reply one at a time.
\<close>

section \<open>Messages\<close>

datatype bf_message =
    RequestRange point point
  | ClientDone
  | StartBatch
  | NoBlocks
  | Block "byte list"
  | BatchDone

definition bf_from_iter :: "cbor_value list \<Rightarrow> (error, bf_message) result" where
  "bf_from_iter = consume
     (bind_s v_integer (\<lambda>tag.
      bind_s
        (if tag = 0 then
           bind_s (v_nested point_of_values) (\<lambda>first.
           bind_s (v_nested point_of_values) (\<lambda>last.
           ret_s (RequestRange first last)))
         else if tag = 1 then ret_s ClientDone
         else if tag = 2 then ret_s StartBatch
         else if tag = 3 then ret_s NoBlocks
         else if tag = 4 then bind_s v_bytes (\<lambda>block. ret_s (Block block))
         else if tag = 5 then ret_s BatchDone
         else fail_s (Panic ExplicitPanic)) (\<lambda>message.
      bind_s v_end (\<lambda>_.
      ret_s message))))"

fun bf_to_values :: "bf_message \<Rightarrow> (error, cbor_value list) result" where
  "bf_to_values (RequestRange from_pt to_pt) = Inr
     [Integer 0,
      Array [Integer (uint (pt_slot from_pt)), Bytes (pt_hash from_pt)],
      Array [Integer (uint (pt_slot to_pt)), Bytes (pt_hash to_pt)]]"
| "bf_to_values ClientDone = Inr [Integer 1]"
| "bf_to_values StartBatch = Inr [Integer 2]"
| "bf_to_values NoBlocks = Inr [Integer 3]"
| "bf_to_values (Block block) = Inr [Integer 4, Bytes block]"
| "bf_to_values BatchDone = Inr [Integer 5]"

section \<open>The client\<close>

datatype bf_state = BfIdle | BfBusy | BfStreaming | BfDone

text \<open>The derived \<open>Debug\<close> of the state, as the error messages print it.\<close>

fun bf_debug :: "bf_state \<Rightarrow> string" where
  "bf_debug BfIdle = ''Idle''"
| "bf_debug BfBusy = ''Busy''"
| "bf_debug BfStreaming = ''Streaming''"
| "bf_debug BfDone = ''Done''"

record bf_builder =
  bb_first :: "point option"
  bb_last :: "point option"

record bf_config =
  cfg_first :: point
  cfg_last :: point

record block_fetch =
  bf_channel :: channel
  bf_config :: bf_config
  bf_state :: bf_state
  bf_result :: "byte list list"
  bf_running :: bool
  bf_done :: bool

definition bf_builder_new :: bf_builder where
  "bf_builder_new = \<lparr>bb_first = None, bb_last = None\<rparr>"

definition bf_first :: "u64 \<Rightarrow> byte list \<Rightarrow> bf_builder \<Rightarrow> bf_builder" where
  "bf_first slot hash b = b\<lparr>bb_first := Some (point_of_bytes (slot, hash))\<rparr>"

definition bf_last :: "u64 \<Rightarrow> byte list \<Rightarrow> bf_builder \<Rightarrow> bf_builder" where
  "bf_last slot hash b = b\<lparr>bb_last := Some (point_of_bytes (slot, hash))\<rparr>"

text \<open>
  The channel is opened before the points are looked at: when one is missing it is dropped
  again. The connection that is returned is the one the channel holds.
\<close>

definition bf_client :: "bf_builder \<Rightarrow> (connection, error, block_fetch) op" where
  "bf_client b conn =
     (let channel = connection_channel 0x0003 conn in
      case bind_r (ok_or (ErrText ''First point required.'') (bb_first b)) (\<lambda>first.
           bind_r (ok_or (ErrText ''Last point required.'') (bb_last b)) (\<lambda>last.
           Inr \<lparr>cfg_first = first, cfg_last = last\<rparr>)) of
        Inl f \<Rightarrow> (Inl f, channel_drop channel)
      | Inr config \<Rightarrow>
         (Inr \<lparr>bf_channel = channel, bf_config = config, bf_state = BfIdle, bf_result = [],
               bf_running = False, bf_done = False\<rparr>, ch_conn channel))"

section \<open>The state machine\<close>

definition bf_agency :: "block_fetch \<Rightarrow> agency" where
  "bf_agency s =
     (if bf_running s
      then (case bf_state s of
              BfIdle \<Rightarrow> Client
            | BfBusy \<Rightarrow> Server
            | BfStreaming \<Rightarrow> Server
            | BfDone \<Rightarrow> NoAgency)
      else NoAgency)"

definition bf_send :: "(block_fetch, error, bf_message) op" where
  "bf_send s =
     (if \<not> bf_running s then (Inl (Panic AssertPanic), s)
      else if \<not> bf_done s
      then (case bf_state s of
              BfIdle \<Rightarrow> (Inr (RequestRange (cfg_first (bf_config s)) (cfg_last (bf_config s))),
                         s\<lparr>bf_state := BfBusy\<rparr>)
            | other \<Rightarrow> (Inl (Error (ErrText (''Unexpected state: '' @ bf_debug other))), s))
      else (case bf_state s of
              BfIdle \<Rightarrow> (Inr ClientDone, s\<lparr>bf_state := BfDone\<rparr>)
            | other \<Rightarrow> (Inl (Error (ErrText (''Unexpected state: '' @ bf_debug other))), s)))"

definition bf_recv :: "bf_message \<Rightarrow> (block_fetch, error, unit) op" where
  "bf_recv m s = (case (bf_state s, m) of
       (BfBusy, NoBlocks) \<Rightarrow> (Inr (), s\<lparr>bf_running := False, bf_state := BfIdle\<rparr>)
     | (BfBusy, StartBatch) \<Rightarrow> (Inr (), s\<lparr>bf_state := BfStreaming\<rparr>)
     | (BfStreaming, Block bytes) \<Rightarrow>
         (Inr (), s\<lparr>bf_running := False, bf_result := bf_result s @ [bytes],
                    bf_state := BfStreaming\<rparr>)
     | (BfStreaming, BatchDone) \<Rightarrow> (Inr (), s\<lparr>bf_running := False, bf_state := BfIdle\<rparr>)
     | _ \<Rightarrow> (Inl (Panic ExplicitPanic), s))"

definition bf_protocol :: "cbor \<Rightarrow> (block_fetch, bf_message) protocol" where
  "bf_protocol c =
     \<lparr>pr_id = (\<lambda>_. Inr 0x0003),
      pr_role = (\<lambda>_. Client),
      pr_agency = bf_agency,
      pr_send = bf_send,
      pr_recv = bf_recv,
      pr_from_iter = bf_from_iter,
      pr_to_bytes = message_to_bytes c bf_to_values,
      pr_channel = bf_channel,
      pr_set_channel = (\<lambda>ch s. s\<lparr>bf_channel := ch\<rparr>)\<rparr>"

section \<open>Running the client\<close>

text \<open>
  \<open>run\<close> returns a \<open>BlockStream\<close>, which is a mutable borrow of the client: its methods work
  on the same state.
\<close>

definition bf_run :: "wire \<Rightarrow> cbor \<Rightarrow> (block_fetch, error, unit) task" where
  "bf_run w c s = execute w c (bf_protocol c) (s\<lparr>bf_running := True\<rparr>)"

text \<open>
  \<open>done\<close> takes the client: when it returns, with success or with an error, and when it panics,
  the channel is dropped. \<open>bf_closing\<close> is its body up to there. On success \<open>bf_finish\<close> returns the
  connection that the drop leaves; a failure leaves that connection in the state (\<open>bf_freed\<close>).
\<close>

definition bf_closing :: "wire \<Rightarrow> cbor \<Rightarrow> (block_fetch, error, unit) task" where
  "bf_closing w c s = execute w c (bf_protocol c) (s\<lparr>bf_running := True, bf_done := True\<rparr>)"

definition bf_freed :: "block_fetch \<Rightarrow> block_fetch" where
  "bf_freed s = s\<lparr>bf_channel := (bf_channel s)\<lparr>ch_conn := channel_drop (bf_channel s)\<rparr>\<rparr>"

definition bf_finish :: "wire \<Rightarrow> cbor \<Rightarrow> block_fetch \<Rightarrow>
    ((error, connection) poll \<times> block_fetch) option" where
  "bf_finish w c s = (case bf_closing w c s of
       None \<Rightarrow> None
     | Some (Pending l, s') \<Rightarrow> Some (Pending l, s')
     | Some (Ready (Inl f), s') \<Rightarrow> Some (Ready (Inl f), bf_freed s')
     | Some (Ready (Inr _), s') \<Rightarrow> Some (Ready (Inr (channel_drop (bf_channel s'))), s'))"

definition bf_take :: "(block_fetch, error, byte list option) op" where
  "bf_take s = (case bf_result s of
       [] \<Rightarrow> (Inr None, s)
     | block # blocks \<Rightarrow> (Inr (Some block), s\<lparr>bf_result := blocks\<rparr>))"

definition bf_next :: "wire \<Rightarrow> cbor \<Rightarrow> (block_fetch, error, byte list option) task" where
  "bf_next w c s =
     (if bf_result s = [] then
        (case bf_state s of
           BfStreaming \<Rightarrow>
             bind_t (execute w c (bf_protocol c)) (\<lambda>_. sync_t bf_take) (s\<lparr>bf_running := True\<rparr>)
         | BfIdle \<Rightarrow> Some (Ready (Inr None), s)
         | _ \<Rightarrow> Some (Ready (Inl (Panic ExplicitPanic)), s))
      else sync_t bf_take s)"

text \<open>The calls, resumed at the \<open>await\<close> where they were suspended with the buffer \<open>l\<close>.\<close>

definition bf_run_resume :: "wire \<Rightarrow> cbor \<Rightarrow> byte list \<Rightarrow> (block_fetch, error, unit) task" where
  "bf_run_resume w c l = execute_from w c (bf_protocol c) (Some l)"

definition bf_next_resume ::
    "wire \<Rightarrow> cbor \<Rightarrow> byte list \<Rightarrow> (block_fetch, error, byte list option) task" where
  "bf_next_resume w c l =
     bind_t (execute_from w c (bf_protocol c) (Some l)) (\<lambda>_. sync_t bf_take)"

text \<open>
  The loop over a stream in \<open>examples/blockfetch.rs\<close>, which hands every block to a handler:
  the blocks it hands out, in order.
\<close>

partial_function (option) bf_collect :: "wire \<Rightarrow> cbor \<Rightarrow> byte list list \<Rightarrow> block_fetch \<Rightarrow>
    ((error, byte list list) poll \<times> block_fetch) option" where
  "bf_collect w c blocks s = (case bf_next w c s of
       None \<Rightarrow> None
     | Some (Pending l, s') \<Rightarrow> Some (Pending l, s')
     | Some (Ready (Inl f), s') \<Rightarrow> Some (Ready (Inl f), s')
     | Some (Ready (Inr None), s') \<Rightarrow> Some (Ready (Inr blocks), s')
     | Some (Ready (Inr (Some block)), s') \<Rightarrow> bf_collect w c (blocks @ [block]) s')"

section \<open>The contracts hold\<close>

interpretation bf: protocol_contract "bf_protocol c" for c
  by unfold_locales
    (auto simp: bf_protocol_def bf_agency_def bf_send_def bf_recv_def
      split: bf_state.splits bf_message.splits if_splits)

interpretation bf_msg: message_codec c bf_to_values bf_from_iter "\<lambda>_. True" for c
proof unfold_locales
  fix m :: bf_message
  show "\<exists>vs. bf_to_values m = Inr vs \<and> plain_values c vs \<and> bf_from_iter vs = Inr m"
    by (cases m) (simp_all add: bf_from_iter_def point_of_values_def exec)
qed

end
