(* ===== verification/Reader_Facts.thy ===== *)
theory Reader_Facts
  imports Handshake Chain_Sync Block_Fetch
begin

text \<open>
  What the readers of messages make of arbitrary values: a message or an error, except for
  the inputs on which they panic, which are characterised exactly.
\<close>

section \<open>Readers that report\<close>

text \<open>A cursor, and a conversion, that never panics.\<close>

definition reports :: "'a cursor \<Rightarrow> bool" where
  "reports m \<longleftrightarrow> (\<forall>vs p t. m vs \<noteq> (Inl (Panic p), t))"

definition reports_r :: "('a \<Rightarrow> (error, 'b) result) \<Rightarrow> bool" where
  "reports_r conv \<longleftrightarrow> (\<forall>x p. conv x \<noteq> Inl (Panic p))"

named_theorems reporting "cursors and conversions that never panic"

lemma reports_cursor [reporting]:
  "reports v_array" "reports v_map" "reports v_integer" "reports v_bool" "reports v_bytes"
  "reports v_end"
proof -
  have "v_array vs \<noteq> (Inl (Panic p), t)" for vs p t by (cases vs rule: v_array.cases) simp_all
  then show "reports v_array" by (simp add: reports_def)
  have "v_map vs \<noteq> (Inl (Panic p), t)" for vs p t by (cases vs rule: v_map.cases) simp_all
  then show "reports v_map" by (simp add: reports_def)
  have "v_integer vs \<noteq> (Inl (Panic p), t)" for vs p t by (cases vs rule: v_integer.cases) simp_all
  then show "reports v_integer" by (simp add: reports_def)
  have "v_bool vs \<noteq> (Inl (Panic p), t)" for vs p t by (cases vs rule: v_bool.cases) simp_all
  then show "reports v_bool" by (simp add: reports_def)
  have "v_bytes vs \<noteq> (Inl (Panic p), t)" for vs p t by (cases vs rule: v_bytes.cases) simp_all
  then show "reports v_bytes" by (simp add: reports_def)
  have "v_end vs \<noteq> (Inl (Panic p), t)" for vs p t by (cases vs rule: v_end.cases) simp_all
  then show "reports v_end" by (simp add: reports_def)
qed

lemma reports_return [reporting]: "reports (ret_s a)" "reports (fail_s (Error e))"
  by (simp_all add: reports_def ret_s_def fail_s_def)

lemma reports_bind [reporting]:
  "reports m \<Longrightarrow> (\<And>a. reports (k a)) \<Longrightarrow> reports (bind_s m k)"
  by (auto simp: reports_def bind_s_def split: prod.split sum.split)

lemma reports_if [reporting]: "reports m \<Longrightarrow> reports n \<Longrightarrow> reports (if b then m else n)"
  by simp

lemma reports_case_prod [reporting]: "(\<And>a b. reports (k a b)) \<Longrightarrow> reports (case x of (a, b) \<Rightarrow> k a b)"
  by (cases x) simp

lemma reports_lift [reporting]: "reports_r conv \<Longrightarrow> reports (lift_r (conv x))"
  by (simp add: reports_def reports_r_def lift_r_def)

lemma reports_nested [reporting]: "reports_r conv \<Longrightarrow> reports (v_nested conv)"
  unfolding v_nested_def by (intro reporting)

lemma reports_consume [reporting]: "reports m \<Longrightarrow> reports_r (consume m)"
  by (auto simp: reports_def reports_r_def consume_def) (metis prod.collapse)

lemma reports_collect [reporting]: "reports_r f \<Longrightarrow> reports_r (collect_r f)"
proof -
  assume f: "reports_r f"
  have "collect_r f xs \<noteq> Inl (Panic p)" for xs p
    using f by (induction xs) (auto simp: reports_r_def bind_r_def split: sum.split)
  then show ?thesis by (simp add: reports_r_def)
qed

section \<open>Points, tips and headers\<close>

lemma reports_points [reporting]:
  "reports_r point_of_values" "reports_r tip_of_values" "reports_r wrapped_of_values"
  "reports_r bytes_pair"
  unfolding point_of_values_def tip_of_values_def wrapped_of_values_def bytes_pair_def
  by (intro reporting)+

lemma reports_header_body [reporting]: "reports_r (header_body_of_values hash)"
  unfolding header_body_of_values_def by (intro reporting)

lemma header_of_wrapped_reports: "header_of_wrapped c blake2b w \<noteq> Inl (Panic p)"
proof -
  have "reports_r (consume (bind_s (v_nested (header_body_of_values (header_hash blake2b w)))
      (\<lambda>header. bind_s v_end (\<lambda>_. ret_s header))))"
    by (intro reporting)
  then show ?thesis
    by (cases "from_slice_values c (wh_bytes w)")
      (auto simp: header_of_wrapped_def reports_r_def Let_def)
qed

section \<open>Messages\<close>

lemma reports_cs_points [reporting]: "reports (cs_points acc)"
proof -
  have "cs_points acc items \<noteq> (Inl (Panic p), t)" for items p t
  proof (induction acc items rule: cs_points.induct)
    case (1 acc items)
    obtain r rest where r: "v_array items = (r, rest)" by (cases "v_array items")
    show ?case
    proof (cases r)
      case (Inl f)
      have "reports (bind_s v_end (\<lambda>_. ret_s acc))" by (intro reporting)
      with r Inl show ?thesis by (simp add: cs_points.simps[of acc items] reports_def)
    next
      case (Inr item)
      with 1 r show ?thesis
        using reports_points(1)
        by (auto simp: cs_points.simps[of acc items] reports_r_def split: sum.split)
    qed
  qed
  then show ?thesis by (simp add: reports_def)
qed

lemma reports_cs [reporting]: "reports_r cs_from_iter"
  unfolding cs_from_iter_def by (intro reporting)

lemma bf_from_iter_panics:
  "bf_from_iter vs = Inl (Panic p) \<longleftrightarrow> p = ExplicitPanic \<and>
    (\<exists>tag rest. vs = Integer tag # rest \<and> (tag < 0 \<or> 5 < tag))"
proof (cases vs rule: v_integer.cases)
  case (2 tag rest)
  show ?thesis
  proof (cases "tag < 0 \<or> 5 < tag")
    case True
    then show ?thesis by (auto simp: 2 bf_from_iter_def exec bind_s_def)
  next
    case False
    let ?read = "\<lambda>fallback. bind_s
        (if tag = 0 then
           bind_s (v_nested point_of_values) (\<lambda>first.
           bind_s (v_nested point_of_values) (\<lambda>last.
           ret_s (RequestRange first last)))
         else if tag = 1 then ret_s ClientDone
         else if tag = 2 then ret_s StartBatch
         else if tag = 3 then ret_s NoBlocks
         else if tag = 4 then bind_s v_bytes (\<lambda>block. ret_s (Block block))
         else if tag = 5 then ret_s BatchDone
         else fallback) (\<lambda>message. bind_s v_end (\<lambda>_. ret_s message))"
    have "tag = 0 \<or> tag = 1 \<or> tag = 2 \<or> tag = 3 \<or> tag = 4 \<or> tag = 5" using False by auto
    then have same: "?read (fail_s (Panic ExplicitPanic)) = ?read (fail_s (Error e))" for e by auto
    have "reports (?read (fail_s (Panic ExplicitPanic)))"
      unfolding same[of "ErrLib []"] by (intro reporting)
    then have "reports_r (consume (?read (fail_s (Panic ExplicitPanic))))" by (rule reports_consume)
    moreover have "bf_from_iter vs = consume (?read (fail_s (Panic ExplicitPanic))) rest"
      by (simp add: 2 bf_from_iter_def consume_def bind_s_run(1)[of v_integer _ tag rest])
    ultimately show ?thesis using False 2 by (simp add: reports_r_def)
  qed
qed (auto simp: bf_from_iter_def exec)

lemma reports_version [reporting]: "reports_r version_of_values"
proof -
  have magic: "magic_of_value v \<noteq> Inl (Panic p)" for v p by (cases v) simp_all
  have params: "params_of_value v \<noteq> Inl (Panic p)" for v p
    by (cases v) (simp_all split: list.split cbor_value.split bool.split)
  have "version_of_u32 n v \<noteq> Inl (Panic p)" for n v p
    using magic[of v p] params[of v p]
    by (auto simp: version_of_u32_def bind_r_def split: sum.splits)
  then have "version_of_values kv \<noteq> Inl (Panic p)" for kv p
    by (cases kv rule: version_of_values.cases) simp_all
  then show ?thesis by (simp add: reports_r_def)
qed

lemma accept_params_panics:
  "accept_params vs = Inl (Panic p) \<longleftrightarrow> p = AssertPanic \<and>
    (\<exists>magic rest. vs = Integer magic # Bool True # rest)"
proof (cases vs rule: v_integer.cases)
  case (2 magic rest)
  then show ?thesis
    by (cases rest rule: v_bool.cases) (auto simp: accept_params_def exec bind_s_def consume_def
        fail_s_def ret_s_def)
qed (auto simp: accept_params_def exec)

lemma hs_from_iter_panics:
  "hs_from_iter vs = Inl (Panic p) \<longleftrightarrow> p = AssertPanic \<and>
    (\<exists>n magic params rest. vs = Integer 1 # Integer n # Array (Integer magic # Bool True # params) # rest)"
proof (cases "\<exists>rest. vs = Integer 1 # rest")
  case True
  then obtain rest where rest: "vs = Integer 1 # rest" by blast
  show ?thesis
  proof (cases rest rule: v_integer.cases)
    case n: (2 n rest')
    show ?thesis
    proof (cases rest' rule: v_array.cases)
      case (2 params rest'')
      show ?thesis
        using accept_params_panics[of params p]
        by (cases "accept_params params")
          (auto simp: rest n 2 hs_from_iter_def exec bind_s_def consume_def ret_s_def)
    qed (auto simp: rest n hs_from_iter_def exec v_nested_def bind_s_def)
  qed (auto simp: rest hs_from_iter_def exec)
next
  case False
  let ?read = "\<lambda>acceptance. bind_s v_integer (\<lambda>tag.
      if tag = 0 then
        bind_s v_map (\<lambda>kvs.
        bind_s (lift_r (collect_r version_of_values kvs)) (\<lambda>versions.
        ret_s (ProposeVersions versions)))
      else if tag = 1 then acceptance
      else if tag = 2 then bind_s v_array (\<lambda>reason. ret_s Refuse)
      else fail_s (Error (ErrText ''Unexpected.'')))"
  have "reports_r (consume (?read (ret_s Refuse)))" by (intro reporting)
  moreover let ?acceptance = "bind_s v_integer (\<lambda>n. bind_s (v_nested accept_params) (\<lambda>magic.
      ret_s (AcceptVersion (version_from_u16 (word_of_int n)) magic)))"
  have "?read ?acceptance vs = ?read (ret_s Refuse) vs"
    using False by (cases vs rule: v_integer.cases) (simp_all add: bind_s_def)
  then have "hs_from_iter vs = consume (?read (ret_s Refuse)) vs"
    by (simp only: hs_from_iter_def consume_def)
  ultimately show ?thesis using False by (simp add: reports_r_def)
qed

text \<open>
  C13. The readers of the messages map every list of values to a message or to an error, whatever
  the peer sent, except for these: a block fetch message with an unknown tag, and an acceptance
  with the flag of a one-way connection. On exactly these they panic.
\<close>

theorem readers_total:
  "cs_from_iter vs \<noteq> Inl (Panic p) \<and> header_of_wrapped c blake2b wrapped \<noteq> Inl (Panic p) \<and>
   (bf_from_iter vs = Inl (Panic p) \<longleftrightarrow> p = ExplicitPanic \<and>
      (\<exists>tag rest. vs = Integer tag # rest \<and> tag \<notin> {0..5})) \<and>
   (hs_from_iter vs = Inl (Panic p) \<longleftrightarrow> p = AssertPanic \<and>
      (\<exists>n magic params rest.
         vs = Integer 1 # Integer n # Array (Integer magic # Bool True # params) # rest))"
  using reports_cs header_of_wrapped_reports[of c blake2b wrapped p] bf_from_iter_panics[of vs p]
    hs_from_iter_panics[of vs p]
  by (auto simp: reports_r_def)

end
