(* ===== verification/Handshake_Facts.thy ===== *)
theory Handshake_Facts
  imports Handshake Cbor_Sample
begin

unbundle bit_operations_syntax

text \<open>
  What the handshake guarantees: its messages and version numbers survive their encoding,
  and what each side concludes from the other's messages.
\<close>

section \<open>Version numbers on sixteen bits\<close>

lemma top_bit: "(w :: u16) AND 0x8000 = 0 \<longleftrightarrow> uint w < 0x8000"
proof -
  have "w AND 0x8000 = 0 \<longleftrightarrow> \<not> bit w 15"
    using and_exp_eq_0_iff_not_bit[of w 15] by simp
  also have "\<dots> \<longleftrightarrow> \<not> bit (uint w) 15"
    by (simp add: bit_uint_iff)
  also have "\<dots> \<longleftrightarrow> even (uint w div 32768)"
    by (simp add: bit_iff_odd)
  also have "\<dots> \<longleftrightarrow> uint w < 0x8000"
  proof -
    have small: "even (u div 32768) \<longleftrightarrow> u < 32768" if "0 \<le> u" "u < 65536" for u :: int
    proof -
      from that have "u div 32768 = (if u < 32768 then 0 else 1)"
        by (auto simp: div_pos_pos_trivial int_div_pos_eq[of u 32768 1 "u - 32768"])
      then show ?thesis by simp
    qed
    have "uint w < 65536" using uint_lt2p[of w] by simp
    then show ?thesis by (intro small) simp_all
  qed
  finally show ?thesis .
qed

lemma xor_twice [simp]: "a XOR (a XOR b) = (b :: u16)" "(b XOR a) XOR a = (b :: u16)"
  by (simp_all add: xor.assoc)

lemma top_bit_iff: "(w :: u16) AND 0x8000 = 0 \<longleftrightarrow> \<not> bit w 15"
  using and_exp_eq_0_iff_not_bit[of w 15] by simp

lemma top_bit_flip: "(0x8000 XOR w :: u16) AND 0x8000 = 0 \<longleftrightarrow> w AND 0x8000 \<noteq> 0"
proof -
  have "bit (2 ^ 15 :: u16) 15" by (subst bit_exp_iff) simp
  then show ?thesis unfolding top_bit_iff by (simp add: bit_xor_iff)
qed

lemma u16_round_trip [simp]: "u16_try_from (uint (w :: u16)) = Inr w"
  using uint_lt2p[of w] by (simp add: u16_try_from_def)

lemma uint_small: "0 \<le> n \<Longrightarrow> n < 0x8000 \<Longrightarrow> uint (word_of_int n :: u16) = n"
  by (simp add: uint_word_of_int)

text \<open>
  Every sixteen-bit version number is the number of exactly one version: reading it as a
  version and writing it back gives the number.
\<close>

theorem version_u16_round_trip: "version_to_u16 (version_from_u16 n) = Inr n"
  by (simp add: version_from_u16_def xor.commute[of n])

lemma version_accept_round_trip:
  assumes "0 \<le> version_number v" "version_number v < 0x8000"
  obtains n where "version_to_u16 v = Inr n" "version_from_u16 n = v"
proof (cases v)
  case (N2N m)
  with assms show thesis
    by (intro that[of "word_of_int m"])
      (simp_all add: u16_try_from_def version_from_u16_def top_bit uint_small)
next
  case (C2N m)
  with assms show thesis
    using top_bit[of "word_of_int m"] top_bit_flip[of "word_of_int m"]
    by (intro that[of "0x8000 XOR word_of_int m"])
      (simp_all add: u16_try_from_def version_from_u16_def uint_small xor.commute[of _ "0x8000"])
qed

section \<open>Round trips\<close>

fun hs_wf :: "hs_message \<Rightarrow> bool" where
  "hs_wf (ProposeVersions vs) \<longleftrightarrow> (\<forall>p \<in> set vs. supported (fst p)) \<and> sorted_wrt (<) (map fst vs)"
| "hs_wf (AcceptVersion v m) \<longleftrightarrow> 0 \<le> version_number v \<and> version_number v < 0x8000"
| "hs_wf Refuse \<longleftrightarrow> False"

lemma version_key_bounds:
  assumes "supported v"
  shows "0 \<le> version_key v \<and> version_key v < 0x9000"
  using assms by (cases rule: supported_cases) simp_all

lemma version_key_mono:
  assumes "supported v" "supported w" "v < w"
  shows "version_key v < version_key w"
proof -
  have key: "version_key (C2N n) = 0x8000 + n" if "supported (C2N n)" for n
    using that by (cases rule: supported_cases) simp_all
  show ?thesis
    using assms key by (cases v; cases w) (auto simp: less_version_def)
qed

definition version_entry :: "version \<times> u32 \<Rightarrow> cbor_value \<times> cbor_value" where
  "version_entry p = (case version_to_values (fst p) (snd p) of
     Inr kv \<Rightarrow> kv | Inl _ \<Rightarrow> (Null, Null))"

lemma version_entry:
  assumes "supported (fst p)"
  shows "version_to_values (fst p) (snd p) = Inr (version_entry p)"
    and "version_of_values (version_entry p) = Inr p"
    and "fst (version_entry p) = Integer (version_key (fst p))"
    and "2 \<le> d \<Longrightarrow> plain lt d (snd (version_entry p))"
proof -
  obtain q where q: "version_to_values (fst p) (snd p) = Inr (Integer (version_key (fst p)), q)"
      "version_of_values (Integer (version_key (fst p)), q) = Inr (fst p, snd p)"
      "2 \<le> d \<Longrightarrow> plain lt d q"
    using version_round_trip[OF assms] by blast
  then show "version_to_values (fst p) (snd p) = Inr (version_entry p)"
    and "version_of_values (version_entry p) = Inr p"
    and "fst (version_entry p) = Integer (version_key (fst p))"
    and "2 \<le> d \<Longrightarrow> plain lt d (snd (version_entry p))"
    by (simp_all add: version_entry_def)
qed

lemma sorted_entries:
  assumes "cbor_order c" and "\<forall>p \<in> set vs. supported (fst p)" and "sorted_wrt (<) (map fst vs)"
  shows "sorted_wrt (key_before (value_less c)) (map version_entry vs)"
  using assms(2,3)
proof (induction vs)
  case Nil
  then show ?case by simp
next
  case (Cons p vs)
  have "key_before (value_less c) (version_entry p) (version_entry q)" if q: "q \<in> set vs" for q
  proof -
    have "supported (fst p)" "supported (fst q)" "fst p < fst q" using Cons.prems q by auto
    with version_key_mono version_key_bounds assms(1) show ?thesis
      by (fastforce simp: key_before_def version_entry(3) cbor_order_def)
  qed
  with Cons show ?case by simp
qed

lemma accept_params_back: "accept_params [Integer (uint magic), Bool False] = Inr magic"
  by (simp add: accept_params_def exec)

lemma hs_round_trip:
  assumes "cbor_order c" and "hs_wf m"
  shows "\<exists>vs. hs_to_values c m = Inr vs \<and> plain_values c vs \<and> hs_from_iter vs = Inr m"
proof (cases m)
  case (ProposeVersions vs)
  with assms have sup: "\<forall>p \<in> set vs. supported (fst p)" and sorted: "sorted_wrt (<) (map fst vs)"
    by simp_all
  have out: "collect_r (\<lambda>(v, m). unwrap (version_to_values v m)) vs = Inr (map version_entry vs)"
    by (rule collect_r_map) (use sup version_entry(1) in \<open>fastforce split: prod.split\<close>)
  have inn: "collect_r version_of_values (map version_entry vs) = Inr vs"
    using sup by (induction vs) (simp_all add: version_entry(2))
  have key: "sorted_wrt (key_before (value_less c)) (map version_entry vs)"
    by (rule sorted_entries[OF assms(1) sup sorted])
  moreover have "plain (value_less c) 99 (fst (version_entry p)) \<and>
      plain (value_less c) 99 (snd (version_entry p))" if "p \<in> set vs" for p
    using sup that version_key_bounds[of "fst p"] by (auto simp: version_entry cbor_int_def)
  ultimately show ?thesis
    using ProposeVersions by (auto simp: out inn hs_from_iter_def btree_collect_sorted exec)
next
  case (AcceptVersion v magic)
  with assms obtain n where "version_to_u16 v = Inr n" "version_from_u16 n = v"
    using version_accept_round_trip[of v] by auto
  moreover have "cbor_int (uint n)"
    by (rule cbor_int_small) (use uint_lt2p[of n] in simp_all)
  ultimately show ?thesis
    using AcceptVersion by (simp add: hs_from_iter_def accept_params_back exec)
qed (use assms in simp)

interpretation hs_msg: message_codec c "hs_to_values c" hs_from_iter
    "\<lambda>m. cbor_order c \<and> hs_wf m" for c
  by unfold_locales (blast intro: hs_round_trip)

lemma hs_protocol_sel [simp]:
  "pr_role (hs_protocol c) = hs_role"
  "pr_agency (hs_protocol c) = hs_agency"
  "pr_send (hs_protocol c) = hs_send"
  "pr_recv (hs_protocol c) = hs_recv"
  "pr_from_iter (hs_protocol c) = hs_from_iter"
  "pr_to_bytes (hs_protocol c) = message_to_bytes c (hs_to_values c)"
  "pr_channel (hs_protocol c) = hs_channel"
  "pr_set_channel (hs_protocol c) ch s = s\<lparr>hs_channel := ch\<rparr>"
  by (simp_all add: hs_protocol_def)

lemma hs_channel_out [simp]:
  "s\<lparr>hs_channel := ch, hs_state := x1\<rparr> = s\<lparr>hs_state := x1, hs_channel := ch\<rparr>"
  "s\<lparr>hs_channel := ch, hs_version := x2\<rparr> = s\<lparr>hs_version := x2, hs_channel := ch\<rparr>"
  by simp_all

text \<open>The bytes written for a message, when it can be written.\<close>

definition hs_bytes :: "cbor \<Rightarrow> hs_message \<Rightarrow> byte list" where
  "hs_bytes c m = (case pr_to_bytes (hs_protocol c) m of Inr bs \<Rightarrow> bs | Inl _ \<Rightarrow> [])"

lemma hs_bytes_encodes:
  assumes "cbor_stream c" "cbor_order c" "hs_wf m"
  shows "pr_to_bytes (hs_protocol c) m = Inr (hs_bytes c m)"
    and "encodes c (hs_protocol c) m (hs_bytes c m)"
proof -
  obtain bs vs where "message_to_bytes c (hs_to_values c) m = Inr bs"
      "hs_from_iter vs = Inr m" "stream_code c vs bs"
    using hs_msg.bytes_round_trip[of c m] assms by blast
  then show "pr_to_bytes (hs_protocol c) m = Inr (hs_bytes c m)"
    and "encodes c (hs_protocol c) m (hs_bytes c m)"
    by (auto simp: hs_bytes_def encodes_def)
qed

lemma hs_bytes_nonempty:
  "cbor_stream c \<Longrightarrow> cbor_order c \<Longrightarrow> hs_wf m \<Longrightarrow> hs_bytes c m \<noteq> []"
  by (rule encodes_nonempty[OF hs_bytes_encodes(2)])

section \<open>The two sides\<close>

text \<open>One side before the exchange, on a working socket and with \<open>ps\<close> to read.\<close>

definition hs_ready :: "agency \<Rightarrow> payload list \<Rightarrow> handshake \<Rightarrow> bool" where
  "hs_ready role ps s \<longleftrightarrow> hs_role s = role \<and> hs_state s = Propose \<and> hs_version s = None \<and>
     ch_bytes (hs_channel s) = [] \<and> quiet (ch_conn (hs_channel s)) \<and>
     writable (ch_conn (hs_channel s)) \<and>
     cn_channels (ch_conn (hs_channel s)) (ch_idx (hs_channel s)) = Some ps"

definition hs_proposal :: "handshake \<Rightarrow> hs_message" where
  "hs_proposal s = ProposeVersions (map (\<lambda>v. (v, hs_network_magic s)) (hs_versions s))"

lemma hs_ready_feed: "hs_ready role ps s \<Longrightarrow> s\<lparr>hs_channel := feed [] ps (hs_channel s)\<rparr> = s"
  using feed_exists[of "hs_channel s" ps] by (simp add: hs_ready_def)

text \<open>The client writes its proposal and waits.\<close>

lemma hs_client_proposes:
  assumes "hs_ready Client ps s" and "pr_to_bytes (hs_protocol c) (hs_proposal s) = Inr data"
  shows "execute w c (hs_protocol c) s = execute w c (hs_protocol c)
    (s\<lparr>hs_state := Confirm, hs_channel := feed [] ps (sent w data (hs_channel s))\<rparr>)"
proof -
  have "hs_send s = (Inr (hs_proposal s), s\<lparr>hs_state := Confirm\<rparr>)"
    using assms(1) by (simp add: hs_send_def hs_ready_def hs_proposal_def)
  moreover have "sent w data (hs_channel s) = feed [] ps (sent w data (hs_channel s))"
    using assms(1) feed_exists[of "hs_channel s" ps] sent_feed by (metis hs_ready_def)
  ultimately show ?thesis
    using assms by (subst hs.execute_send[where m = "hs_proposal s" and data = data])
      (auto simp: hs_agency_def hs_ready_def)
qed

lemma find_equal: "List.find (\<lambda>x. x = v) vs = (if v \<in> set vs then Some v else None)"
  by (induction vs) auto

text \<open>What a client makes of an acceptance.\<close>

definition hs_verdict :: "handshake \<Rightarrow> version \<Rightarrow> u32 \<Rightarrow> (error, version \<times> u32) result" where
  "hs_verdict s v magic =
     (if magic \<noteq> hs_network_magic s then Inl (Panic AssertPanic)
      else if v \<in> set (hs_versions s) then Inr (v, magic)
      else Inl (Error (ErrText ''Handshake failed.'')))"

lemma hs_verdict_state: "hs_verdict (s\<lparr>hs_state := q\<rparr>) v magic = hs_verdict s v magic"
  by (simp add: hs_verdict_def)

lemma hs_client_concludes:
  assumes "cbor_stream c" "cbor_order c" and "hs_role s = Client" "hs_state s = Confirm"
    and "quiet (ch_conn ch)" and "hs_wf (AcceptVersion v magic)"
    and "concat ps = hs_bytes c (AcceptVersion v magic)"
  shows "\<exists>t. bind_t (execute w c (hs_protocol c)) (\<lambda>_. sync_t hs_result)
      (s\<lparr>hs_channel := feed [] ps ch\<rparr>) = Some (Ready (hs_verdict s v magic), t) \<and>
    hs_state t = HsDone \<and> (\<exists>ps'. hs_channel t = feed [] ps' ch)"
proof -
  let ?m = "AcceptVersion v magic"
  let ?t = "s\<lparr>hs_state := HsDone, hs_version := List.find (\<lambda>x. x = v) (hs_versions s)\<rparr>"
  have turn: "hs_agency s \<noteq> NoAgency" "hs_agency s \<noteq> hs_role s"
    using assms(3,4) by (simp_all add: hs_agency_def)
  note enc = hs_bytes_encodes(2)[OF assms(1,2,6)]
  show ?thesis
  proof (cases "magic = hs_network_magic s")
    case True
    have "hs.exchange c [?m] s ?t"
      using assms(4) turn True by (simp add: hs_recv_def) (simp add: hs_agency_def)
    from hs.execute_exchange[OF _ _ _ assms(5) this, where bss = "[hs_bytes c ?m]" and l = "[]"
        and ps = ps and w = w] enc assms(7)
    obtain ps' where "execute w c (hs_protocol c) (s\<lparr>hs_channel := feed [] ps ch\<rparr>) =
        Some (Ready (Inr ()), ?t\<lparr>hs_channel := feed [] ps' ch\<rparr>)"
      by (auto simp: incomplete_def)
    with True show ?thesis
      by (auto simp: bind_t_def sync_t_def hs_result_def hs_verdict_def find_equal)
  next
    case False
    obtain vs where vs: "hs_from_iter vs = Inr ?m" "stream_code c vs (hs_bytes c ?m)"
      using enc by (auto simp: encodes_def)
    have "hs.handle c vs s = (Inl (Panic AssertPanic), ?t)"
      using vs(1) assms(4) False by (simp add: hs.handle_def unwrap_s_def hs_recv_def)
    from hs.execute_rejects[OF vs(2) _ _ assms(5) _ _ this, where l = "[]" and ps = ps
        and rest = "[]" and w = w]
    show ?thesis
      using assms(7) turn False stream_codeD(1)[OF vs(2)]
      by (auto simp: bind_t_def hs_verdict_def)
  qed
qed

lemma hs_client_run:
  assumes "cbor_stream c" "cbor_order c" and "hs_ready Client ps s"
    and "pr_to_bytes (hs_protocol c) (hs_proposal s) = Inr data"
    and "hs_wf (AcceptVersion v magic)" and "concat ps = hs_bytes c (AcceptVersion v magic)"
  shows "\<exists>t ps'. negotiate w c s = Some (Ready (hs_verdict s v magic), t) \<and> hs_state t = HsDone \<and>
    hs_channel t = feed [] ps' (sent w data (hs_channel s))"
proof -
  let ?s = "s\<lparr>hs_state := Confirm\<rparr>" and ?ch = "sent w data (hs_channel s)"
  have "\<exists>t. bind_t (execute w c (hs_protocol c)) (\<lambda>_. sync_t hs_result)
      (?s\<lparr>hs_channel := feed [] ps ?ch\<rparr>) = Some (Ready (hs_verdict ?s v magic), t) \<and>
    hs_state t = HsDone \<and> (\<exists>ps'. hs_channel t = feed [] ps' ?ch)"
    using assms(3) by (intro hs_client_concludes[OF assms(1,2) _ _ _ assms(5,6)])
      (simp_all add: hs_ready_def)
  then show ?thesis
    using hs_client_proposes[OF assms(3,4), of w]
    by (auto simp: negotiate_def bind_t_def hs_verdict_state)
qed

text \<open>
  The client proposes its versions in one frame and receives an acceptance, cut in any
  way. It returns the accepted version and magic number when both are its own; a version
  that it did not propose makes the negotiation fail with an error; another magic
  number does not: the client panics.
\<close>

theorem hs_client_outcome:
  assumes "cbor_stream c" "cbor_order c" and "hs_ready Client ps s"
    and "pr_to_bytes (hs_protocol c) (hs_proposal s) = Inr data"
    and "hs_wf (AcceptVersion v magic)" and "concat ps = hs_bytes c (AcceptVersion v magic)"
  shows "\<exists>t. negotiate w c s = Some (Ready
      (if magic \<noteq> hs_network_magic s then Inl (Panic AssertPanic)
       else if v \<in> set (hs_versions s) then Inr (v, magic)
       else Inl (Error (ErrText ''Handshake failed.''))), t) \<and>
    hs_state t = HsDone \<and>
    cn_sent (ch_conn (hs_channel t)) = cn_sent (ch_conn (sent w data (hs_channel s)))"
  using hs_client_run[OF assms, of w] by (auto simp: hs_verdict_def)

text \<open>A client that proposes version 7 and 6 on the test network, with frames to read.\<close>

definition sample_side :: "agency \<Rightarrow> u32 \<Rightarrow> payload list \<Rightarrow> handshake" where
  "sample_side role magic ps =
     hs_with_channel (network_magic magic hs_builder) role (sample_channel 0 ps)"

lemma sample_side_ready: "hs_ready role ps (sample_side role magic ps)"
  by (simp add: hs_ready_def sample_side_def hs_with_channel_def quiet_def writable_def sample_channel_def
      sample_connection_def connection_new_def)

lemma sample_side_simps [simp]:
  "hs_network_magic (sample_side role magic ps) = magic"
  "hs_versions (sample_side role magic ps) = [N2N 6, N2N 7]"
  by (simp_all add: sample_side_def hs_with_channel_def network_magic_def hs_builder_def)

lemma sample_side_proposal:
  "hs_wf (hs_proposal (sample_side role magic ps))"
  by (simp add: hs_proposal_def less_version_def)

lemmas sample_side_proposes =
  hs_bytes_encodes(1)[OF sample_cbor_stream sample_cbor_order sample_side_proposal]

theorem hs_client_outcome_witness:
  "(\<exists>t. negotiate sample_wire sample_cbor
      (sample_side Client 42 [hs_bytes sample_cbor (AcceptVersion (N2N 7) 42)]) =
        Some (Ready (Inr (N2N 7, 42)), t)) \<and>
   (\<exists>t. negotiate sample_wire sample_cbor
      (sample_side Client 42 [hs_bytes sample_cbor (AcceptVersion (N2N 7) 1)]) =
        Some (Ready (Inl (Panic AssertPanic)), t))"
proof
  note outcome = hs_client_outcome[OF sample_cbor_stream sample_cbor_order sample_side_ready
      sample_side_proposes, where w = sample_wire and v = "N2N 7"]
  from outcome[where magic1 = 42 and magic = 42 and ps = "[hs_bytes sample_cbor (AcceptVersion (N2N 7) 42)]"]
  show "\<exists>t. negotiate sample_wire sample_cbor
      (sample_side Client 42 [hs_bytes sample_cbor (AcceptVersion (N2N 7) 42)]) =
        Some (Ready (Inr (N2N 7, 42)), t)" by auto
  from outcome[where magic1 = 42 and magic = 1 and ps = "[hs_bytes sample_cbor (AcceptVersion (N2N 7) 1)]"]
  show "\<exists>t. negotiate sample_wire sample_cbor
      (sample_side Client 42 [hs_bytes sample_cbor (AcceptVersion (N2N 7) 1)]) =
        Some (Ready (Inl (Panic AssertPanic)), t)" by auto
qed

text \<open>
  C33. A refusal written by this library is an acceptance to its own reader: it carries the
  tag of \<open>AcceptVersion\<close>, and a client that receives it panics instead of reporting the
  refusal.
\<close>

theorem hs_refusal_unreadable:
  assumes "cbor_stream c" "cbor_order c" and "hs_ready Client ps s"
    and "pr_to_bytes (hs_protocol c) (hs_proposal s) = Inr data"
    and "concat ps = hs_bytes c Refuse"
  shows "\<exists>t. negotiate w c s = Some (Ready (Inl (Panic UnwrapPanic)), t)"
proof -
  let ?s = "s\<lparr>hs_state := Confirm\<rparr>" and ?ch = "sent w data (hs_channel s)"
  let ?vs = "[Integer 1, Array [Integer 2, Integer 0, Text ''Refused.'']]"
  have "plain_values c ?vs" by (simp add: cbor_int_def)
  then obtain bs where bs: "to_vec_values c ?vs = Inr bs" "stream_code c ?vs bs"
    by (rule cbor_streamE[OF assms(1)])
  then have bytes: "hs_bytes c Refuse = bs" by (simp add: hs_bytes_def message_to_bytes_def)
  have "hs.handle c ?vs ?s = (Inl (Panic UnwrapPanic), ?s)"
    by (simp add: hs.handle_def hs_from_iter_def consume_def bind_s_def)
  from hs.execute_rejects[OF bs(2) _ _ _ _ _ this, of "[]" ps "[]" ?ch w]
  show ?thesis
    using hs_client_proposes[OF assms(3,4), of w] assms(3,5) stream_codeD(1)[OF bs(2)]
    by (auto simp: negotiate_def hs_result_def bind_t_def hs_agency_def hs_ready_def bytes)
qed

theorem hs_refusal_unreadable_witness:
  "\<exists>t. negotiate sample_wire sample_cbor (sample_side Client 42 [hs_bytes sample_cbor Refuse]) =
    Some (Ready (Inl (Panic UnwrapPanic)), t)"
  by (rule hs_refusal_unreadable[OF sample_cbor_stream sample_cbor_order sample_side_ready
      sample_side_proposes]) simp

text \<open>
  A refusal in the form the reader expects ends the negotiation with the error
  \<open>Handshake failed.\<close>, wherever its bytes are cut.
\<close>

theorem hs_client_refused:
  assumes "stream_code c (Integer 2 # Array reason # others) bs" and "hs_ready Client ps s"
    and "pr_to_bytes (hs_protocol c) (hs_proposal s) = Inr data" and "concat ps = bs"
  shows "\<exists>t. negotiate w c s = Some (Ready (Inl (Error (ErrText ''Handshake failed.''))), t) \<and>
    hs_state t = HsDone"
proof -
  let ?s = "s\<lparr>hs_state := Confirm\<rparr>" and ?ch = "sent w data (hs_channel s)"
  have enc: "encodes c (hs_protocol c) Refuse bs"
    unfolding encodes_def
    by (rule exI[of _ "Integer 2 # Array reason # others"])
      (use assms(1) in \<open>simp add: hs_from_iter_def exec\<close>)
  have "hs.exchange c [Refuse] ?s (?s\<lparr>hs_state := HsDone\<rparr>)"
    using assms(2) by (simp add: hs_recv_def hs_agency_def hs_ready_def)
  from hs.execute_exchange[OF _ _ _ _ this, where bss = "[bs]" and l = "[]"
      and ps = ps and ch = ?ch and w = w]
  obtain ps' where "execute w c (hs_protocol c) (?s\<lparr>hs_channel := feed [] ps ?ch\<rparr>) =
      Some (Ready (Inr ()), ?s\<lparr>hs_state := HsDone, hs_channel := feed [] ps' ?ch\<rparr>)"
    using enc assms(2,4) by (auto simp: incomplete_def hs_ready_def)
  then show ?thesis
    using hs_client_proposes[OF assms(2,3), of w] assms(2)
    by (simp add: negotiate_def hs_result_def bind_t_def sync_t_def hs_ready_def)
qed

theorem hs_client_refused_witness:
  "\<exists>bs t. to_vec_values sample_cbor [Integer 2, Array [Integer 0]] = Inr bs \<and>
    negotiate sample_wire sample_cbor (sample_side Client 42 [bs]) =
      Some (Ready (Inl (Error (ErrText ''Handshake failed.''))), t) \<and> hs_state t = HsDone"
proof -
  have "plain_values sample_cbor [Integer 2, Array [Integer 0]]" by (simp add: cbor_int_def)
  then obtain bs where bs: "to_vec_values sample_cbor [Integer 2, Array [Integer 0]] = Inr bs"
      "stream_code sample_cbor [Integer 2, Array [Integer 0]] bs"
    by (rule cbor_streamE[OF sample_cbor_stream])
  from hs_client_refused[OF bs(2) sample_side_ready sample_side_proposes] bs(1)
  show ?thesis by auto
qed

lemma hs_server_run:
  assumes "cbor_stream c" "cbor_order c" and "hs_ready Server ps s" and "hs_wf proposal"
    and "concat ps = hs_bytes c proposal" and "hs_versions s \<noteq> []"
    and "hs_wf (AcceptVersion (last (hs_versions s)) (hs_network_magic s))"
  shows "\<exists>t. negotiate w c s =
      Some (Ready (Inr (last (hs_versions s), hs_network_magic s)), t) \<and> hs_state t = HsDone \<and>
    (\<exists>ps'. hs_channel t = feed [] ps' (sent w
      (hs_bytes c (AcceptVersion (last (hs_versions s)) (hs_network_magic s))) (hs_channel s)))"
proof -
  let ?m = "AcceptVersion (last (hs_versions s)) (hs_network_magic s)"
  let ?s = "s\<lparr>hs_state := Confirm\<rparr>"
  let ?t = "s\<lparr>hs_state := HsDone, hs_version := Some (last (hs_versions s))\<rparr>"
  have turn: "hs_agency s \<noteq> NoAgency" "hs_agency s \<noteq> hs_role s"
    and recv: "hs_recv proposal s = (Inr (), ?s)"
    using assms(3) by (simp_all add: hs_agency_def hs_recv_def hs_ready_def)
  obtain ps' where "execute w c (hs_protocol c) s =
      execute w c (hs_protocol c) (?s\<lparr>hs_channel := feed [] ps' (hs_channel s)\<rparr>)"
    using hs.execute_message[OF hs_bytes_encodes(2)[OF assms(1,2,4)], where l = "[]" and ps = ps
        and ch = "hs_channel s" and s = s and t = ?s and w = w] turn recv
      hs_bytes_nonempty[OF assms(1,2,4)] hs_ready_feed[OF assms(3)] assms(3,5)
    by (auto simp: hs_ready_def)
  also have "\<dots> = execute w c (hs_protocol c) (?t\<lparr>hs_channel :=
      sent w (hs_bytes c ?m) (feed [] ps' (hs_channel s))\<rparr>)"
    using hs.execute_send[where s = "?s\<lparr>hs_channel := feed [] ps' (hs_channel s)\<rparr>" and m = ?m
        and t = "?t\<lparr>hs_channel := feed [] ps' (hs_channel s)\<rparr>" and w = w]
      hs_bytes_encodes(1)[OF assms(1,2,7)] assms(3,6)
    by (simp add: hs_agency_def hs_send_def hs_ready_def split: list.split)
  finally show ?thesis
    by (auto simp: negotiate_def hs_result_def hs.execute_stop hs_agency_def bind_t_def sync_t_def)
qed

text \<open>
  The server does not negotiate: to any readable proposal, whatever versions and magic
  number it names, it answers with its own last version and its own magic number, and reports
  these as the result.
\<close>

theorem hs_server_accepts:
  assumes "cbor_stream c" "cbor_order c" and "hs_ready Server ps s" and "hs_wf proposal"
    and "concat ps = hs_bytes c proposal" and "hs_versions s \<noteq> []"
    and "hs_wf (AcceptVersion (last (hs_versions s)) (hs_network_magic s))"
  shows "\<exists>t. negotiate w c s =
      Some (Ready (Inr (last (hs_versions s), hs_network_magic s)), t) \<and> hs_state t = HsDone \<and>
    cn_sent (ch_conn (hs_channel t)) = cn_sent (ch_conn (sent w
      (hs_bytes c (AcceptVersion (last (hs_versions s)) (hs_network_magic s))) (hs_channel s)))"
  using hs_server_run[OF assms] by fastforce

theorem hs_server_accepts_witness:
  "\<exists>t. negotiate sample_wire sample_cbor
      (sample_side Server 42 [hs_bytes sample_cbor (ProposeVersions [(C2N 9, 1)])]) =
        Some (Ready (Inr (N2N 7, 42)), t)"
  using hs_server_accepts[OF sample_cbor_stream sample_cbor_order sample_side_ready,
      of "ProposeVersions [(C2N 9, 1)]" "[hs_bytes sample_cbor (ProposeVersions [(C2N 9, 1)])]" 42]
  by auto

section \<open>What the readers accept\<close>

text \<open>
  C30. Every well-formed message but \<open>Refuse\<close> survives its encoding: the values written for
  it are read back as the same message.
\<close>

theorem hs_message_round_trip:
  assumes "cbor_order c" and "hs_wf m"
  shows "\<exists>vs. hs_to_values c m = Inr vs \<and> hs_from_iter vs = Inr m"
  using hs_round_trip[OF assms] by blast

theorem hs_message_round_trip_witness:
  "\<exists>vs. hs_to_values sample_cbor (ProposeVersions [(N2N 6, 42), (C2N 9, 42)]) = Inr vs \<and>
    hs_from_iter vs = Inr (ProposeVersions [(N2N 6, 42), (C2N 9, 42)])"
  by (rule hs_message_round_trip[OF sample_cbor_order]) (simp add: less_version_def)

text \<open>
  Numbers that do not fit are cut, not refused, and what follows the expected fields is
  ignored: two messages that differ only so are the same acceptance.
\<close>

theorem hs_acceptance_truncates:
  "hs_from_iter (Integer 1 # Integer (n + 2 ^ 16 * i) #
      Array (Integer (m + 2 ^ 32 * j) # Bool False # extra) # others) =
    Inr (AcceptVersion (version_from_u16 (word_of_int n)) (word_of_int m))"
proof -
  have "(word_of_int (n + 65536 * i) :: u16) = word_of_int n"
    by (rule word_of_int_eq_iff[THEN iffD2]) (simp add: take_bit_eq_mod)
  moreover have "(word_of_int (m + 4294967296 * j) :: u32) = word_of_int m"
    by (rule word_of_int_eq_iff[THEN iffD2]) (simp add: take_bit_eq_mod)
  ultimately show ?thesis
    by (simp add: hs_from_iter_def accept_params_def exec)
qed

text \<open>The configurations that the public builder can produce.\<close>

inductive hs_configured :: "handshake_builder \<Rightarrow> bool" where
  new: "hs_configured hs_builder"
| magic: "hs_configured b \<Longrightarrow> hs_configured (network_magic m b)"
| n2n: "hs_configured b \<Longrightarrow> hs_configured (node_to_node b)"
| c2n: "hs_configured b \<Longrightarrow> hs_configured (client_to_node b)"

lemma hs_configured_versions:
  "hs_configured b \<Longrightarrow> hb_versions b = [N2N 6, N2N 7] \<or> hb_versions b = [C2N 9]"
  by (induction rule: hs_configured.induct)
    (auto simp: hs_builder_def network_magic_def node_to_node_def client_to_node_def)

text \<open>
  A side made by the public builder, with whatever settings, has a proposal that can be
  written, is read back unchanged, and whose versions it would itself accept: writing it never
  reaches the panic on an unsupported version.
\<close>

theorem hs_configured_proposal:
  assumes "hs_configured b" and "hs_build b role conn = Inr s" and "cbor_order c"
  shows "\<exists>vs. hs_to_values c (hs_proposal s) = Inr vs \<and> hs_from_iter vs = Inr (hs_proposal s) \<and>
    hs_wf (AcceptVersion (last (hs_versions s)) (hs_network_magic s))"
proof -
  have "hs_versions s = hb_versions b"
    using assms(2) by (auto simp: hs_build_def hs_with_channel_def split: agency.splits)
  with hs_configured_versions[OF assms(1)]
  have "hs_wf (hs_proposal s)" "hs_wf (AcceptVersion (last (hs_versions s)) (hs_network_magic s))"
    by (auto simp: hs_proposal_def less_version_def)
  with hs_round_trip[OF assms(3)] show ?thesis by blast
qed

theorem hs_configured_proposal_witness:
  "\<exists>s vs. hs_client (client_to_node (network_magic 42 hs_builder)) sample_connection = Inr s \<and>
    hs_to_values sample_cbor (hs_proposal s) = Inr vs \<and> hs_from_iter vs = Inr (hs_proposal s)"
proof -
  let ?b = "client_to_node (network_magic 42 hs_builder)"
  have b: "hs_configured ?b" by (intro hs_configured.intros)
  obtain s where "hs_build ?b Client sample_connection = Inr s" by (simp add: hs_build_def)
  from hs_configured_proposal[OF b this sample_cbor_order] this show ?thesis
    by (auto simp: hs_client_def)
qed

text \<open>
  Writing a proposal, on every branch: the entries of its versions in the order of the map
  when all of them are supported, and a panic otherwise.
\<close>

theorem hs_proposal_written:
  "hs_to_values c (ProposeVersions vs) =
    (if list_all (\<lambda>p. supported (fst p)) vs
     then Inr [Integer 0, Map (btree_collect (value_less c) [] (map version_entry vs))]
     else Inl (Panic UnwrapPanic))"
proof -
  have one: "unwrap (version_to_values v m) =
      (if supported v then Inr (version_entry (v, m)) else Inl (Panic UnwrapPanic))" for v m
    using version_entry(1)[of "(v, m)"] by (cases v) auto
  have "collect_r (\<lambda>(v, m). unwrap (version_to_values v m)) vs =
      (if list_all (\<lambda>p. supported (fst p)) vs then Inr (map version_entry vs)
       else Inl (Panic UnwrapPanic))"
    by (induction vs) (auto simp: one split: prod.splits)
  then show ?thesis by simp
qed

section \<open>Suspension\<close>

text \<open>The client is suspended until the answer arrives, and goes on from there.\<close>

lemma hs_client_waits:
  assumes "hs_ready Client [] s" and "pr_to_bytes (hs_protocol c) (hs_proposal s) = Inr data"
  shows "negotiate w c s = Some (Pending [],
    s\<lparr>hs_state := Confirm, hs_channel := feed [] [] (sent w data (hs_channel s))\<rparr>)"
  using hs_client_proposes[OF assms, of w] assms(1)
    hs.execute_waits[where s = "s\<lparr>hs_state := Confirm\<rparr>" and l = "[]" and w = w and c = c and ca = c
      and ch = "sent w data (hs_channel s)"]
  by (simp add: negotiate_def bind_t_def hs_ready_def hs_agency_def)

lemma hs_client_resumes:
  assumes "cbor_stream c" "cbor_order c" and "hs_role s = Client" "hs_state s = Confirm"
    and "feed [] ps (hs_channel s) = hs_channel s" "quiet (ch_conn (hs_channel s))"
    and "hs_wf (AcceptVersion v magic)" and "concat ps = hs_bytes c (AcceptVersion v magic)"
  shows "\<exists>t. negotiate_resume w c [] s = Some (Ready (hs_verdict s v magic), t) \<and>
    cn_sent (ch_conn (hs_channel t)) = cn_sent (ch_conn (hs_channel s))"
proof -
  have "execute_from w c (hs_protocol c) (Some []) s = execute w c (hs_protocol c) s"
    using hs.execute_resumes[where s = s and l = "[]" and ps = ps and ch = "hs_channel s"
        and w = w and c = c and ca = c] assms(3-5) by (simp add: hs_agency_def)
  then show ?thesis
    using hs_client_concludes[OF assms(1-4,6-8), of w] assms(5)
    by (fastforce simp: negotiate_resume_def bind_t_def)
qed

end
