(* ===== verification/Chain_Sync_Facts.thy ===== *)
theory Chain_Sync_Facts
  imports Chain_Sync Cbor_Sample
begin

text \<open>
  What the chain sync client guarantees: every query returns the answer of a server that
  follows the protocol, however it is cut and however often the server asks for patience;
  and what happens to the client when a server does not.
\<close>

section \<open>Messages on the channel\<close>

lemma cs_protocol_sel [simp]:
  "pr_role (cs_protocol c blake2b) s = Client"
  "pr_agency (cs_protocol c blake2b) = cs_agency"
  "pr_send (cs_protocol c blake2b) = cs_send"
  "pr_recv (cs_protocol c blake2b) = cs_recv c blake2b"
  "pr_from_iter (cs_protocol c blake2b) = cs_from_iter"
  "pr_to_bytes (cs_protocol c blake2b) = message_to_bytes c cs_to_values"
  "pr_channel (cs_protocol c blake2b) = cs_channel"
  "pr_set_channel (cs_protocol c blake2b) ch s = s\<lparr>cs_channel := ch\<rparr>"
  by (simp_all add: cs_protocol_def)

lemma cs_channel_out [simp]:
  "s\<lparr>cs_channel := ch, cs_query := x1\<rparr> = s\<lparr>cs_query := x1, cs_channel := ch\<rparr>"
  "s\<lparr>cs_channel := ch, cs_intersect := x2\<rparr> = s\<lparr>cs_intersect := x2, cs_channel := ch\<rparr>"
  "s\<lparr>cs_channel := ch, cs_reply := x3\<rparr> = s\<lparr>cs_reply := x3, cs_channel := ch\<rparr>"
  "s\<lparr>cs_channel := ch, cs_state := x4\<rparr> = s\<lparr>cs_state := x4, cs_channel := ch\<rparr>"
  by simp_all

definition cs_bytes :: "cbor \<Rightarrow> cs_message \<Rightarrow> byte list" where
  "cs_bytes c m = (case message_to_bytes c cs_to_values m of Inr bs \<Rightarrow> bs | Inl _ \<Rightarrow> [])"

lemma cs_bytes_encodes:
  assumes "cbor_stream c"
  shows "message_to_bytes c cs_to_values m = Inr (cs_bytes c m)"
    and "encodes c (cs_protocol c blake2b) m (cs_bytes c m)"
proof -
  obtain bs vs where "message_to_bytes c cs_to_values m = Inr bs"
      "cs_from_iter vs = Inr m" "stream_code c vs bs"
    using cs_msg.bytes_round_trip[of c m] assms by blast
  then show "message_to_bytes c cs_to_values m = Inr (cs_bytes c m)"
    and "encodes c (cs_protocol c blake2b) m (cs_bytes c m)"
    by (auto simp: cs_bytes_def encodes_def)
qed

lemma cs_bytes_all:
  "cbor_stream c \<Longrightarrow> list_all2 (encodes c (cs_protocol c blake2b)) ms (map (cs_bytes c) ms)"
  by (simp add: list_all2_map2 list_all2_same cs_bytes_encodes)

section \<open>The state machine of the protocol\<close>

text \<open>The transitions the server may cause, as the protocol defines them.\<close>

inductive cs_step :: "cs_state \<Rightarrow> cs_message \<Rightarrow> cs_state \<Rightarrow> bool" where
  await_reply: "cs_step CanAwait AwaitReply MustReply"
| roll_forward: "q = CanAwait \<or> q = MustReply \<Longrightarrow> cs_step q (RollForward h t) CsIdle"
| roll_backward: "q = CanAwait \<or> q = MustReply \<Longrightarrow> cs_step q (RollBackward p t) CsIdle"
| intersect_found: "cs_step CsIntersect (IntersectFound p t) CsIdle"
| intersect_not_found: "cs_step CsIntersect (IntersectNotFound t) CsIdle"

inductive_simps cs_step_simps [simp]:
  "cs_step q RequestNext q'" "cs_step q AwaitReply q'" "cs_step q (RollForward h t) q'"
  "cs_step q (RollBackward p t) q'" "cs_step q (FindIntersect ps) q'"
  "cs_step q (IntersectFound p t) q'" "cs_step q (IntersectNotFound t) q'" "cs_step q MsgDone q'"

text \<open>What a message answers, if anything.\<close>

fun reply_of :: "cbor \<Rightarrow> (nat \<Rightarrow> byte list \<Rightarrow> byte list) \<Rightarrow> cs_message \<Rightarrow> reply option" where
  "reply_of c blake2b (RollForward w t) = (case header_of_wrapped c blake2b w of
     Inr h \<Rightarrow> Some (Forward h t) | Inl _ \<Rightarrow> None)"
| "reply_of c blake2b (RollBackward p t) = Some (Backward p t)"
| "reply_of c blake2b m = None"

fun intersect_of :: "cs_message \<Rightarrow> intersect option" where
  "intersect_of (IntersectFound p t) = Some (Found p t)"
| "intersect_of (IntersectNotFound t) = Some (NotFound t)"
| "intersect_of m = None"

lemma cs_recv_reply:
  "reply_of c blake2b m = Some r \<Longrightarrow> cs_recv c blake2b m s =
    (Inr (), s\<lparr>cs_reply := Some r, cs_query := None, cs_state := CsIdle\<rparr>)"
  by (cases m) (auto split: sum.splits)

lemma cs_recv_intersect:
  "intersect_of m = Some i \<Longrightarrow> cs_recv c blake2b m s =
    (Inr (), s\<lparr>cs_intersect := Some i, cs_query := None, cs_state := CsIdle\<rparr>)"
  by (cases m) auto

section \<open>Queries to a server that follows the protocol\<close>

text \<open>A client between two queries, with the bytes \<open>data\<close> to read.\<close>

definition cs_ready :: "byte list \<Rightarrow> chain_sync \<Rightarrow> bool" where
  "cs_ready data s \<longleftrightarrow> cs_state s = CsIdle \<and> cs_query s = None \<and> cs_reply s = None \<and>
     cs_intersect s = None \<and> holds data (cs_channel s)"

text \<open>The request is written in one frame, then the client waits.\<close>

lemma cs_requests:
  assumes "cbor_stream c" and "cs_send (s\<lparr>cs_query := Some q\<rparr>) = (Inr m, t)"
    and "cs_state s = CsIdle" and "feed [] ps (cs_channel s) = cs_channel s"
    and "writable (ch_conn (cs_channel s))"
  shows "execute w c (cs_protocol c blake2b) (s\<lparr>cs_query := Some q\<rparr>) =
    execute w c (cs_protocol c blake2b)
      (t\<lparr>cs_channel := feed [] ps (sent w (cs_bytes c m) (cs_channel s))\<rparr>)"
proof -
  have "sent w (cs_bytes c m) (cs_channel s) =
      feed [] ps (sent w (cs_bytes c m) (cs_channel s))"
    using assms(4) sent_feed by metis
  with assms show ?thesis
    using cs_bytes_encodes(1)[OF assms(1), of m]
    by (subst cs.execute_send[where m = m and data = "cs_bytes c m" and t = t])
      (auto simp: cs_agency_def)
qed

lemma cs_exchange_reply:
  assumes "cs_query s = Some q" "cs_state s = CanAwait \<or> cs_state s = MustReply"
    and "reply_of c blake2b m = Some r"
  shows "cs.exchange c blake2b (replicate n AwaitReply @ [m]) s
    (s\<lparr>cs_reply := Some r, cs_query := None, cs_state := CsIdle\<rparr>)"
  using assms
proof (induction n arbitrary: s)
  case 0
  then show ?case by (auto simp: cs_agency_def cs_recv_reply)
next
  case (Suc n)
  from Suc.IH[of "s\<lparr>cs_state := MustReply\<rparr>"] Suc.prems show ?case
    by (auto simp: cs_agency_def)
qed

text \<open>A query and its answer: the channel is ready for the next one.\<close>

lemma cs_answered:
  assumes "cbor_stream c" and "cs_ready (concat (map (cs_bytes c) ms)) s"
    and "cs_send (s\<lparr>cs_query := Some q\<rparr>) = (Inr m, t)" and "cs.exchange c blake2b ms t t'"
  obtains ps' ch where "execute w c (cs_protocol c blake2b) (s\<lparr>cs_query := Some q\<rparr>) =
      Some (Ready (Inr ()), t'\<lparr>cs_channel := ch\<rparr>)" "holds [] ch"
    "ch = feed [] ps' (sent w (cs_bytes c m) (cs_channel s))" "concat ps' = []"
proof -
  let ?ch = "sent w (cs_bytes c m) (cs_channel s)"
  obtain ps where ps: "feed [] ps (cs_channel s) = cs_channel s"
      "concat ps = concat (map (cs_bytes c) ms)" "quiet (ch_conn (cs_channel s))"
      "writable (ch_conn (cs_channel s))"
    using assms(2) holdsE unfolding cs_ready_def by blast
  have "[] @ concat ps = concat (map (cs_bytes c) ms)" "incomplete [] (map (cs_bytes c) ms)"
      "quiet (ch_conn ?ch)"
    using ps by (simp_all add: incomplete_def)
  from cs.execute_exchange[OF cs_bytes_all[OF assms(1)] this assms(4), where w = w]
  obtain ps' where run: "execute w c (cs_protocol c blake2b) (t\<lparr>cs_channel := feed [] ps ?ch\<rparr>) =
      Some (Ready (Inr ()), t'\<lparr>cs_channel := feed [] ps' ?ch\<rparr>)" "concat ps' = []"
    by auto
  have "holds [] (feed [] ps' ?ch)"
    using holds_feed[of ?ch ps'] ps(3,4) run(2) by simp
  moreover have "cs_state s = CsIdle" using assms(2) by (simp add: cs_ready_def)
  ultimately show thesis
    using that cs_requests[OF assms(1,3) _ ps(1,4)] run by simp
qed

text \<open>Where an answered query leaves the channel.\<close>

definition cs_settled :: "wire \<Rightarrow> cbor \<Rightarrow> cs_message \<Rightarrow> chain_sync \<Rightarrow> chain_sync \<Rightarrow> bool" where
  "cs_settled w c m s t \<longleftrightarrow> cs_ready [] t \<and>
     (\<exists>ps'. cs_channel t = feed [] ps' (sent w (cs_bytes c m) (cs_channel s)) \<and> concat ps' = [])"

lemma cs_settledD:
  assumes "cs_settled w c m s t"
  shows "cs_ready [] t"
    "cn_sent (ch_conn (cs_channel t)) = cn_sent (ch_conn (sent w (cs_bytes c m) (cs_channel s)))"
  using assms by (auto simp: cs_settled_def)

lemma request_next_run:
  assumes "cbor_stream c"
    and "cs_ready (concat (map (cs_bytes c) (replicate n AwaitReply @ [m]))) s"
    and "reply_of c blake2b m = Some r"
  shows "\<exists>t. request_next w c blake2b s = Some (Ready (Inr r), t) \<and> cs_settled w c RequestNext s t"
proof -
  let ?t = "s\<lparr>cs_query := Some QueryReply, cs_state := CanAwait\<rparr>"
  have send: "cs_send (s\<lparr>cs_query := Some QueryReply\<rparr>) = (Inr RequestNext, ?t)"
    using assms(2) by (simp add: cs_send_def cs_ready_def)
  have "cs.exchange c blake2b (replicate n AwaitReply @ [m]) ?t
      (?t\<lparr>cs_reply := Some r, cs_query := None, cs_state := CsIdle\<rparr>)"
    by (rule cs_exchange_reply[OF _ _ assms(3)]) simp_all
  from cs_answered[OF assms(1,2) send this, where w = w]
  obtain ps' ch where run: "execute w c (cs_protocol c blake2b) (s\<lparr>cs_query := Some QueryReply\<rparr>) =
      Some (Ready (Inr ()), ?t\<lparr>cs_reply := Some r, cs_query := None, cs_state := CsIdle,
        cs_channel := ch\<rparr>)"
    "holds [] ch" "ch = feed [] ps' (sent w (cs_bytes c RequestNext) (cs_channel s))" "concat ps' = []"
    by blast
  let ?u = "s\<lparr>cs_query := None, cs_reply := None, cs_state := CsIdle, cs_channel := ch\<rparr>"
  have "request_next w c blake2b s = Some (Ready (Inr r), ?u)"
    using run(1) by (simp add: request_next_def bind_t_def sync_t_def cs_take_reply_def)
  moreover have "cs_settled w c RequestNext s ?u"
    using run(2-4) assms(2) by (auto simp: cs_settled_def cs_ready_def)
  ultimately show ?thesis by blast
qed

lemma find_intersect_run:
  assumes "cbor_stream c" and "cs_ready (cs_bytes c m) s" and "intersect_of m = Some i"
  shows "\<exists>t. find_intersect w c blake2b points s = Some (Ready (Inr i), t) \<and>
    cs_settled w c (FindIntersect points) s t"
proof -
  let ?t = "s\<lparr>cs_query := Some (QueryIntersect points), cs_state := CsIntersect\<rparr>"
  have one: "cs_ready (concat (map (cs_bytes c) [m])) s" using assms(2) by simp
  have send: "cs_send (s\<lparr>cs_query := Some (QueryIntersect points)\<rparr>) = (Inr (FindIntersect points), ?t)"
    using assms(2) by (simp add: cs_send_def cs_ready_def)
  have "cs.exchange c blake2b [m] ?t
      (?t\<lparr>cs_intersect := Some i, cs_query := None, cs_state := CsIdle\<rparr>)"
    by (simp add: cs_agency_def cs_recv_intersect[OF assms(3)])
  from cs_answered[OF assms(1) one send this, where w = w]
  obtain ps' ch where run: "execute w c (cs_protocol c blake2b)
        (s\<lparr>cs_query := Some (QueryIntersect points)\<rparr>) =
      Some (Ready (Inr ()), ?t\<lparr>cs_intersect := Some i, cs_query := None, cs_state := CsIdle,
        cs_channel := ch\<rparr>)"
    "holds [] ch" "ch = feed [] ps' (sent w (cs_bytes c (FindIntersect points)) (cs_channel s))"
    "concat ps' = []"
    by blast
  let ?u = "s\<lparr>cs_query := None, cs_intersect := None, cs_state := CsIdle, cs_channel := ch\<rparr>"
  have "find_intersect w c blake2b points s = Some (Ready (Inr i), ?u)"
    using run(1) by (simp add: find_intersect_def bind_t_def sync_t_def cs_take_intersect_def)
  moreover have "cs_settled w c (FindIntersect points) s ?u"
    using run(2-4) assms(2) by (auto simp: cs_settled_def cs_ready_def)
  ultimately show ?thesis by blast
qed

text \<open>
  The server answers a request with a header or a rollback, after it has asked for patience
  any number of times, and these messages arrive cut in any way: \<open>request_next\<close> returns exactly
  that answer, having sent one \<open>RequestNext\<close>, and the client is ready for the next query.
\<close>

theorem request_next_answers:
  assumes "cbor_stream c"
    and "cs_ready (concat (map (cs_bytes c) (replicate n AwaitReply @ [m]))) s"
    and "reply_of c blake2b m = Some r"
  shows "\<exists>t. request_next w c blake2b s = Some (Ready (Inr r), t) \<and> cs_ready [] t \<and>
    cn_sent (ch_conn (cs_channel t)) =
      cn_sent (ch_conn (sent w (cs_bytes c RequestNext) (cs_channel s)))"
  using request_next_run[OF assms] cs_settledD by blast

definition sample_hash :: "nat \<Rightarrow> byte list \<Rightarrow> byte list" where
  "sample_hash n data = replicate n (word_of_nat (length data))"

definition sample_header :: block_header where
  "sample_header = \<lparr>bh_block_number = 7, bh_slot_number = - 5, bh_hash = [], bh_prev_hash = [1],
     bh_node_vkey = [2], bh_node_vrf_vkey = [3], bh_eta_vrf_0 = [4], bh_eta_vrf_1 = [5],
     bh_leader_vrf_0 = [6], bh_leader_vrf_1 = [7], bh_block_size = 1024,
     bh_block_body_hash = [8], bh_pool_opcert = [9], bh_unknown_0 = 0, bh_unknown_1 = 1,
     bh_unknown_2 = [], bh_protocol_major_version = 6, bh_protocol_minor_version = 0\<rparr>"

lemma sample_header_wrapped:
  obtains w where "header_of_wrapped sample_cbor sample_hash w =
      Inr (sample_header\<lparr>bh_hash := replicate 32 109\<rparr>)" "length (wh_bytes w) = 109"
proof -
  obtain w where w: "wrapped_of_header sample_cbor sample_header = Inr w"
    "header_of_wrapped sample_cbor sample_hash w =
      Inr (sample_header\<lparr>bh_hash := header_hash sample_hash w\<rparr>)"
    by (rule header_wrap_unwrap[OF sample_cbor_slice])
  from w(1) have n: "length (wh_bytes w) = 109"
    by (auto simp: wrapped_of_header_def sample_header_def sample_cbor_def header_to_values_def)
  with w(2) that show thesis by (simp add: header_hash_def sample_hash_def)
qed

definition sample_sync :: "payload list \<Rightarrow> chain_sync" where
  "sample_sync ps =
     \<lparr>cs_channel = sample_channel 2 ps, cs_query = None, cs_intersect = None, cs_reply = None,
      cs_state = CsIdle\<rparr>"

definition sample_tip :: tip where
  "sample_tip = \<lparr>tip_block_number = 7, tip_slot_number = 99, tip_hash = [5]\<rparr>"

lemma sample_sync_ready: "cs_ready (concat ps) (sample_sync ps)"
  by (simp add: cs_ready_def sample_sync_def holds_def quiet_def writable_def sample_channel_def
      sample_connection_def connection_new_def)

theorem request_next_answers_witness:
  "\<exists>t. request_next sample_wire sample_cbor sample_hash
      (sample_sync [cs_bytes sample_cbor AwaitReply,
         cs_bytes sample_cbor (RollBackward (point_of_tip sample_tip) sample_tip)]) =
    Some (Ready (Inr (Backward (point_of_tip sample_tip) sample_tip)), t)"
  using request_next_answers[OF sample_cbor_stream, of 1
      "RollBackward (point_of_tip sample_tip) sample_tip" "sample_sync
        [cs_bytes sample_cbor AwaitReply,
         cs_bytes sample_cbor (RollBackward (point_of_tip sample_tip) sample_tip)]"
      sample_hash "Backward (point_of_tip sample_tip) sample_tip" sample_wire]
    sample_sync_ready[of "[cs_bytes sample_cbor AwaitReply,
         cs_bytes sample_cbor (RollBackward (point_of_tip sample_tip) sample_tip)]"]
  by auto

text \<open>
  The server answers a search for a common point, cut in any way: \<open>find_intersect\<close> sends
  the points in one \<open>FindIntersect\<close> and returns exactly that answer, and the client is ready
  for the next query.
\<close>

theorem find_intersect_answers:
  assumes "cbor_stream c" and "cs_ready (cs_bytes c m) s" and "intersect_of m = Some i"
  shows "\<exists>t. find_intersect w c blake2b points s = Some (Ready (Inr i), t) \<and> cs_ready [] t \<and>
    cn_sent (ch_conn (cs_channel t)) =
      cn_sent (ch_conn (sent w (cs_bytes c (FindIntersect points)) (cs_channel s)))"
  using find_intersect_run[OF assms] cs_settledD by blast

theorem find_intersect_answers_witness:
  "\<exists>t. find_intersect sample_wire sample_cbor sample_hash [point_of_tip sample_tip]
      (sample_sync [cs_bytes sample_cbor (IntersectNotFound sample_tip)]) =
    Some (Ready (Inr (NotFound sample_tip)), t)"
  using find_intersect_answers[OF sample_cbor_stream, of "IntersectNotFound sample_tip"
      "sample_sync [cs_bytes sample_cbor (IntersectNotFound sample_tip)]" "NotFound sample_tip"]
    sample_sync_ready[of "[cs_bytes sample_cbor (IntersectNotFound sample_tip)]"]
  by fastforce

section \<open>A whole session\<close>

datatype cs_call = CallNext | CallFind "point list"

datatype cs_answer = Replied reply | Intersected intersect

definition cs_call_run :: "wire \<Rightarrow> cbor \<Rightarrow> (nat \<Rightarrow> byte list \<Rightarrow> byte list) \<Rightarrow> cs_call \<Rightarrow>
    (chain_sync, error, cs_answer) task" where
  "cs_call_run w c blake2b call = (case call of
       CallNext \<Rightarrow> bind_t (request_next w c blake2b) (\<lambda>r. sync_t (ret_s (Replied r)))
     | CallFind points \<Rightarrow>
         bind_t (find_intersect w c blake2b points) (\<lambda>i. sync_t (ret_s (Intersected i))))"

text \<open>
  The calls of a user one after the other, each with the payloads that arrive before it
  returns: the answers, in order.
\<close>

fun cs_session :: "wire \<Rightarrow> cbor \<Rightarrow> (nat \<Rightarrow> byte list \<Rightarrow> byte list) \<Rightarrow> (cs_call \<times> payload list) list \<Rightarrow>
    (chain_sync, error, cs_answer list) task" where
  "cs_session w c blake2b [] s = Some (Ready (Inr []), s)"
| "cs_session w c blake2b ((call, ps) # calls) s =
     bind_t (cs_call_run w c blake2b call) (\<lambda>answer.
     bind_t (cs_session w c blake2b calls) (\<lambda>answers.
     sync_t (ret_s (answer # answers))))
       (s\<lparr>cs_channel := arrive ps (cs_channel s)\<rparr>)"

text \<open>What a server that follows the protocol sends for a call, and what it means.\<close>

inductive cs_serves :: "cbor \<Rightarrow> (nat \<Rightarrow> byte list \<Rightarrow> byte list) \<Rightarrow> cs_call \<Rightarrow> byte list \<Rightarrow>
    cs_answer \<Rightarrow> bool" for c blake2b where
  reply: "reply_of c blake2b m = Some r \<Longrightarrow> cs_serves c blake2b CallNext
    (concat (map (cs_bytes c) (replicate n AwaitReply @ [m]))) (Replied r)"
| intersect: "intersect_of m = Some i \<Longrightarrow> cs_serves c blake2b (CallFind points)
    (cs_bytes c m) (Intersected i)"

lemma cs_call_answers:
  assumes "cbor_stream c" and "cs_serves c blake2b call data answer" and "cs_ready data s"
  shows "\<exists>t. cs_call_run w c blake2b call s = Some (Ready (Inr answer), t) \<and> cs_ready [] t"
  using assms(2,3)
proof cases
  case (reply m r n)
  then obtain t where "request_next w c blake2b s = Some (Ready (Inr r), t)" "cs_ready [] t"
    using request_next_run[OF assms(1)] assms(3) cs_settledD(1) by blast
  with reply show ?thesis by (simp add: cs_call_run_def exec)
next
  case (intersect m i points)
  then obtain t where "find_intersect w c blake2b points s = Some (Ready (Inr i), t)" "cs_ready [] t"
    using find_intersect_run[OF assms(1)] assms(3) cs_settledD(1) by blast
  with intersect show ?thesis by (simp add: cs_call_run_def exec)
qed

lemma cs_ready_arrive:
  "cs_ready [] s \<Longrightarrow> cs_ready (concat ps) (s\<lparr>cs_channel := arrive ps (cs_channel s)\<rparr>)"
  using holds_arrive[of "[]" "cs_channel s" ps] by (simp add: cs_ready_def)

text \<open>
  A user who follows the chain gets the server's answers, all of them and in order, over
  any sequence of queries and any framing of the bytes.
\<close>

theorem cs_session_faithful:
  assumes "cbor_stream c" and "cs_ready [] s"
    and "list_all2 (\<lambda>(call, ps) answer. cs_serves c blake2b call (concat ps) answer) calls answers"
  shows "\<exists>t. cs_session w c blake2b calls s = Some (Ready (Inr answers), t) \<and> cs_ready [] t"
  using assms(3,2)
proof (induction calls answers arbitrary: s rule: list_all2_induct)
  case Nil
  then show ?case by simp
next
  case (Cons call calls answer answers)
  obtain q ps where call: "call = (q, ps)" by (cases call)
  with Cons.hyps(1) have "cs_serves c blake2b q (concat ps) answer" by simp
  from cs_call_answers[OF assms(1) this cs_ready_arrive[OF Cons.prems], where w = w]
  obtain t where t: "cs_call_run w c blake2b q (s\<lparr>cs_channel := arrive ps (cs_channel s)\<rparr>) =
      Some (Ready (Inr answer), t)" "cs_ready [] t"
    by blast
  from Cons.IH[OF t(2)] obtain u where
    "cs_session w c blake2b calls t = Some (Ready (Inr answers), u)" "cs_ready [] u"
    by blast
  with t show ?case by (simp add: call exec)
qed

theorem cs_session_faithful_witness:
  "\<exists>t. cs_session sample_wire sample_cbor sample_hash
      [(CallFind [], [cs_bytes sample_cbor (IntersectNotFound sample_tip)]),
       (CallNext, [cs_bytes sample_cbor (RollBackward (point_of_tip sample_tip) sample_tip)])]
      (sample_sync []) =
    Some (Ready (Inr [Intersected (NotFound sample_tip),
      Replied (Backward (point_of_tip sample_tip) sample_tip)]), t) \<and> cs_ready [] t"
proof (rule cs_session_faithful[OF sample_cbor_stream])
  show "cs_ready [] (sample_sync [])" using sample_sync_ready[of "[]"] by simp
  have "cs_serves sample_cbor sample_hash CallNext
      (cs_bytes sample_cbor (RollBackward (point_of_tip sample_tip) sample_tip))
      (Replied (Backward (point_of_tip sample_tip) sample_tip))"
    using cs_serves.reply[of sample_cbor sample_hash
        "RollBackward (point_of_tip sample_tip) sample_tip" _ 0] by simp
  then show "list_all2 (\<lambda>(call, ps) answer. cs_serves sample_cbor sample_hash call (concat ps) answer)
      [(CallFind [], [cs_bytes sample_cbor (IntersectNotFound sample_tip)]),
       (CallNext, [cs_bytes sample_cbor (RollBackward (point_of_tip sample_tip) sample_tip)])]
      [Intersected (NotFound sample_tip), Replied (Backward (point_of_tip sample_tip) sample_tip)]"
    by (simp add: cs_serves.intersect)
qed

section \<open>What the state machine accepts\<close>

text \<open>
  C22. On every message the protocol permits, \<open>recv\<close> takes the protocol's transition and keeps
  the answer the message carries; the only failure is a header that does not decode, and it
  changes nothing.
\<close>

theorem cs_recv_simulates:
  assumes "cs_step (cs_state s) m q"
  shows "case cs_recv c blake2b m s of
      (Inr _, s') \<Rightarrow> cs_state s' = q \<and>
        cs_query s' = (if q = CsIdle then None else cs_query s) \<and>
        cs_reply s' = (case reply_of c blake2b m of None \<Rightarrow> cs_reply s | r \<Rightarrow> r) \<and>
        cs_intersect s' = (case intersect_of m of None \<Rightarrow> cs_intersect s | i \<Rightarrow> i) \<and>
        cs_channel s' = cs_channel s
    | (Inl f, s') \<Rightarrow> s' = s \<and>
        (\<exists>header tip. m = RollForward header tip \<and> header_of_wrapped c blake2b header = Inl f)"
  using assms by (cases m) (auto split: sum.split)

theorem cs_recv_simulates_witness:
  "case cs_recv sample_cbor sample_hash AwaitReply ((sample_sync [])\<lparr>cs_state := CanAwait\<rparr>) of
      (Inr _, s') \<Rightarrow> cs_state s' = MustReply
    | (Inl f, s') \<Rightarrow> False"
  using cs_recv_simulates[of "(sample_sync [])\<lparr>cs_state := CanAwait\<rparr>" AwaitReply MustReply
      sample_cbor sample_hash] by simp

text \<open>
  \<open>recv\<close> does not look at the state it is in: whatever the state was, each message has the
  same result and leads to the same state, so that answers nobody asked for are accepted.
\<close>

lemma cs_recv_any_state:
  "cs_recv c blake2b m (s\<lparr>cs_state := q\<rparr>) = (case cs_recv c blake2b m s of
     (Inr u, t) \<Rightarrow> (Inr u, t)
   | (Inl f, t) \<Rightarrow> (Inl f, s\<lparr>cs_state := q\<rparr>))"
  by (cases m) (simp_all split: sum.split)

section \<open>Servers that do not follow the protocol\<close>

text \<open>A failure of a query's first message ends the query with it.\<close>

lemma cs_rejected:
  assumes "cbor_stream c" and "cs_ready (cs_bytes c m @ rest) s"
    and "cs_send (s\<lparr>cs_query := Some q\<rparr>) = (Inr request, t)" and "cs_agency t = Server"
    and "unwrap_s (cs_recv c blake2b m) t = (Inl f, u)"
  shows "\<exists>ch. execute w c (cs_protocol c blake2b) (s\<lparr>cs_query := Some q\<rparr>) =
    Some (Ready (Inl f), u\<lparr>cs_channel := ch\<rparr>)"
proof -
  obtain vs where vs: "cs_from_iter vs = Inr m" "stream_code c vs (cs_bytes c m)"
    using cs_bytes_encodes(2)[OF assms(1)] unfolding encodes_def cs_protocol_sel by blast
  obtain ps where ps: "feed [] ps (cs_channel s) = cs_channel s"
      "concat ps = cs_bytes c m @ rest" "quiet (ch_conn (cs_channel s))"
      "writable (ch_conn (cs_channel s))"
    using assms(2) holdsE unfolding cs_ready_def by blast
  have "cs.handle c blake2b vs t = (Inl f, u)" by (simp add: cs.handle_def vs(1) assms(5))
  from cs.execute_rejects[OF vs(2) _ _ _ _ _ this, where l = "[]" and ps = ps and rest = rest
      and ch = "sent w (cs_bytes c request) (cs_channel s)" and w = w]
  show ?thesis
    using cs_requests[OF assms(1,3) _ ps(1,4)] assms(2,4) ps(2,3) stream_codeD(1)[OF vs(2)]
    by (auto simp: cs_ready_def)
qed

text \<open>
  A header that does not decode is not reported as an error of \<open>request_next\<close>: the client
  panics.
\<close>

theorem request_next_bad_header:
  assumes "cbor_stream c" and "cs_ready (cs_bytes c (RollForward header tip) @ rest) s"
    and "header_of_wrapped c blake2b header = Inl (Error e)"
  shows "\<exists>t. request_next w c blake2b s = Some (Ready (Inl (Panic UnwrapPanic)), t)"
proof -
  let ?t = "s\<lparr>cs_query := Some QueryReply, cs_state := CanAwait\<rparr>"
  have "cs_send (s\<lparr>cs_query := Some QueryReply\<rparr>) = (Inr RequestNext, ?t)"
    using assms(2) by (simp add: cs_send_def cs_ready_def)
  from cs_rejected[OF assms(1,2) this, of blake2b "Panic UnwrapPanic" ?t w] assms(3)
  show ?thesis
    by (auto simp: request_next_def bind_t_def cs_agency_def unwrap_s_def)
qed

theorem request_next_bad_header_witness:
  "\<exists>t. request_next sample_wire sample_cbor sample_hash
      (sample_sync [cs_bytes sample_cbor (RollForward \<lparr>wh_bytes = []\<rparr> sample_tip)]) =
    Some (Ready (Inl (Panic UnwrapPanic)), t)"
proof (rule request_next_bad_header[OF sample_cbor_stream])
  show "cs_ready (cs_bytes sample_cbor (RollForward \<lparr>wh_bytes = []\<rparr> sample_tip) @ [])
      (sample_sync [cs_bytes sample_cbor (RollForward \<lparr>wh_bytes = []\<rparr> sample_tip)])"
    using sample_sync_ready[of "[cs_bytes sample_cbor (RollForward \<lparr>wh_bytes = []\<rparr> sample_tip)]"]
    by simp
  show "header_of_wrapped sample_cbor sample_hash \<lparr>wh_bytes = []\<rparr> = Inl (Error (ErrLib ''invalid''))"
    by (simp add: header_of_wrapped_def sample_cbor_def sample_from_slice_def)
qed

text \<open>
  An answer of the wrong kind is taken for the end of the query, which then has nothing to
  return: \<open>request_next\<close> panics when the server reports an intersection.
\<close>

theorem request_next_wrong_kind:
  assumes "cbor_stream c" and "cs_ready (cs_bytes c m) s" and "intersect_of m = Some i"
  shows "\<exists>t. request_next w c blake2b s = Some (Ready (Inl (Panic UnwrapPanic)), t) \<and>
    cs_intersect t = Some i"
proof -
  let ?t = "s\<lparr>cs_query := Some QueryReply, cs_state := CanAwait\<rparr>"
  have send: "cs_send (s\<lparr>cs_query := Some QueryReply\<rparr>) = (Inr RequestNext, ?t)"
    using assms(2) by (simp add: cs_send_def cs_ready_def)
  have "cs.exchange c blake2b [m] ?t
      (?t\<lparr>cs_intersect := Some i, cs_query := None, cs_state := CsIdle\<rparr>)"
    by (simp add: cs_agency_def cs_recv_intersect[OF assms(3)])
  from cs_answered[OF assms(1) _ send this, where w = w] show ?thesis
    using assms(2)
    by (force simp: request_next_def bind_t_def sync_t_def cs_take_reply_def cs_ready_def)
qed

theorem request_next_wrong_kind_witness:
  "\<exists>t. request_next sample_wire sample_cbor sample_hash
      (sample_sync [cs_bytes sample_cbor (IntersectNotFound sample_tip)]) =
    Some (Ready (Inl (Panic UnwrapPanic)), t) \<and> cs_intersect t = Some (NotFound sample_tip)"
  using request_next_wrong_kind[OF sample_cbor_stream, of "IntersectNotFound sample_tip"
      "sample_sync [cs_bytes sample_cbor (IntersectNotFound sample_tip)]" "NotFound sample_tip"]
    sample_sync_ready[of "[cs_bytes sample_cbor (IntersectNotFound sample_tip)]"]
  by fastforce

text \<open>
  Two answers in one frame: the loop over the frame goes on after the first has ended the
  query, and the second overwrites it. The first is lost without an error.
\<close>

theorem request_next_two_answers:
  assumes "cbor_stream c" and "cs_ready (cs_bytes c m @ cs_bytes c m') s"
    and "cn_channels (ch_conn (cs_channel s)) (ch_idx (cs_channel s)) =
      Some [cs_bytes c m @ cs_bytes c m']"
    and "reply_of c blake2b m = Some r" and "reply_of c blake2b m' = Some r'"
  shows "\<exists>t. request_next w c blake2b s = Some (Ready (Inr r'), t) \<and> cs_ready [] t"
proof -
  let ?t = "s\<lparr>cs_query := Some QueryReply, cs_state := CanAwait\<rparr>"
  let ?u = "?t\<lparr>cs_reply := Some r', cs_query := None, cs_state := CsIdle\<rparr>"
  let ?ch = "sent w (cs_bytes c RequestNext) (cs_channel s)"
  let ?frame = "cs_bytes c m @ cs_bytes c m'"
  have send: "cs_send (s\<lparr>cs_query := Some QueryReply\<rparr>) = (Inr RequestNext, ?t)"
    and ch: "feed [] [?frame] (cs_channel s) = cs_channel s" "quiet (ch_conn (cs_channel s))"
      "writable (ch_conn (cs_channel s))"
    using assms(2) feed_exists[OF assms(3)] by (auto simp: cs_send_def cs_ready_def holds_def)
  have "process (cs_protocol c blake2b) [m, m'] ?t = (Inr (), ?u)"
    by (simp add: bind_s_def unwrap_s_def cs_recv_reply[OF assms(4)] cs_recv_reply[OF assms(5)])
  from cs.execute_frame[OF cs_bytes_all[OF assms(1), of blake2b "[m, m']"] _ _ _ _ this,
      where p = ?frame and ch = ?ch and ps = "[]" and w = w]
  have "execute w c (cs_protocol c blake2b) (?t\<lparr>cs_channel := feed [] [?frame] ?ch\<rparr>) =
      Some (Ready (Inr ()), ?u\<lparr>cs_channel := feed [] [] ?ch\<rparr>)"
    using ch(2) by (simp add: cs_agency_def cs.execute_stop)
  moreover have "holds [] (feed [] [] ?ch)"
    using holds_feed[of ?ch "[]"] ch(2,3) by simp
  ultimately show ?thesis
    using cs_requests[OF assms(1) send _ ch(1,3), where blake2b = blake2b and w = w] assms(2)
    by (simp add: request_next_def bind_t_def sync_t_def cs_take_reply_def cs_ready_def)
qed

theorem request_next_two_answers_witness:
  "\<exists>t. request_next sample_wire sample_cbor sample_hash
      (sample_sync [cs_bytes sample_cbor (RollBackward (point_of_bytes (1, [])) sample_tip) @
         cs_bytes sample_cbor (RollBackward (point_of_bytes (2, [])) sample_tip)]) =
    Some (Ready (Inr (Backward (point_of_bytes (2, [])) sample_tip)), t) \<and> cs_ready [] t"
proof -
  let ?m = "\<lambda>n. RollBackward (point_of_bytes (n, [])) sample_tip"
  let ?frame = "cs_bytes sample_cbor (?m 1) @ cs_bytes sample_cbor (?m 2)"
  show ?thesis
    by (rule request_next_two_answers[OF sample_cbor_stream, where m = "?m 1" and m' = "?m 2"
          and r = "Backward (point_of_bytes (1, [])) sample_tip"])
      (use sample_sync_ready[of "[?frame]"] in \<open>simp_all add: sample_sync_def\<close>)
qed

section \<open>What the reader accepts\<close>

text \<open>
  C31. Every message of the protocol survives its encoding: the values written for it are
  read back as the same message.
\<close>

theorem cs_message_round_trip:
  "\<exists>vs. cs_to_values m = Inr vs \<and> cs_from_iter vs = Inr m"
  using cs_round_trip[of m undefined] by blast

text \<open>
  The loop over the points of \<open>FindIntersect\<close> ends at the first element that is no array,
  which it has then consumed: one such element at the end of the list is dropped without an
  error, though \<open>end\<close> is meant to refuse it.
\<close>

theorem find_intersect_drops_element:
  "cs_from_iter [Integer 4, Array (map (\<lambda>p. Array (point_to_vec p)) points @ [Integer n])] =
     Inr (FindIntersect points)"
proof -
  have "cs_points acc (map (\<lambda>p. Array (point_to_vec p)) points @ [Integer n]) =
      (Inr (acc @ points), [])" for acc
    by (induction points arbitrary: acc) (simp_all add: cs_points.simps[of _ "[Integer n]"] exec)
  then show ?thesis by (simp add: cs_from_iter_def exec)
qed

end
