(* ===== verification/Block_Fetch_Facts.thy ===== *)
theory Block_Fetch_Facts
  imports Block_Fetch Cbor_Sample "HOL-Library.Product_Lexorder"
begin

text \<open>
  What the block fetch client guarantees: it follows the state machine of the protocol and
  nothing else, and the blocks of a batch come out in order, whatever frames carried them.
\<close>

section \<open>Shape of the reply\<close>

definition batch :: "byte list list \<Rightarrow> bf_message list" where
  "batch bs = map Block bs @ [BatchDone]"

lemma bf_protocol_sel [simp]:
  "pr_role (bf_protocol c) s = Client"
  "pr_agency (bf_protocol c) s = bf_agency s"
  "pr_send (bf_protocol c) = bf_send"
  "pr_recv (bf_protocol c) = bf_recv"
  "pr_from_iter (bf_protocol c) = bf_from_iter"
  "pr_to_bytes (bf_protocol c) = message_to_bytes c bf_to_values"
  "pr_channel (bf_protocol c) = bf_channel"
  "pr_set_channel (bf_protocol c) ch s = s\<lparr>bf_channel := ch\<rparr>"
  by (simp_all add: bf_protocol_def)

text \<open>The channel is a field apart: its update is kept outermost.\<close>

lemma bf_channel_out [simp]:
  "s\<lparr>bf_channel := ch, bf_config := x1\<rparr> = s\<lparr>bf_config := x1, bf_channel := ch\<rparr>"
  "s\<lparr>bf_channel := ch, bf_state := x2\<rparr> = s\<lparr>bf_state := x2, bf_channel := ch\<rparr>"
  "s\<lparr>bf_channel := ch, bf_result := x3\<rparr> = s\<lparr>bf_result := x3, bf_channel := ch\<rparr>"
  "s\<lparr>bf_channel := ch, bf_running := x4\<rparr> = s\<lparr>bf_running := x4, bf_channel := ch\<rparr>"
  "s\<lparr>bf_channel := ch, bf_done := x5\<rparr> = s\<lparr>bf_done := x5, bf_channel := ch\<rparr>"
  by simp_all

lemma bf_encodes:
  assumes "cbor_stream c"
  obtains bs where "pr_to_bytes (bf_protocol c) m = Inr bs" "encodes c (bf_protocol c) m bs"
  using bf_msg.bytes_round_trip[OF assms, of m] unfolding encodes_def bf_protocol_sel by blast

text \<open>The bytes the client's peer writes for a message.\<close>

definition bf_bytes :: "cbor \<Rightarrow> bf_message \<Rightarrow> byte list" where
  "bf_bytes c m = (case pr_to_bytes (bf_protocol c) m of Inr bs \<Rightarrow> bs | Inl _ \<Rightarrow> [])"

lemma bf_bytes_encodes:
  assumes "cbor_stream c"
  shows "pr_to_bytes (bf_protocol c) m = Inr (bf_bytes c m)"
    and "encodes c (bf_protocol c) m (bf_bytes c m)"
proof -
  obtain bs where "pr_to_bytes (bf_protocol c) m = Inr bs" "encodes c (bf_protocol c) m bs"
    using bf_encodes[OF assms] by blast
  then show "pr_to_bytes (bf_protocol c) m = Inr (bf_bytes c m)"
    and "encodes c (bf_protocol c) m (bf_bytes c m)"
    by (simp_all add: bf_bytes_def)
qed

lemma bf_bytes_all:
  "cbor_stream c \<Longrightarrow> list_all2 (encodes c (bf_protocol c)) ms (map (bf_bytes c) ms)"
  by (simp add: list_all2_map2 list_all2_same bf_bytes_encodes)

section \<open>Processing a batch\<close>

lemma bf_process_blocks:
  "bf_state s = BfStreaming \<Longrightarrow>
    process (bf_protocol c) (map Block bs) s =
      (Inr (), s\<lparr>bf_running := (bs = [] \<and> bf_running s), bf_result := bf_result s @ bs\<rparr>)"
proof (induction bs arbitrary: s)
  case Nil
  then show ?case by simp
next
  case (Cons b bs)
  then have "bf_recv (Block b) s = (Inr (), s\<lparr>bf_running := False, bf_result := bf_result s @ [b]\<rparr>)"
    by (cases s) (simp add: bf_recv_def)
  with Cons show ?case by (simp add: exec)
qed

lemma bf_process_batch:
  "bf_state s = BfStreaming \<Longrightarrow>
    process (bf_protocol c) (batch bs) s =
      (Inr (), s\<lparr>bf_running := False, bf_state := BfIdle, bf_result := bf_result s @ bs\<rparr>)"
  unfolding batch_def process_append
  by (simp add: bind_s_def bf_process_blocks unwrap_s_def bf_recv_def)

lemma take_batch:
  "k \<le> length bs \<Longrightarrow> take k (batch bs) = map Block (take k bs)"
  "k = Suc (length bs) \<Longrightarrow> take k (batch bs) = batch bs"
  by (simp_all add: batch_def take_map)

lemma drop_batch: "k \<le> length bs \<Longrightarrow> drop k (batch bs) = batch (drop k bs)"
  by (simp add: batch_def drop_map)

lemma length_batch [simp]: "length (batch bs) = Suc (length bs)"
  by (simp add: batch_def)

lemma batch_peer_speaks:
  assumes "bf_state s = BfStreaming"
  shows "bf.peer_speaks c (batch bs) s"
  unfolding bf.peer_speaks_def
proof (intro allI impI)
  fix k
  assume "k \<le> length (batch bs)"
  then consider "k \<le> length bs" | "k = Suc (length bs)" by fastforce
  then show "\<exists>t. process (bf_protocol c) (take k (batch bs)) s = (Inr (), t) \<and>
      (pr_agency (bf_protocol c) t = NoAgency \<or>
       pr_agency (bf_protocol c) t \<noteq> pr_role (bf_protocol c) t) \<and>
      (k = length (batch bs) \<longrightarrow> pr_agency (bf_protocol c) t = NoAgency)"
    by cases (use assms in \<open>auto simp: take_batch bf_process_blocks bf_process_batch bf_agency_def\<close>)
qed

section \<open>Taking the blocks\<close>

lemma bf_collect_step:
  assumes "bf_next w c s = Some (Ready (Inr (Some b)), t)"
  shows "bf_collect w c acc s = bf_collect w c (acc @ [b]) t"
  using assms by (simp add: bf_collect.simps[of w c acc s])

lemma bf_collect_end:
  assumes "bf_next w c s = Some (Ready (Inr None), t)"
  shows "bf_collect w c acc s = Some (Ready (Inr acc), t)"
  using assms by (simp add: bf_collect.simps[of w c acc s])

lemma bf_next_queued:
  "bf_result s = b # bs \<Longrightarrow> bf_next w c s = Some (Ready (Inr (Some b)), s\<lparr>bf_result := bs\<rparr>)"
  by (simp add: bf_next_def sync_t_def bf_take_def)

lemma bf_collect_idle:
  "bf_state s = BfIdle \<Longrightarrow>
    bf_collect w c acc s = Some (Ready (Inr (acc @ bf_result s)), s\<lparr>bf_result := []\<rparr>)"
proof (induction "bf_result s" arbitrary: s acc)
  case Nil
  then have "bf_next w c s = Some (Ready (Inr None), s)" by (simp add: bf_next_def)
  with Nil show ?case by (cases s) (simp add: bf_collect_end)
next
  case (Cons b bs)
  from Cons.hyps(1)[of "s\<lparr>bf_result := bs\<rparr>" "acc @ [b]"] Cons.prems Cons.hyps(2)
  show ?case by (simp add: bf_collect_step[OF bf_next_queued[OF Cons.hyps(2)[symmetric]]])
qed

text \<open>
  One turn of the loop of \<open>execute\<close> on the rest of a batch: it takes at least one message,
  and either some of the blocks or all of them and the end of the batch.
\<close>

lemma bf_execute_batch:
  assumes "list_all2 (encodes c (bf_protocol c)) (batch bs) bss" and "l @ concat ps = concat bss"
    and "incomplete l bss" and "quiet (ch_conn ch)" and "bf_state s = BfStreaming" "bf_running s"
  obtains (some) k l' ps' where "0 < k" "k \<le> length bs"
      "l' @ concat ps' = concat (drop k bss)" "incomplete l' (drop k bss)"
      "execute w c (bf_protocol c) (s\<lparr>bf_channel := feed l ps ch\<rparr>) = Some (Ready (Inr ()),
         s\<lparr>bf_running := False, bf_result := bf_result s @ take k bs, bf_channel := feed l' ps' ch\<rparr>)"
    | (all) l' ps' where "l' @ concat ps' = []"
      "execute w c (bf_protocol c) (s\<lparr>bf_channel := feed l ps ch\<rparr>) = Some (Ready (Inr ()),
         s\<lparr>bf_running := False, bf_state := BfIdle, bf_result := bf_result s @ bs,
           bf_channel := feed l' ps' ch\<rparr>)"
proof -
  obtain k l' ps' t where k: "k \<le> length (batch bs)"
      "process (bf_protocol c) (take k (batch bs)) s = (Inr (), t)" "bf_agency t = NoAgency"
      "l' @ concat ps' = concat (drop k bss)" "incomplete l' (drop k bss)"
      "execute w c (bf_protocol c) (s\<lparr>bf_channel := feed l ps ch\<rparr>) =
        Some (Ready (Inr ()), t\<lparr>bf_channel := feed l' ps' ch\<rparr>)"
    using bf.execute_stream[OF assms(1-4) batch_peer_speaks[OF assms(5)], of w]
    unfolding bf_protocol_sel by blast
  have "0 < k" using k(2,3) assms(5,6) by (cases k) (auto simp: bf_agency_def)
  from k(1) consider "k \<le> length bs" | "k = Suc (length bs)" by fastforce
  then show thesis
  proof cases
    case 1
    then have "bs \<noteq> []" using \<open>0 < k\<close> by auto
    with 1 k(2) \<open>0 < k\<close> have "t = s\<lparr>bf_running := False, bf_result := bf_result s @ take k bs\<rparr>"
      by (auto simp: take_batch bf_process_blocks[OF assms(5)])
    with some[OF \<open>0 < k\<close> 1 k(4,5)] k(6) show thesis by simp
  next
    case 2
    with k(2) have "t = s\<lparr>bf_running := False, bf_state := BfIdle, bf_result := bf_result s @ bs\<rparr>"
      by (simp add: take_batch bf_process_batch[OF assms(5)])
    moreover have "drop k bss = []"
      using 2 list_all2_lengthD[OF assms(1)] by simp
    ultimately show thesis using all[of l' ps'] k(4,6) by simp
  qed
qed

lemma bf_collect_batch:
  assumes "list_all2 (encodes c (bf_protocol c)) (batch bs) bss" and "l @ concat ps = concat bss"
    and "incomplete l bss" and "quiet (ch_conn ch)" and "bf_state s = BfStreaming"
  shows "\<exists>l' ps'. l' @ concat ps' = [] \<and> bf_collect w c acc (s\<lparr>bf_channel := feed l ps ch\<rparr>) =
      Some (Ready (Inr (acc @ bf_result s @ bs)), s\<lparr>bf_running := False, bf_state := BfIdle,
        bf_result := [], bf_channel := feed l' ps' ch\<rparr>)"
  using assms
proof (induction "length (bf_result s) + 2 * length bs" arbitrary: s bs bss l ps acc
    rule: less_induct)
  case less
  let ?s = "s\<lparr>bf_channel := feed l ps ch\<rparr>"
  show ?case
  proof (cases "bf_result s")
    case (Cons b r)
    then have "bf_collect w c acc ?s = bf_collect w c (acc @ [b]) (?s\<lparr>bf_result := r\<rparr>)"
      by (simp add: bf_collect_step[OF bf_next_queued])
    with less.hyps[of "s\<lparr>bf_result := r\<rparr>" bs bss l ps "acc @ [b]"] less.prems Cons
    show ?thesis by simp
  next
    case Nil
    have run: "bf_state (s\<lparr>bf_running := True\<rparr>) = BfStreaming" "bf_running (s\<lparr>bf_running := True\<rparr>)"
      using less.prems(5) by simp_all
    from less.prems(1-4) run show ?thesis
    proof (cases rule: bf_execute_batch[where w = w])
      case (some k l' ps')
      then obtain b r where r: "take k bs = b # r" by (cases bs; cases k) auto
      let ?t = "s\<lparr>bf_running := False, bf_result := r\<rparr>"
      from some r Nil less.prems(5) have "bf_collect w c acc ?s =
          bf_collect w c (acc @ [b]) (?t\<lparr>bf_channel := feed l' ps' ch\<rparr>)"
        by (intro bf_collect_step) (simp add: bf_next_def bind_t_def sync_t_def bf_take_def)
      moreover have "list_all2 (encodes c (bf_protocol c)) (batch (drop k bs)) (drop k bss)"
        using list_all2_dropI[OF less.prems(1), of k] some(2) by (simp add: drop_batch)
      moreover have "length r < k" using arg_cong[OF r, of length] some(2) by simp
      moreover have "b # r @ drop k bs = bs" using r append_take_drop_id[of k bs] by simp
      ultimately show ?thesis
        using less.hyps[of ?t "drop k bs" "drop k bss" l' ps' "acc @ [b]"] some Nil less.prems(4,5)
        by auto
    next
      case (all l' ps')
      let ?t = "s\<lparr>bf_running := False, bf_state := BfIdle, bf_channel := feed l' ps' ch\<rparr>"
      show ?thesis
      proof (cases bs)
        case [simp]: Nil
        from all \<open>bf_result s = []\<close> less.prems(5) show ?thesis
          by (intro exI[of _ l'] exI[of _ ps'], subst bf_collect_end[where t = "?t\<lparr>bf_result := []\<rparr>"])
            (simp_all add: bf_next_def bind_t_def sync_t_def bf_take_def)
      next
        case (Cons b r)
        with all \<open>bf_result s = []\<close> less.prems(5) show ?thesis
          by (intro exI[of _ l'] exI[of _ ps'],
              subst bf_collect_step[where t = "?t\<lparr>bf_result := r\<rparr>" and b = b])
            (simp_all add: bf_next_def bind_t_def sync_t_def bf_take_def bf_collect_idle)
      qed
    qed
  qed
qed

section \<open>The loop over a stream ends\<close>

text \<open>
  A turn of the loop either takes a block from the result, or consumes some of the backlog
  of the channel: a lexicographic measure of the two decreases.
\<close>

lemma bf_next_returns:
  assumes "cbor_progress c"
  shows "\<exists>r. bf_next w c s = Some r"
proof -
  have "\<exists>r. bind_t (execute w c (bf_protocol c)) (\<lambda>_. sync_t bf_take) t = Some r" for t
    by (intro bind_t_returns sync_t_returns bf.execute_returns[OF assms])
  then show ?thesis
    by (cases "bf_state s") (auto simp: bf_next_def sync_t_def split: prod.split)
qed

lemma bf_take_channel: "bf_take s = (r, t) \<Longrightarrow> bf_channel t = bf_channel s"
  by (auto simp: bf_take_def split: list.splits)

lemma bf_next_progress:
  assumes "cbor_progress c" and "bf_next w c s = Some (Ready (Inr (Some b)), t)"
  shows "(bf.waiting_on c t, length (bf_result t)) < (bf.waiting_on c s, length (bf_result s))"
proof (cases "bf_result s")
  case Nil
  with assms(2) obtain u where state: "bf_state s = BfStreaming"
    and run: "execute w c (bf_protocol c) (s\<lparr>bf_running := True\<rparr>) = Some (Ready (Inr ()), u)"
    and "bf_take u = (Inr (Some b), t)"
    by (auto simp: bf_next_def bind_t_def sync_t_def
        split: bf_state.splits option.splits poll.splits sum.splits prod.splits)
  then have "bf.waiting_on c t = bf.waiting_on c u"
    by (simp add: bf.waiting_on_def bf_take_channel)
  moreover have "bf.waiting_on c u < bf.waiting_on c s"
    using bf.execute_consumes[OF assms(1) run] state
    by (simp add: bf.waiting_on_def bf_agency_def)
  ultimately show ?thesis by simp
next
  case (Cons b' r)
  then have "t = s\<lparr>bf_result := r\<rparr>" using assms(2) by (simp add: bf_next_queued)
  with Cons show ?thesis by (simp add: bf.waiting_on_def)
qed

lemma bf_collect_returns:
  assumes "cbor_progress c"
  shows "\<exists>r. bf_collect w c acc s = Some r"
proof (induction "(bf.waiting_on c s, length (bf_result s))" arbitrary: acc s rule: less_induct)
  case less
  obtain r t where next_block: "bf_next w c s = Some (r, t)"
    using bf_next_returns[OF assms] by fastforce
  show ?case
  proof (cases "\<exists>b. r = Ready (Inr (Some b))")
    case True
    then obtain b where b: "r = Ready (Inr (Some b))" by blast
    from less[OF bf_next_progress[OF assms next_block[unfolded b]]] show ?thesis
      by (simp add: bf_collect_step[OF next_block[unfolded b]])
  next
    case False
    with next_block show ?thesis
      by (auto simp: bf_collect.simps[of w c acc s] split: poll.splits sum.splits option.splits)
  qed
qed

section \<open>A whole request\<close>

lemma bf_start_speaks:
  assumes "bf_state s = BfBusy" "bf_running s"
  shows "bf.peer_speaks c (StartBatch # batch bs) s"
  unfolding bf.peer_speaks_def
proof (intro allI impI)
  fix k
  assume k: "k \<le> length (StartBatch # batch bs)"
  let ?s = "s\<lparr>bf_state := BfStreaming\<rparr>"
  have start: "bf_recv StartBatch s = (Inr (), ?s)" using assms by (simp add: bf_recv_def)
  show "\<exists>t. process (bf_protocol c) (take k (StartBatch # batch bs)) s = (Inr (), t) \<and>
      (pr_agency (bf_protocol c) t = NoAgency \<or>
       pr_agency (bf_protocol c) t \<noteq> pr_role (bf_protocol c) t) \<and>
      (k = length (StartBatch # batch bs) \<longrightarrow> pr_agency (bf_protocol c) t = NoAgency)"
  proof (cases k)
    case 0
    with assms show ?thesis by (simp add: bf_agency_def)
  next
    case (Suc j)
    with k have "j \<le> length (batch bs)" by simp
    with batch_peer_speaks[of ?s c bs] Suc start show ?thesis
      by (auto simp: bf.peer_speaks_def exec)
  qed
qed

text \<open>The reply to a request up to the first suspension of the client.\<close>

lemma bf_execute_reply:
  assumes "list_all2 (encodes c (bf_protocol c)) (StartBatch # batch bs) bss"
    and "l @ concat ps = concat bss" and "incomplete l bss" and "quiet (ch_conn ch)"
    and "bf_state s = BfBusy" "bf_running s"
  obtains (some) k l' ps' where "k \<le> length bs"
      "l' @ concat ps' = concat (drop k (tl bss))" "incomplete l' (drop k (tl bss))"
      "execute w c (bf_protocol c) (s\<lparr>bf_channel := feed l ps ch\<rparr>) = Some (Ready (Inr ()),
         s\<lparr>bf_running := False, bf_state := BfStreaming, bf_result := bf_result s @ take k bs,
           bf_channel := feed l' ps' ch\<rparr>)"
    | (all) l' ps' where "l' @ concat ps' = []"
      "execute w c (bf_protocol c) (s\<lparr>bf_channel := feed l ps ch\<rparr>) = Some (Ready (Inr ()),
         s\<lparr>bf_running := False, bf_state := BfIdle, bf_result := bf_result s @ bs,
           bf_channel := feed l' ps' ch\<rparr>)"
proof -
  obtain k l' ps' t where k: "k \<le> length (StartBatch # batch bs)"
      "process (bf_protocol c) (take k (StartBatch # batch bs)) s = (Inr (), t)"
      "bf_agency t = NoAgency"
      "l' @ concat ps' = concat (drop k bss)" "incomplete l' (drop k bss)"
      "execute w c (bf_protocol c) (s\<lparr>bf_channel := feed l ps ch\<rparr>) =
        Some (Ready (Inr ()), t\<lparr>bf_channel := feed l' ps' ch\<rparr>)"
    using bf.execute_stream[OF assms(1-4) bf_start_speaks[OF assms(5,6)], of w]
    unfolding bf_protocol_sel by blast
  have "k \<noteq> 0" using k(2,3) assms(5,6) by (cases k) (auto simp: bf_agency_def)
  then obtain j where j: "k = Suc j" by (cases k) auto
  let ?s = "s\<lparr>bf_state := BfStreaming\<rparr>"
  have t: "process (bf_protocol c) (take j (batch bs)) ?s = (Inr (), t)"
    using k(2) assms(5) by (simp add: j bind_s_def unwrap_s_def bf_recv_def)
  then have "j \<noteq> 0" using k(3) assms(6) by (cases j) (auto simp: bf_agency_def)
  have bss: "drop k bss = drop j (tl bss)" by (simp add: j drop_Suc)
  from k(1) j consider "j \<le> length bs" | "j = Suc (length bs)" by fastforce
  then show thesis
  proof cases
    case 1
    then have "bs \<noteq> []" using \<open>j \<noteq> 0\<close> by auto
    with 1 t \<open>j \<noteq> 0\<close>
    have "t = s\<lparr>bf_running := False, bf_state := BfStreaming, bf_result := bf_result s @ take j bs\<rparr>"
      by (auto simp: take_batch bf_process_blocks)
    with some[OF 1] k(4-6) bss show thesis by simp
  next
    case 2
    with t have "t = s\<lparr>bf_running := False, bf_state := BfIdle, bf_result := bf_result s @ bs\<rparr>"
      by (simp add: take_batch bf_process_batch)
    moreover have "drop k bss = []"
      using 2 list_all2_lengthD[OF assms(1)] by (simp add: j)
    ultimately show thesis using all[of l' ps'] k(4,6) by simp
  qed
qed

text \<open>A client between two requests, on a working socket and with \<open>ps\<close> to read.\<close>

definition bf_ready :: "payload list \<Rightarrow> block_fetch \<Rightarrow> bool" where
  "bf_ready ps s \<longleftrightarrow> bf_state s = BfIdle \<and> bf_result s = [] \<and> \<not> bf_done s \<and>
     ch_bytes (bf_channel s) = [] \<and> quiet (ch_conn (bf_channel s)) \<and>
     writable (ch_conn (bf_channel s)) \<and>
     cn_channels (ch_conn (bf_channel s)) (ch_idx (bf_channel s)) = Some ps"

definition bf_request :: "block_fetch \<Rightarrow> bf_message" where
  "bf_request s = RequestRange (cfg_first (bf_config s)) (cfg_last (bf_config s))"

lemma bf_run_sends:
  assumes "cbor_stream c" and "bf_ready ps s"
  shows "bf_run w c s = execute w c (bf_protocol c)
    (s\<lparr>bf_running := True, bf_state := BfBusy,
       bf_channel := feed [] ps (sent w (bf_bytes c (bf_request s)) (bf_channel s))\<rparr>)"
proof -
  have ch: "bf_channel s = feed [] ps (bf_channel s)"
    using feed_exists[of "bf_channel s" ps] assms(2) by (simp add: bf_ready_def)
  have "bf_send (s\<lparr>bf_running := True\<rparr>) =
      (Inr (bf_request s), s\<lparr>bf_running := True, bf_state := BfBusy\<rparr>)"
    using assms(2) by (simp add: bf_send_def bf_ready_def bf_request_def)
  then have "bf_run w c s = execute w c (bf_protocol c)
      (s\<lparr>bf_running := True, bf_state := BfBusy,
         bf_channel := sent w (bf_bytes c (bf_request s)) (bf_channel s)\<rparr>)"
    unfolding bf_run_def using assms(2) bf_bytes_encodes(1)[OF assms(1), of "bf_request s"]
    by (subst bf.execute_send) (auto simp: bf_agency_def bf_ready_def)
  also have "sent w (bf_bytes c (bf_request s)) (bf_channel s) =
      feed [] ps (sent w (bf_bytes c (bf_request s)) (bf_channel s))"
    by (subst ch) simp
  finally show ?thesis .
qed

text \<open>The client after a request that has been answered.\<close>

definition bf_served :: "wire \<Rightarrow> cbor \<Rightarrow> payload list \<Rightarrow> block_fetch \<Rightarrow> block_fetch" where
  "bf_served w c ps s = s\<lparr>bf_running := False, bf_state := BfIdle,
     bf_channel := feed [] ps (sent w (bf_bytes c (bf_request s)) (bf_channel s))\<rparr>"

lemma block_fetch_served:
  assumes "cbor_stream c" and "bf_ready ps s"
    and "concat ps = concat (map (bf_bytes c) (StartBatch # batch bs))"
  shows "\<exists>t ps'. bf_run w c s = Some (Ready (Inr ()), t) \<and>
    cn_sent (ch_conn (bf_channel t)) = cn_sent (ch_conn
      (sent w (bf_bytes c (bf_request s)) (bf_channel s))) \<and>
    concat ps' = [] \<and> bf_collect w c [] t = Some (Ready (Inr bs), bf_served w c ps' s)"
proof -
  let ?ch = "sent w (bf_bytes c (bf_request s)) (bf_channel s)"
  let ?s = "s\<lparr>bf_running := True, bf_state := BfBusy\<rparr>"
  have bss: "list_all2 (encodes c (bf_protocol c)) (StartBatch # batch bs)
      (map (bf_bytes c) (StartBatch # batch bs))"
    by (rule bf_bytes_all[OF assms(1)])
  have run: "bf_run w c s = execute w c (bf_protocol c) (?s\<lparr>bf_channel := feed [] ps ?ch\<rparr>)"
    using bf_run_sends[OF assms(1,2), of w] by simp
  have prems: "[] @ concat ps = concat (map (bf_bytes c) (StartBatch # batch bs))"
    "incomplete [] (map (bf_bytes c) (StartBatch # batch bs))" "quiet (ch_conn ?ch)"
    "bf_state ?s = BfBusy" "bf_running ?s" "bf_result s = []"
    using assms(2,3) by (simp_all add: incomplete_def bf_ready_def)
  have served: "bf_served w c ps' s = s\<lparr>bf_running := False, bf_state := BfIdle, bf_result := [],
      bf_channel := feed [] ps' ?ch\<rparr>" for ps'
    using prems(6) by (simp add: bf_served_def)
  from bss prems(1-5) show ?thesis
  proof (cases rule: bf_execute_reply[where w = w])
    case (some k l' ps')
    have rest: "list_all2 (encodes c (bf_protocol c)) (batch (drop k bs))
        (drop k (tl (map (bf_bytes c) (StartBatch # batch bs))))"
      using bf_bytes_all[OF assms(1), of "batch (drop k bs)"] some(1)
      by (simp add: drop_map flip: drop_batch)
    from bf_collect_batch[OF rest some(2,3) prems(3),
        of "s\<lparr>bf_running := False, bf_state := BfStreaming, bf_result := take k bs\<rparr>" w "[]"]
    show ?thesis using some(4) run prems(6) by (auto simp: served)
  next
    case (all l' ps')
    then show ?thesis
      using run prems(6) bf_collect_idle[of "s\<lparr>bf_running := False, bf_state := BfIdle,
        bf_result := bs, bf_channel := feed l' ps' ?ch\<rparr>" w c "[]"]
      by (auto simp: served)
  qed
qed

lemma block_fetch_run:
  assumes "cbor_stream c" and "bf_ready ps s"
    and "concat ps = concat (map (bf_bytes c) (StartBatch # batch bs))"
  shows "\<exists>t u. bf_run w c s = Some (Ready (Inr ()), t) \<and>
    cn_sent (ch_conn (bf_channel t)) = cn_sent (ch_conn
      (sent w (bf_bytes c (bf_request s)) (bf_channel s))) \<and>
    bf_collect w c [] t = Some (Ready (Inr bs), u) \<and> bf_state u = BfIdle \<and> bf_result u = []"
  using block_fetch_served[OF assms, of w] assms(2) by (auto simp: bf_served_def bf_ready_def)

text \<open>
  A client between two requests asks for its range and receives a batch of blocks cut
  into frames in any way: \<open>run\<close> succeeds, its stream hands out exactly the blocks of the
  batch in their order, then ends, and the client is idle again.
\<close>

theorem block_fetch_delivers:
  assumes "cbor_stream c" and "bf_ready ps s"
    and "concat ps = concat (map (bf_bytes c) (StartBatch # batch bs))"
  shows "\<exists>t u. bf_run w c s = Some (Ready (Inr ()), t) \<and>
    cn_sent (ch_conn (bf_channel t)) = cn_sent (ch_conn
      (sent w (bf_bytes c (bf_request s)) (bf_channel s))) \<and>
    bf_collect w c [] t = Some (Ready (Inr bs), u) \<and> bf_state u = BfIdle \<and> bf_result u = []"
  by (rule block_fetch_run[OF assms])

definition sample_fetch :: "payload list \<Rightarrow> block_fetch" where
  "sample_fetch ps =
     \<lparr>bf_channel = sample_channel 0x0003 ps,
      bf_config = \<lparr>cfg_first = point_of_bytes (42, [1]), cfg_last = point_of_bytes (44, [2])\<rparr>,
      bf_state = BfIdle, bf_result = [], bf_running = False, bf_done = False\<rparr>"

lemma sample_fetch_ready: "bf_ready ps (sample_fetch ps)"
  by (simp add: bf_ready_def sample_fetch_def quiet_def writable_def sample_channel_def sample_connection_def
      connection_new_def)

definition sample_reply :: "bf_message list \<Rightarrow> byte list" where
  "sample_reply ms = concat (map (bf_bytes sample_cbor) ms)"

text \<open>Three blocks in frames that cut the second message.\<close>

theorem block_fetch_delivers_witness:
  "\<exists>ps t u. concat ps = sample_reply (StartBatch # batch [[1], [2, 3], []]) \<and> length ps = 2 \<and>
    bf_run sample_wire sample_cbor (sample_fetch ps) = Some (Ready (Inr ()), t) \<and>
    bf_collect sample_wire sample_cbor [] t = Some (Ready (Inr [[1], [2, 3], []]), u)"
proof -
  let ?all = "sample_reply (StartBatch # batch [[1], [2, 3], []])"
  let ?ps = "[take 15 ?all, drop 15 ?all]"
  have "concat ?ps = concat (map (bf_bytes sample_cbor) (StartBatch # batch [[1], [2, 3], []]))"
    by (simp only: concat.simps append_Nil2 append_take_drop_id) (simp only: sample_reply_def)
  from block_fetch_delivers[OF sample_cbor_stream sample_fetch_ready this, of sample_wire]
  obtain t u where
    "bf_run sample_wire sample_cbor (sample_fetch ?ps) = Some (Ready (Inr ()), t)"
    "bf_collect sample_wire sample_cbor [] t = Some (Ready (Inr [[1], [2, 3], []]), u)"
    by blast
  moreover have "concat ?ps = ?all"
    by (simp only: concat.simps append_Nil2 append_take_drop_id)
  moreover have "length ?ps = 2" by simp
  ultimately show ?thesis by blast
qed

text \<open>
  When the node has no blocks for the range, the request still succeeds: the stream is
  empty and the client is idle again.
\<close>

lemma block_fetch_none_served:
  assumes "cbor_stream c" and "bf_ready ps s" and "concat ps = bf_bytes c NoBlocks"
  shows "\<exists>ps'. bf_run w c s = Some (Ready (Inr ()), bf_served w c ps' s) \<and> concat ps' = []"
proof -
  let ?ch = "sent w (bf_bytes c (bf_request s)) (bf_channel s)"
  let ?s = "s\<lparr>bf_running := True, bf_state := BfBusy\<rparr>"
  let ?t = "?s\<lparr>bf_running := False, bf_state := BfIdle\<rparr>"
  have "bf.exchange c [NoBlocks] ?s ?t"
    by (simp add: bf_recv_def bf_agency_def)
  moreover have "quiet (ch_conn ?ch)" using assms(2) by (simp add: bf_ready_def)
  moreover have "[] @ concat ps = concat (map (bf_bytes c) [NoBlocks])"
    using assms(3) by simp
  ultimately obtain ps' where "concat ps' = []"
      "execute w c (bf_protocol c) (?s\<lparr>bf_channel := feed [] ps ?ch\<rparr>) =
        Some (Ready (Inr ()), ?t\<lparr>bf_channel := feed [] ps' ?ch\<rparr>)"
    using bf.execute_exchange[OF bf_bytes_all[OF assms(1), of "[NoBlocks]"], of "[]" ps ?ch ?s ?t w]
    by (auto simp: incomplete_def)
  then show ?thesis
    using bf_run_sends[OF assms(1,2), of w] by (auto simp: bf_served_def)
qed

theorem block_fetch_no_blocks:
  assumes "cbor_stream c" and "bf_ready ps s" and "concat ps = bf_bytes c NoBlocks"
  shows "\<exists>t. bf_run w c s = Some (Ready (Inr ()), t) \<and>
    bf_next w c t = Some (Ready (Inr None), t) \<and> bf_state t = BfIdle"
  using block_fetch_none_served[OF assms, of w] assms(2)
  by (auto simp: bf_served_def bf_next_def bf_ready_def)

theorem block_fetch_no_blocks_witness:
  "\<exists>t. bf_run sample_wire sample_cbor (sample_fetch [sample_reply [NoBlocks]]) =
      Some (Ready (Inr ()), t) \<and>
    bf_next sample_wire sample_cbor t = Some (Ready (Inr None), t) \<and> bf_state t = BfIdle"
  by (rule block_fetch_no_blocks[OF sample_cbor_stream sample_fetch_ready])
    (simp add: sample_reply_def)

section \<open>The state machine of the protocol\<close>

text \<open>The transitions the server may cause, as the protocol defines them.\<close>

inductive bf_step :: "bf_state \<Rightarrow> bf_message \<Rightarrow> bf_state \<Rightarrow> bool" where
  no_blocks: "bf_step BfBusy NoBlocks BfIdle"
| start_batch: "bf_step BfBusy StartBatch BfStreaming"
| block: "bf_step BfStreaming (Block b) BfStreaming"
| batch_done: "bf_step BfStreaming BatchDone BfIdle"

inductive_simps bf_step_simps [simp]:
  "bf_step q (RequestRange x y) q'" "bf_step q ClientDone q'" "bf_step q NoBlocks q'"
  "bf_step q StartBatch q'" "bf_step q (Block b) q'" "bf_step q BatchDone q'"

fun blocks_of :: "bf_message \<Rightarrow> byte list list" where
  "blocks_of (Block b) = [b]"
| "blocks_of m = []"

text \<open>
  C21. \<open>recv\<close> takes exactly the transitions of the protocol: on a permitted message it moves
  to the state the protocol names, keeps the block the message carries at the end of the
  result, and pauses the client unless the batch has only started; on any other message it
  panics and changes nothing.
\<close>

theorem bf_recv_refines:
  "case bf_recv m s of
     (Inr _, s') \<Rightarrow> bf_step (bf_state s) m (bf_state s') \<and>
       bf_result s' = bf_result s @ blocks_of m \<and>
       bf_running s' = (bf_running s \<and> m = StartBatch) \<and>
       bf_channel s' = bf_channel s \<and> bf_config s' = bf_config s \<and> bf_done s' = bf_done s
   | (Inl f, s') \<Rightarrow> f = Panic ExplicitPanic \<and> s' = s \<and> (\<forall>q. \<not> bf_step (bf_state s) m q)"
  by (cases "bf_state s"; cases m) (simp_all add: bf_recv_def)

text \<open>
  C32. Every message of the protocol survives its encoding: the values written for it are
  read back as the same message.
\<close>

theorem bf_message_round_trip:
  "\<exists>vs. bf_to_values m = Inr vs \<and> bf_from_iter vs = Inr m"
  using bf_msg.round_trip[of m undefined] by blast

text \<open>A tag that is no message of the protocol is not reported as an error: it panics.\<close>

lemma bf_unknown_tag_panics:
  "tag < 0 \<or> 5 < tag \<Longrightarrow> bf_from_iter (Integer tag # rest) = Inl (Panic ExplicitPanic)"
  by (auto simp: bf_from_iter_def exec bind_s_def)

section \<open>The life of a client\<close>

text \<open>
  The states a user of the client can hold: after construction, after \<open>run\<close> or \<open>next\<close>
  returned a value, and with anything happening to the connection in between.
\<close>

inductive bf_lifetime :: "wire \<Rightarrow> cbor \<Rightarrow> block_fetch \<Rightarrow> bool" for w c where
  built: "bf_client b conn = (Inr s, conn') \<Longrightarrow> bf_lifetime w c s"
| ran: "bf_lifetime w c s \<Longrightarrow> bf_run w c s = Some (Ready (Inr ()), t) \<Longrightarrow> bf_lifetime w c t"
| took: "bf_lifetime w c s \<Longrightarrow> bf_next w c s = Some (Ready (Inr r), t) \<Longrightarrow> bf_lifetime w c t"
| traffic: "bf_lifetime w c s \<Longrightarrow> bf_lifetime w c (s\<lparr>bf_channel := ch\<rparr>)"

definition bf_inv :: "block_fetch \<Rightarrow> bool" where
  "bf_inv s \<longleftrightarrow> \<not> bf_done s \<and> bf_state s \<noteq> BfDone \<and>
     (\<not> bf_running s \<longrightarrow> bf_state s = BfIdle \<or> bf_state s = BfStreaming)"

definition bf_settled :: "block_fetch \<Rightarrow> bool" where
  "bf_settled s \<longleftrightarrow> \<not> bf_done s \<and> \<not> bf_running s \<and>
     (bf_state s = BfIdle \<or> bf_state s = BfStreaming)"

lemma bf_settled_runs: "bf_settled s \<Longrightarrow> bf_inv (s\<lparr>bf_running := True\<rparr>)"
  by (auto simp: bf_settled_def bf_inv_def)

lemma bf_execute_settles:
  assumes "execute w c (bf_protocol c) s = Some (Ready (Inr ()), t)" and "bf_inv s"
  shows "bf_settled t"
proof -
  have "bf_inv t \<and> (Ready (Inr ()) = (Ready (Inr ()) :: (error, unit) poll) \<longrightarrow>
      pr_agency (bf_protocol c) t = NoAgency)"
    by (rule bf.execute_invariant[where I = bf_inv, OF _ _ _ assms(1)[unfolded execute_def] assms(2)])
      (auto simp: bf_inv_def bf_recv_def bf_send_def split: bf_state.splits bf_message.splits)
  then show ?thesis
    by (auto simp: bf_inv_def bf_settled_def bf_agency_def split: if_splits bf_state.splits)
qed

lemma bf_take_settled: "bf_take s = (r, t) \<Longrightarrow> bf_settled s \<Longrightarrow> bf_settled t"
  by (auto simp: bf_take_def bf_settled_def split: list.splits)

lemma bf_next_settled:
  assumes "bf_next w c s = Some (Ready (Inr r), t)" and "bf_settled s"
  shows "bf_settled t"
proof (cases "bf_result s = [] \<and> bf_state s = BfStreaming")
  case True
  with assms(1) obtain u where
    "execute w c (bf_protocol c) (s\<lparr>bf_running := True\<rparr>) = Some (Ready (Inr ()), u)"
    "bf_take u = (Inr r, t)"
    by (auto simp: bf_next_def bind_t_def sync_t_def
        split: option.splits poll.splits sum.splits prod.splits)
  with bf_execute_settles[OF this(1) bf_settled_runs[OF assms(2)]] show ?thesis
    by (blast intro: bf_take_settled)
next
  case False
  with assms show ?thesis
    by (auto simp: bf_next_def sync_t_def intro: bf_take_settled
        split: if_splits bf_state.splits prod.splits)
qed

text \<open>
  C20. In every state its user can hold after calls that have returned, the client is between
  requests or inside a batch: the \<open>Unexpected state\<close> panic of \<open>next\<close> cannot be reached, whatever
  the peer sends. (A call whose future is dropped while it is suspended has not returned: what it
  leaves, such as a client that still waits for the answer to \<open>run\<close>, is not among these states.)
\<close>

theorem bf_lifetime_settled:
  assumes "bf_lifetime w c s"
  shows "\<not> bf_running s \<and> (bf_state s = BfIdle \<or> bf_state s = BfStreaming)"
proof -
  from assms have "bf_settled s"
  proof induction
    case (built b conn s conn')
    then show ?case
      by (auto simp: bf_client_def bf_settled_def Let_def split: sum.splits)
  next
    case (ran s t)
    then show ?case
      unfolding bf_run_def by (blast intro: bf_execute_settles bf_settled_runs)
  next
    case (took s r t)
    then show ?case by (blast intro: bf_next_settled)
  next
    case (traffic s ch)
    then show ?case by (simp add: bf_settled_def)
  qed
  then show ?thesis by (simp add: bf_settled_def)
qed

theorem bf_lifetime_settled_witness:
  "\<exists>s conn'. bf_client (bf_last 44 [2] (bf_first 42 [1] bf_builder_new)) sample_connection =
      (Inr s, conn') \<and> \<not> bf_running s \<and> (bf_state s = BfIdle \<or> bf_state s = BfStreaming)"
proof -
  obtain s conn' where s:
    "bf_client (bf_last 44 [2] (bf_first 42 [1] bf_builder_new)) sample_connection = (Inr s, conn')"
    by (simp add: bf_client_def bf_first_def bf_last_def bf_builder_new_def Let_def)
  have "bf_lifetime sample_wire sample_cbor s" by (rule bf_lifetime.built[OF s])
  from bf_lifetime_settled[OF this] s show ?thesis by blast
qed

section \<open>Ending the client\<close>

lemma bf_closing_run:
  assumes "cbor_stream c" and "bf_state s = BfIdle" and "writable (ch_conn (bf_channel s))"
  shows "bf_closing w c s = Some (Ready (Inr ()), s\<lparr>bf_running := True, bf_done := True,
      bf_state := BfDone, bf_channel := sent w (bf_bytes c ClientDone) (bf_channel s)\<rparr>)"
proof -
  let ?s = "s\<lparr>bf_running := True, bf_done := True\<rparr>"
  let ?ch = "sent w (bf_bytes c ClientDone) (bf_channel s)"
  have "execute w c (bf_protocol c) ?s =
      execute w c (bf_protocol c) (?s\<lparr>bf_state := BfDone, bf_channel := ?ch\<rparr>)"
    by (subst bf.execute_send[where m = ClientDone and t = "?s\<lparr>bf_state := BfDone\<rparr>"
          and data = "bf_bytes c ClientDone"])
      (use assms in \<open>simp_all add: bf_agency_def bf_send_def flip: bf_bytes_encodes(1)[OF assms(1)]\<close>)
  also have "\<dots> = Some (Ready (Inr ()), ?s\<lparr>bf_state := BfDone, bf_channel := ?ch\<rparr>)"
    by (simp add: bf.execute_stop bf_agency_def)
  finally show ?thesis by (simp add: bf_closing_def)
qed

lemma bf_finish_run:
  assumes "cbor_stream c" and "bf_state s = BfIdle" and "writable (ch_conn (bf_channel s))"
  shows "bf_finish w c s = Some (Ready (Inr (channel_drop (sent w (bf_bytes c ClientDone)
      (bf_channel s)))), s\<lparr>bf_running := True, bf_done := True, bf_state := BfDone,
      bf_channel := sent w (bf_bytes c ClientDone) (bf_channel s)\<rparr>)"
  by (simp add: bf_finish_def bf_closing_run[OF assms])

text \<open>However the client ends, its channel does not stay attached.\<close>

lemma bf_finish_unregisters:
  assumes "bf_finish w c s = Some (r, t)"
  shows "case r of
      Ready (Inr conn) \<Rightarrow> cn_channels conn (ch_idx (bf_channel t)) = None
    | Ready (Inl f) \<Rightarrow> cn_channels (ch_conn (bf_channel t)) (ch_idx (bf_channel t)) = None
    | Pending l \<Rightarrow> True"
  using assms
  by (auto simp: bf_finish_def bf_freed_def channel_drop_def demux_drop_def unregister_def
      split: option.splits prod.splits poll.splits sum.splits)

text \<open>
  Ended between requests, the client tells the server, with one \<open>ClientDone\<close> frame, and
  gives the connection back with its channel unregistered.
\<close>

theorem bf_finish_idle:
  assumes "cbor_stream c" and "bf_state s = BfIdle" and "writable (ch_conn (bf_channel s))"
  shows "\<exists>t conn. bf_finish w c s = Some (Ready (Inr conn), t) \<and> bf_state t = BfDone \<and>
    cn_sent conn = cn_sent (ch_conn (sent w (bf_bytes c ClientDone) (bf_channel s))) \<and>
    cn_channels conn (ch_idx (bf_channel s)) = None"
  unfolding bf_finish_run[OF assms]
  by (simp add: channel_drop_def demux_drop_def unregister_def)

theorem bf_finish_idle_witness:
  "\<exists>t conn. bf_finish sample_wire sample_cbor (sample_fetch []) = Some (Ready (Inr conn), t) \<and>
    bf_state t = BfDone \<and>
    cn_sent conn = cn_sent (ch_conn (sent sample_wire (bf_bytes sample_cbor ClientDone)
      (bf_channel (sample_fetch [])))) \<and>
    cn_channels conn (ch_idx (bf_channel (sample_fetch []))) = None"
  by (rule bf_finish_idle[OF sample_cbor_stream])
    (use sample_fetch_ready[of "[]"] in \<open>simp_all add: bf_ready_def\<close>)

text \<open>
  Ended inside a batch, the client takes the next block, reports success and goes away:
  it has not sent \<open>ClientDone\<close>, and the state machine is still streaming.
\<close>

theorem bf_finish_streaming_silent:
  assumes "cbor_stream c" and "bf_state s = BfStreaming" and "ch_bytes (bf_channel s) = []"
    and "quiet (ch_conn (bf_channel s))"
    and "cn_channels (ch_conn (bf_channel s)) (ch_idx (bf_channel s)) = Some [bf_bytes c (Block b)]"
  shows "\<exists>t conn. bf_finish w c s = Some (Ready (Inr conn), t) \<and> bf_state t = BfStreaming \<and>
    cn_sent conn = cn_sent (ch_conn (bf_channel s))"
proof -
  let ?s = "s\<lparr>bf_running := True, bf_done := True\<rparr>"
  let ?t = "?s\<lparr>bf_running := False, bf_result := bf_result s @ [b]\<rparr>"
  have ch: "bf_channel s = feed [] [bf_bytes c (Block b)] (bf_channel s)"
    using feed_exists[OF assms(5)] assms(3) by simp
  have "bf_recv (Block b) ?s = (Inr (), ?t)"
    using assms(2) by (cases s) (simp add: bf_recv_def)
  then have "bf.exchange c [Block b] ?s ?t"
    using assms(2) by (simp add: bf_agency_def)
  from bf.execute_exchange[OF bf_bytes_all[OF assms(1), of "[Block b]"] _ _ assms(4) this,
      of "[]" "[bf_bytes c (Block b)]" w]
  obtain ps' where "execute w c (bf_protocol c)
      (?s\<lparr>bf_channel := feed [] [bf_bytes c (Block b)] (bf_channel s)\<rparr>) =
        Some (Ready (Inr ()), ?t\<lparr>bf_channel := feed [] ps' (bf_channel s)\<rparr>)"
    by (auto simp: incomplete_def)
  moreover have "?s\<lparr>bf_channel := feed [] [bf_bytes c (Block b)] (bf_channel s)\<rparr> = ?s"
    by (simp flip: ch)
  ultimately show ?thesis
    using assms(2)
    by (simp add: bf_finish_def bf_closing_def channel_drop_def demux_drop_def)
qed

theorem bf_finish_streaming_silent_witness:
  "\<exists>t conn. bf_finish sample_wire sample_cbor
      ((sample_fetch [bf_bytes sample_cbor (Block [7])])\<lparr>bf_state := BfStreaming\<rparr>) =
        Some (Ready (Inr conn), t) \<and>
    bf_state t = BfStreaming \<and> cn_sent conn = cn_sent (ch_conn (bf_channel
      ((sample_fetch [bf_bytes sample_cbor (Block [7])])\<lparr>bf_state := BfStreaming\<rparr>)))"
  by (rule bf_finish_streaming_silent[OF sample_cbor_stream])
    (use sample_fetch_ready[of "[bf_bytes sample_cbor (Block [7])]"] in \<open>simp_all add: bf_ready_def\<close>)

end
