(* ===== verification/Mux_Delivery.thy ===== *)
theory Mux_Delivery
  imports Mux_Facts Cbor_Sample
begin

unbundle bit_operations_syntax

text \<open>
  The multiplexer from end to end: what one side sends on its channels the other side's
  channels receive, in order and however the stream is cut, as long as payloads fit a frame
  and the socket takes them whole; and what happens when they do not.
\<close>

section \<open>Arrival of bytes\<close>

definition conn_arrive :: "byte list \<Rightarrow> connection \<Rightarrow> connection" where
  "conn_arrive data conn = conn\<lparr>cn_input := cn_input conn @ data\<rparr>"

text \<open>Bytes arrive chunk by chunk, and the task runs after each.\<close>

definition arrivals :: "wire \<Rightarrow> byte list list \<Rightarrow> connection \<Rightarrow> connection" where
  "arrivals w chunks conn =
     fold (\<lambda>chunk conn. demux_poll w (conn_arrive chunk conn)) chunks conn"

lemma demux_poll_arrive:
  assumes "\<not> cn_eof conn"
  shows "demux_poll w (conn_arrive data (demux_poll w conn)) = demux_poll w (conn_arrive data conn)"
proof (cases "cn_demux conn")
  case None
  then show ?thesis by (simp add: demux_poll_def conn_arrive_def)
next
  case (Some nt)
  obtain n t where nt: "nt = (n, t)" by (cases nt)
  obtain chs t' inp where run:
    "demux_run w False (cn_channels conn) t (cn_input conn) = (chs, t', inp)"
    by (cases "demux_run w False (cn_channels conn) t (cn_input conn)")
  with demux_run_append[of w "cn_channels conn" t "cn_input conn" data] assms Some nt
  show ?thesis
    by (simp add: demux_poll_def conn_arrive_def split: prod.split)
qed

lemma conn_arrive_append: "conn_arrive d' (conn_arrive d conn) = conn_arrive (d @ d') conn"
  by (simp add: conn_arrive_def)

lemma poll_eof [simp]: "cn_eof (demux_poll w conn) = cn_eof conn"
  "cn_eof (conn_arrive data conn) = cn_eof conn"
  by (simp_all add: demux_poll_def conn_arrive_def split: option.split prod.split)

lemma arrivals_whole:
  assumes "\<not> cn_eof conn"
  shows "demux_poll w (arrivals w chunks conn) = demux_poll w (conn_arrive (concat chunks) conn)"
  using assms
proof (induction chunks arbitrary: conn)
  case Nil
  then show ?case by (simp add: arrivals_def conn_arrive_def)
next
  case (Cons chunk chunks)
  have "demux_poll w (arrivals w (chunk # chunks) conn) =
      demux_poll w (arrivals w chunks (demux_poll w (conn_arrive chunk conn)))"
    by (simp add: arrivals_def)
  also have "\<dots> = demux_poll w (conn_arrive (concat chunks) (conn_arrive chunk conn))"
    using Cons demux_poll_arrive[of "conn_arrive chunk conn" w "concat chunks"] by simp
  finally show ?case by (simp add: conn_arrive_append)
qed

text \<open>Every way to cut the bytes: at the given distances, the rest in a last chunk.\<close>

fun cut_at :: "nat list \<Rightarrow> byte list \<Rightarrow> byte list list" where
  "cut_at [] bs = [bs]"
| "cut_at (n # ns) bs = take n bs # cut_at ns (drop n bs)"

lemma concat_cut_at [simp]: "concat (cut_at ns bs) = bs"
  by (induction ns bs rule: cut_at.induct) simp_all

lemma cut_at_nonempty [simp]: "cut_at ns bs \<noteq> []"
  by (cases ns) simp_all

lemma arrivals_polled: "chunks \<noteq> [] \<Longrightarrow> demux_poll w (arrivals w chunks conn) = arrivals w chunks conn"
  by (induction chunks rule: rev_induct) (simp_all add: arrivals_def)

lemma arrivals_sender [simp]:
  "cn_sent (arrivals w chunks conn) = cn_sent conn"
  "cn_writes (arrivals w chunks conn) = cn_writes conn"
  "cn_clock (arrivals w chunks conn) = cn_clock conn"
  "cn_start_time (arrivals w chunks conn) = cn_start_time conn"
  unfolding arrivals_def
  by (induction chunks arbitrary: conn)
    (simp_all add: demux_poll_def conn_arrive_def split: option.split prod.split)

text \<open>The same under an open channel.\<close>

definition hear :: "wire \<Rightarrow> byte list list \<Rightarrow> channel \<Rightarrow> channel" where
  "hear w chunks ch = ch\<lparr>ch_conn := arrivals w chunks (ch_conn ch)\<rparr>"

text \<open>
  C18. The connection that results does not depend on how the incoming bytes were cut: arriving in
  any chunks, with the task run after each, leaves the queues, the task and the unread bytes as
  arriving all at once does.
\<close>

theorem demux_segmentation:
  assumes "\<not> cn_eof conn" and "concat chunks = concat chunks'"
  shows "demux_poll w (arrivals w chunks conn) = demux_poll w (arrivals w chunks' conn)"
  using assms(2) by (simp add: arrivals_whole[OF assms(1)])

theorem demux_segmentation_witness:
  "demux_poll sample_wire (arrivals sample_wire [[0], [1, 2]] sample_connection) =
    demux_poll sample_wire (arrivals sample_wire [[0, 1, 2]] sample_connection)"
  by (rule demux_segmentation) (simp_all add: sample_connection_def connection_new_def)

section \<open>Delivery\<close>

definition send_all :: "wire \<Rightarrow> (u16 \<times> payload) list \<Rightarrow> connection \<Rightarrow> connection" where
  "send_all w fs conn = fold (\<lambda>(idx, payload). after_send w idx payload) fs conn"

text \<open>Payloads that fit a frame and that the socket takes whole.\<close>

fun takes_whole :: "payload \<Rightarrow> write_outcome \<Rightarrow> bool" where
  "takes_whole payload (Accepts n) \<longleftrightarrow> length payload \<le> n"
| "takes_whole payload (Breaks n) \<longleftrightarrow> False"

fun fits :: "(nat \<Rightarrow> write_outcome) \<Rightarrow> (u16 \<times> payload) list \<Rightarrow> bool" where
  "fits writes [] \<longleftrightarrow> True"
| "fits writes ((idx, payload) # fs) \<longleftrightarrow> length payload < 65536 \<and>
     takes_whole payload (writes 0) \<and> fits (\<lambda>k. writes (Suc k)) fs"

lemma after_send_whole:
  "takes_whole payload (cn_writes conn 0) \<Longrightarrow> cn_sent (after_send w idx payload conn) =
    cn_sent conn @ frame w (cn_clock conn 0) idx payload"
  by (cases "cn_writes conn 0") (simp_all add: after_send_accepts frame_def)

lemma send_all_frames:
  "fits (cn_writes conn) fs \<Longrightarrow> \<exists>ts. map snd ts = fs \<and>
    (\<forall>(t, idx, payload) \<in> set ts. length payload < 65536) \<and>
    cn_sent (send_all w fs conn) =
      cn_sent conn @ concat (map (\<lambda>(t, idx, payload). frame w t idx payload) ts)"
proof (induction fs arbitrary: conn)
  case Nil
  then show ?case by (simp add: send_all_def)
next
  case (Cons f fs)
  obtain idx payload where f: "f = (idx, payload)" by (cases f)
  let ?conn = "after_send w idx payload conn"
  have "cn_writes ?conn = (\<lambda>k. cn_writes conn (Suc k))" by (rule ext) simp
  then have "fits (cn_writes ?conn) fs" using Cons.prems by (simp add: f)
  from Cons.IH[OF this] obtain ts where ts: "map snd ts = fs"
    "\<forall>(t, idx, payload) \<in> set ts. length payload < 65536"
    "cn_sent (send_all w fs ?conn) =
      cn_sent ?conn @ concat (map (\<lambda>(t, idx, payload). frame w t idx payload) ts)"
    by blast
  have "cn_sent ?conn = cn_sent conn @ frame w (cn_clock conn 0) idx payload"
    using Cons.prems by (simp add: f after_send_whole)
  with ts Cons.prems show ?case
    by (intro exI[of _ "(cn_clock conn 0, idx, payload) # ts"]) (simp add: f send_all_def)
qed

lemma arrivals_deliver:
  assumes "wire_ok w" and "fits (cn_writes a) fs"
    and "cn_sent (send_all w fs a) = cn_sent a @ concat chunks"
    and "cn_demux b = Some (n, AtHeader [])" and "cn_input b = []" and "\<not> cn_eof b"
  shows "cn_channels (demux_poll w (arrivals w chunks b)) k =
      map_option (\<lambda>queue. queue @ [payload. (idx, payload) \<leftarrow> fs, idx XOR 0x8000 = k])
        (cn_channels b k) \<and>
    cn_input (demux_poll w (arrivals w chunks b)) = [] \<and>
    cn_demux (demux_poll w (arrivals w chunks b)) = Some (n, AtHeader [])"
proof -
  let ?b = "demux_poll w (conn_arrive (concat chunks) b)"
  obtain ts where ts: "map snd ts = fs" "\<forall>(t, idx, payload) \<in> set ts. length payload < 65536"
    "concat chunks = concat (map (\<lambda>(t, idx, payload). frame w t idx payload) ts)"
    using send_all_frames[OF assms(2), of w] assms(3) by auto
  let ?ds = "map (\<lambda>(t, idx, payload). (idx XOR 0x8000, payload)) ts"
  have "demux_run w False (cn_channels b) (AtHeader []) (concat chunks) =
      (chans.post_all ?ds (cn_channels b), AtHeader [], [])"
    using demux_frames[OF assms(1) ts(2), of False "cn_channels b" "[]"]
    by (simp add: ts(3) demux_run_waiting)
  then have b: "cn_channels ?b = chans.post_all ?ds (cn_channels b)" "cn_input ?b = []"
      "cn_demux ?b = Some (n, AtHeader [])"
    using assms(4-6) by (simp_all add: demux_poll_def conn_arrive_def)
  have "?ds = map (\<lambda>(idx, payload). (idx XOR 0x8000, payload)) fs"
    by (simp add: split_def flip: ts(1))
  moreover have "[p. (k', p) \<leftarrow> map (\<lambda>(idx, payload). (idx XOR 0x8000, payload)) fs, k' = k] =
      [payload. (idx, payload) \<leftarrow> fs, idx XOR 0x8000 = k]"
    by (induction fs) auto
  ultimately show ?thesis
    using b by (simp add: arrivals_whole[OF assms(6)] chans.box_post_all)
qed

text \<open>
  C17. One side sends payloads of less than 65536 bytes, each taken whole by the call that
  writes it, on channels of its choice; the bytes reach the other side, which has read all earlier
  frames to their end, cut in any way. Then every channel that is attached there has received, after what it already had, the payloads sent on
  the channel of the opposite direction, complete, in order and no others, and nothing is left
  unread. (What a longer payload and a short write do is said below.)
\<close>

theorem mux_delivers:
  assumes "wire_ok w" and "fits (cn_writes a) fs"
    and "cn_sent (send_all w fs a) = cn_sent a @ concat chunks"
    and "cn_demux b = Some (n, AtHeader [])" and "cn_input b = []" and "\<not> cn_eof b"
  shows "cn_channels (demux_poll w (arrivals w chunks b)) k =
      map_option (\<lambda>queue. queue @ [payload. (idx, payload) \<leftarrow> fs, idx XOR 0x8000 = k])
        (cn_channels b k) \<and>
    cn_input (demux_poll w (arrivals w chunks b)) = [] \<and>
    cn_demux (demux_poll w (arrivals w chunks b)) = Some (n, AtHeader [])"
  by (rule arrivals_deliver[OF assms])

text \<open>A side with channels 2 and 3 open and nothing received.\<close>

definition sample_peer :: connection where
  "sample_peer = sample_connection\<lparr>cn_channels := [2 \<mapsto> [], 3 \<mapsto> []],
     cn_demux := Some (1, AtHeader [])\<rparr>"

lemma sample_peer_simps [simp]:
  "cn_channels sample_peer = [2 \<mapsto> [], 3 \<mapsto> []]"
  "cn_demux sample_peer = Some (1, AtHeader [])"
  "cn_input sample_peer = []" "\<not> cn_eof sample_peer"
  "cn_writes sample_connection k = Accepts 65535" "cn_sent sample_connection = []"
  by (simp_all add: sample_peer_def sample_connection_def connection_new_def)

theorem mux_delivers_witness:
  "\<exists>chunks. length chunks = 2 \<and>
    cn_channels (demux_poll sample_wire (arrivals sample_wire chunks sample_peer)) 2 =
      Some [[1, 2], [4]]"
proof -
  let ?fs = "[(0x8002, [1, 2]), (0x8003, [3]), (0x8002, [4])] :: (u16 \<times> payload) list"
  let ?sent = "cn_sent (send_all sample_wire ?fs sample_connection)"
  let ?chunks = "[take 5 ?sent, drop 5 ?sent]"
  have "cn_sent (send_all sample_wire ?fs sample_connection) =
      cn_sent sample_connection @ concat ?chunks"
    by (simp only: concat.simps append_Nil2 append_take_drop_id sample_peer_simps append_Nil)
  from mux_delivers[OF sample_wire_ok _ this, of sample_peer 1 2] show ?thesis
    by (intro exI[of _ ?chunks]) simp
qed

section \<open>When a payload does not fit\<close>

text \<open>
  C34. The header carries the length modulo \<open>2 ^ 16\<close>, but the whole payload is written: the
  other side delivers the first bytes as the payload and reads the rest as frame headers.
\<close>

theorem long_payload_desynchronises:
  assumes "wire_ok w" and "takes_whole payload (cn_writes a 0)"
    and "cn_sent (after_send w idx payload a) = cn_sent a @ bytes"
  shows "demux_run w eof chs (AtHeader []) (bytes @ rest) =
    demux_run w eof
      (deliver (idx XOR 0x8000) (take (length payload mod 65536) payload) chs) (AtHeader [])
      (drop (length payload mod 65536) payload @ rest)"
proof -
  let ?n = "length payload mod 65536"
  let ?now = "take ?n payload" and ?later = "drop ?n payload"
  have "length [] + length ?now = ?n" by simp
  from demux_payload[OF this, where w = w and eof = eof and idx = "idx XOR 0x8000" and chs = chs
      and rest = "?later @ rest"]
  have "demux_run w eof chs (AtPayload (idx XOR 0x8000) ?n []) (payload @ rest) =
      demux_run w eof (deliver (idx XOR 0x8000) ?now chs) (AtHeader []) (?later @ rest)"
    by (simp only: append_Nil append_assoc[symmetric] append_take_drop_id)
  moreover have "bytes = frame_header w (cn_clock a 0) idx (length payload) @ payload"
    using assms(3) after_send_whole[OF assms(2)] by (simp add: frame_def)
  ultimately show ?thesis
    using assms(1) by (simp add: demux_header)
qed

theorem long_payload_desynchronises_witness:
  "\<exists>bytes. cn_sent (after_send sample_wire 0x8002 (replicate 65537 7)
        (sample_connection\<lparr>cn_writes := (\<lambda>_. Accepts 65537)\<rparr>)) = bytes \<and>
    demux_run sample_wire False [2 \<mapsto> []] (AtHeader []) (bytes @ []) =
    demux_run sample_wire False [2 \<mapsto> [[7]]] (AtHeader []) (replicate 65536 7)"
proof -
  let ?a = "sample_connection\<lparr>cn_writes := (\<lambda>_. Accepts 65537)\<rparr>"
  let ?p = "replicate 65537 7 :: byte list"
  have "cn_sent (after_send sample_wire 0x8002 ?p ?a) =
      cn_sent ?a @ cn_sent (after_send sample_wire 0x8002 ?p ?a)"
    by simp
  from long_payload_desynchronises[OF sample_wire_ok _ this, where eof = False and chs = "[2 \<mapsto> []]" and rest = "[]"]
  have "demux_run sample_wire False [2 \<mapsto> []] (AtHeader [])
      (cn_sent (after_send sample_wire 0x8002 ?p ?a) @ []) =
    demux_run sample_wire False (deliver (0x8002 XOR 0x8000) (take 1 ?p) [2 \<mapsto> []]) (AtHeader [])
      (drop 1 ?p @ [])"
    by simp
  moreover have "take 1 ?p = [7]" "drop 1 ?p = replicate 65536 7"
    by (simp_all)
  ultimately show ?thesis by (simp add: deliver_def)
qed

text \<open>
  C35. \<open>write\<close> may take less than the payload, and the rest is not written: the other side
  fills the payload up with the bytes of the next frame and delivers the mixture.
\<close>

theorem short_write_corrupts:
  assumes "wire_ok w" and "length payload < 65536" and "cn_writes a 0 = Accepts n" "n < length payload"
    and "cn_sent (after_send w idx payload a) = cn_sent a @ bytes"
    and "length later = length payload - n"
  shows "demux_run w eof chs (AtHeader []) (bytes @ later @ rest) =
    demux_run w eof (deliver (idx XOR 0x8000) (take n payload @ later) chs)
      (AtHeader []) rest"
proof -
  let ?data = "take n payload @ later"
  have "bytes = frame_header w (cn_clock a 0) idx (length payload) @ take n payload"
    using assms(5) after_send_accepts[OF assms(3)] by simp
  moreover have "length [] + length ?data = length payload" using assms(4,6) by simp
  from demux_payload[OF this, where w = w and eof = eof and idx = "idx XOR 0x8000" and chs = chs
      and rest = rest]
  have "demux_run w eof chs (AtPayload (idx XOR 0x8000) (length payload) []) (?data @ rest) =
      demux_run w eof (deliver (idx XOR 0x8000) ?data chs) (AtHeader []) rest"
    by simp
  ultimately show ?thesis
    using assms(1,2) by (simp add: demux_header)
qed

theorem short_write_corrupts_witness:
  "\<exists>bytes. cn_sent (after_send sample_wire 0x8002 [1, 2, 3]
        (sample_connection\<lparr>cn_writes := (\<lambda>_. Accepts 1)\<rparr>)) = bytes \<and>
    demux_run sample_wire False [2 \<mapsto> []] (AtHeader []) (bytes @ [8, 9] @ []) =
    demux_run sample_wire False [2 \<mapsto> [[1, 8, 9]]] (AtHeader []) []"
proof -
  let ?a = "sample_connection\<lparr>cn_writes := (\<lambda>_. Accepts 1)\<rparr>"
  have "cn_sent (after_send sample_wire 0x8002 [1, 2, 3] ?a) =
      cn_sent ?a @ cn_sent (after_send sample_wire 0x8002 [1, 2, 3] ?a)"
    by simp
  from short_write_corrupts[OF sample_wire_ok _ _ _ this, where n = 1 and later = "[8, 9]" and eof = False
      and chs = "[2 \<mapsto> []]" and rest = "[]"]
  show ?thesis by (simp add: deliver_def)
qed

section \<open>When the peer goes away\<close>

text \<open>
  The end of the stream changes what becomes of the task, and nothing of what it delivers: the
  frames that are whole reach their queues either way.
\<close>

lemma demux_run_eof:
  "demux_run w False chs t inp = (chs', t', inp') \<Longrightarrow>
    demux_run w True chs t inp = (chs', DemuxPanicked, inp')"
proof (induction w False chs t inp rule: demux_run.induct)
  case (1 w chs buf inp)
  then show ?case
    by (auto simp: demux_run.simps(1)[of w _ chs buf inp] read_exact_def split: if_splits)
next
  case (2 w chs idx len buf inp)
  then show ?case
    by (auto simp: demux_run.simps(2)[of w _ chs idx len buf inp] read_exact_def split: if_splits)
qed simp

lemma demux_poll_eof:
  assumes "cn_eof conn" and "cn_demux conn = Some (n, task)"
  shows "cn_channels (demux_poll w conn) = cn_channels (demux_poll w (conn\<lparr>cn_eof := False\<rparr>))"
    and "cn_demux (demux_poll w conn) = Some (n, DemuxPanicked)"
proof -
  obtain chs t inp where "demux_run w False (cn_channels conn) task (cn_input conn) = (chs, t, inp)"
    by (cases "demux_run w False (cn_channels conn) task (cn_input conn)")
  with demux_run_eof[OF this] assms
  show "cn_channels (demux_poll w conn) = cn_channels (demux_poll w (conn\<lparr>cn_eof := False\<rparr>))"
    and "cn_demux (demux_poll w conn) = Some (n, DemuxPanicked)"
    by (simp_all add: demux_poll_def)
qed

text \<open>Receiving again and again from a task that has nothing left to do empties the queue.\<close>

lemma connection_recv_quiet:
  assumes "quiet conn" and "cn_channels conn idx = Some queue"
  shows "connection_recv w idx conn = (case queue of
      [] \<Rightarrow> (Pending [], conn)
    | payload # rest \<Rightarrow> (Ready (Inr payload),
        conn\<lparr>cn_channels := (cn_channels conn)(idx \<mapsto> rest)\<rparr>))"
  using assms by (simp add: connection_recv_def quiet_demux_poll split: list.split)

lemma connection_recv_nth:
  assumes "quiet conn" and "cn_channels conn idx = Some queue"
  shows "fst (connection_recv w idx (((\<lambda>c. snd (connection_recv w idx c)) ^^ k) conn)) =
    (if k < length queue then Ready (Inr (queue ! k)) else Pending [])"
  using assms
proof (induction k arbitrary: conn queue)
  case 0
  then show ?case by (cases queue) (simp_all add: connection_recv_quiet)
next
  case (Suc k)
  show ?case
  proof (cases queue)
    case Nil
    with Suc.prems have "snd (connection_recv w idx conn) = conn"
      by (simp add: connection_recv_quiet)
    with Suc.IH[OF Suc.prems] Nil show ?thesis by (simp add: funpow_Suc_right del: funpow.simps)
  next
    case (Cons payload rest)
    let ?conn = "snd (connection_recv w idx conn)"
    have "?conn = conn\<lparr>cn_channels := (cn_channels conn)(idx \<mapsto> rest)\<rparr>"
      using Suc.prems Cons by (simp add: connection_recv_quiet)
    with Suc.prems have "quiet ?conn" "cn_channels ?conn idx = Some rest" by simp_all
    from Suc.IH[OF this] Cons show ?thesis by (simp add: funpow_Suc_right del: funpow.simps)
  qed
qed

text \<open>
  C36. The peer closes its end, at any point of the stream: the task delivers the frames that
  arrived whole as it would have done without the end, and panics where the bytes stop, but its
  channels are not told. The k-th receive from then on, on a channel that is attached, returns
  the k-th payload of its queue as long as there is one; and every later receive waits, however
  often it is tried: it is never reported that the connection is gone.
\<close>

theorem closed_peer_hangs:
  assumes "cn_eof conn" and "cn_demux conn = Some (n, task)"
    and "cn_channels (demux_poll w (conn\<lparr>cn_eof := False\<rparr>)) idx = Some queue"
  shows "cn_demux (demux_poll w conn) = Some (n, DemuxPanicked) \<and>
    fst (connection_recv w idx (((\<lambda>c. snd (connection_recv w idx c)) ^^ k) conn)) =
      (if k < length queue then Ready (Inr (queue ! k)) else Pending [])"
proof -
  let ?next = "\<lambda>c. snd (connection_recv w idx c)" and ?conn = "demux_poll w conn"
  have queue: "cn_channels ?conn idx = Some queue"
    using demux_poll_eof(1)[OF assms(1,2)] assms(3) by simp
  have "fst (connection_recv w idx ((?next ^^ k) conn)) =
      fst (connection_recv w idx ((?next ^^ k) ?conn))"
    by (cases k) (simp_all add: funpow_Suc_right connection_recv_poll del: funpow.simps(2))
  with connection_recv_nth[OF demux_poll_quiet queue, of w k] demux_poll_eof(2)[OF assms(1,2)]
  show ?thesis by simp
qed

text \<open>
  The peer sends a frame for channel 2 and closes its end in the payload of a second one: the
  first payload is received, then nothing any more.
\<close>

definition closed_mid_payload :: connection where
  "closed_mid_payload = sample_peer\<lparr>cn_eof := True,
     cn_input := [0, 0, 0, 0, 0x80, 2, 0, 2, 7, 8] @ [0, 0, 0, 0, 0x80, 2, 0, 2, 9]\<rparr>"

theorem closed_peer_hangs_witness:
  "fst (connection_recv sample_wire 2 closed_mid_payload) = Ready (Inr [7, 8]) \<and>
   fst (connection_recv sample_wire 2 (((\<lambda>c. snd (connection_recv sample_wire 2 c)) ^^ 5)
     closed_mid_payload)) = Pending [] \<and>
   cn_demux (demux_poll sample_wire closed_mid_payload) = Some (1, DemuxPanicked)"
proof -
  let ?conn = closed_mid_payload
  have "cn_eof ?conn" "cn_demux ?conn = Some (1, AtHeader [])"
    by (simp_all add: closed_mid_payload_def)
  moreover have "cn_channels (demux_poll sample_wire (?conn\<lparr>cn_eof := False\<rparr>)) 2 = Some [[7, 8]]"
    by (simp add: closed_mid_payload_def demux_poll_def demux_run.simps read_exact_def
        sample_wire_def bytes_nat_def deliver_def)
  ultimately show ?thesis
    using closed_peer_hangs[of ?conn 1 "AtHeader []" sample_wire 2 "[[7, 8]]" 0]
      closed_peer_hangs[of ?conn 1 "AtHeader []" sample_wire 2 "[[7, 8]]" 5]
    by simp
qed

section \<open>The life of a connection\<close>

text \<open>
  A channel borrows its connection mutably, so a connection is either free or owned by its one
  open channel. Bytes may arrive and the peer may close at any time.
\<close>

datatype owner = Free connection | Open channel

inductive mux_reachable :: "wire \<Rightarrow> owner \<Rightarrow> bool" for w where
  new: "mux_reachable w (Free (connection_new now clock room))"
| channel: "mux_reachable w (Free conn) \<Longrightarrow> mux_reachable w (Open (connection_channel idx conn))"
| send: "mux_reachable w (Open ch) \<Longrightarrow> mux_reachable w (Open (snd (channel_send w data ch)))"
| recv: "mux_reachable w (Open ch) \<Longrightarrow> mux_reachable w (Open (snd (channel_recv w ch)))"
| keep: "mux_reachable w (Open ch) \<Longrightarrow> mux_reachable w (Open (ch\<lparr>ch_bytes := bytes\<rparr>))"
| drop: "mux_reachable w (Open ch) \<Longrightarrow> mux_reachable w (Free (channel_drop ch))"
| traffic: "mux_reachable w (Open ch) \<Longrightarrow> mux_reachable w (Open (ch\<lparr>ch_conn :=
    (conn_arrive data (ch_conn ch))\<lparr>cn_eof := eof\<rparr>\<rparr>))"
| idle_traffic: "mux_reachable w (Free conn) \<Longrightarrow>
    mux_reachable w (Free ((conn_arrive data conn)\<lparr>cn_eof := eof\<rparr>))"

fun owner_inv :: "owner \<Rightarrow> bool" where
  "owner_inv (Free conn) \<longleftrightarrow> cn_channels conn = Map.empty \<and> cn_demux conn = None"
| "owner_inv (Open ch) \<longleftrightarrow> dom (cn_channels (ch_conn ch)) = {ch_idx ch} \<and>
     (\<exists>t. cn_demux (ch_conn ch) = Some (1, t))"

lemma dom_deliver [simp]: "dom (deliver idx payload chs) = dom chs"
  by (auto simp: deliver_def split: option.splits)

lemma dom_demux_run: "demux_run w eof chs t inp = (chs', t', inp') \<Longrightarrow> dom chs' = dom chs"
proof (induction w eof chs t inp rule: demux_run.induct)
  case (1 w eof chs buf inp)
  then show ?case
    by (auto simp: demux_run.simps(1)[of w eof chs buf inp] read_exact_def split: if_splits)
next
  case (2 w eof chs idx len buf inp)
  then show ?case
    by (auto simp: demux_run.simps(2)[of w eof chs idx len buf inp] read_exact_def split: if_splits)
qed simp

lemma demux_poll_dom: "dom (cn_channels (demux_poll w conn)) = dom (cn_channels conn)"
  using dom_demux_run by (auto simp: demux_poll_def split: option.split prod.split)

lemma demux_poll_task:
  "cn_demux conn = Some (n, t) \<Longrightarrow> \<exists>t'. cn_demux (demux_poll w conn) = Some (n, t')"
  by (simp add: demux_poll_def split: prod.split)

lemma connection_recv_inv:
  assumes "dom (cn_channels conn) = {idx}" and "cn_demux conn = Some (1, t)"
  shows "\<exists>r conn'. connection_recv w idx conn = (r, conn') \<and>
    (r = Pending [] \<or> (\<exists>payload. r = Ready (Inr payload))) \<and>
    dom (cn_channels conn') = {idx} \<and> (\<exists>t'. cn_demux conn' = Some (1, t'))"
proof -
  let ?conn = "demux_poll w conn"
  have "dom (cn_channels ?conn) = {idx}" using demux_poll_dom assms(1) by metis
  moreover from this obtain queue where "cn_channels ?conn idx = Some queue" by auto
  moreover have "\<exists>t'. cn_demux ?conn = Some (1, t')" using demux_poll_task[OF assms(2)] .
  ultimately show ?thesis
    by (cases queue) (auto simp: connection_recv_def Let_def insert_absorb)
qed

lemma mux_reachable_inv: "mux_reachable w x \<Longrightarrow> owner_inv x"
proof (induction rule: mux_reachable.induct)
  case (new now clock room)
  then show ?case by (simp add: connection_new_def)
next
  case (channel conn idx)
  then show ?case by (simp add: connection_channel_def run_demux_def register_def)
next
  case (send ch data)
  then show ?case by (simp add: channel_send_sent)
next
  case (recv ch)
  then show ?case
    using connection_recv_inv[of "ch_conn ch" "ch_idx ch" _ w]
    by (fastforce simp: channel_recv_def split: prod.split)
next
  case (drop ch)
  then have "dom (cn_channels (ch_conn ch)) = {ch_idx ch}" by simp
  then have "(cn_channels (ch_conn ch))(ch_idx ch := None) = Map.empty"
    by (auto simp: fun_eq_iff dom_def split: option.splits)
  with drop show ?case by (auto simp: channel_drop_def demux_drop_def unregister_def)
qed (simp_all add: conn_arrive_def)

text \<open>
  C19. In every state a connection can reach by opening and dropping channels, sends, receives
  and traffic from the peer: while it is free, no channel is attached and there is no task;
  while a channel is open, the table holds exactly that channel, and there is exactly one task,
  held by exactly that channel, which may have ended with the stream. A receive on the open
  channel either waits or returns a payload and never meets a closed queue; dropping the channel
  unregisters it and stops the task.
\<close>

theorem connection_lifetime:
  assumes "mux_reachable w x"
  shows "case x of
      Free conn \<Rightarrow> cn_channels conn = Map.empty \<and> cn_demux conn = None
    | Open ch \<Rightarrow> dom (cn_channels (ch_conn ch)) = {ch_idx ch} \<and>
        (\<exists>task. cn_demux (ch_conn ch) = Some (1, task)) \<and>
        (case channel_recv w ch of
           (Ready (Inl f), _) \<Rightarrow> False
         | (Ready (Inr payload), _) \<Rightarrow> True
         | (Pending l, _) \<Rightarrow> l = []) \<and>
        cn_channels (channel_drop ch) = Map.empty \<and> cn_demux (channel_drop ch) = None"
proof (cases x)
  case (Free conn)
  with mux_reachable_inv[OF assms] show ?thesis by simp
next
  case (Open ch)
  with assms have "owner_inv (Free (channel_drop ch))"
    by (blast intro: mux_reachable_inv mux_reachable.drop)
  with Open mux_reachable_inv[OF assms] connection_recv_inv[of "ch_conn ch" "ch_idx ch" _ w]
  show ?thesis by (fastforce simp: channel_recv_def)
qed

theorem connection_lifetime_witness:
  "dom (cn_channels (ch_conn (connection_channel 2 sample_connection))) = {2} \<and>
   (\<exists>task. cn_demux (ch_conn (connection_channel 2 sample_connection)) = Some (1, task)) \<and>
   cn_demux (channel_drop (connection_channel 2 sample_connection)) = None"
proof -
  have free: "mux_reachable sample_wire (Free sample_connection)"
    unfolding sample_connection_def by (rule mux_reachable.new)
  from connection_lifetime[OF mux_reachable.channel[OF free, of 2]]
  show ?thesis by (simp add: connection_channel_def)
qed

text \<open>
  C37. Closing the channel in the middle of a frame forgets how much of the frame has been read:
  the next channel's task takes the remaining bytes of the payload for a header.
\<close>

theorem reopening_forgets_frame:
  assumes "mux_reachable w (Open ch)"
  shows "cn_demux (ch_conn (connection_channel idx (channel_drop ch))) = Some (1, AtHeader []) \<and>
    cn_input (ch_conn (connection_channel idx (channel_drop ch))) = cn_input (ch_conn ch)"
  using mux_reachable_inv[OF assms]
  by (auto simp: channel_drop_def demux_drop_def connection_channel_def run_demux_def)

text \<open>A frame of two bytes for channel 2, of which one byte has arrived.\<close>

definition half_frame :: "byte list" where
  "half_frame = [0, 0, 0, 0, 0x80, 2, 0, 2, 7]"

definition half_read :: channel where
  "half_read = snd (channel_recv sample_wire
     ((connection_channel 2 sample_connection)\<lparr>ch_conn :=
        (conn_arrive half_frame (ch_conn (connection_channel 2 sample_connection)))\<lparr>cn_eof := False\<rparr>\<rparr>))"

theorem reopening_forgets_frame_witness:
  "cn_demux (ch_conn half_read) = Some (1, AtPayload 2 2 [7]) \<and>
   cn_demux (ch_conn (connection_channel 2 (channel_drop half_read))) = Some (1, AtHeader [])"
proof
  show "cn_demux (ch_conn half_read) = Some (1, AtPayload 2 2 [7])"
    by (simp add: half_read_def half_frame_def channel_recv_def connection_recv_def Let_def
        connection_channel_def run_demux_def register_def conn_arrive_def sample_connection_def
        connection_new_def demux_poll_def demux_run.simps read_exact_def sample_wire_def
        bytes_nat_def)
  have "mux_reachable sample_wire (Free sample_connection)"
    unfolding sample_connection_def by (rule mux_reachable.new)
  then have "mux_reachable sample_wire (Open half_read)"
    unfolding half_read_def by (intro mux_reachable.recv mux_reachable.traffic mux_reachable.channel)
  from reopening_forgets_frame[OF this]
  show "cn_demux (ch_conn (connection_channel 2 (channel_drop half_read))) = Some (1, AtHeader [])"
    by blast
qed

end
