(* ===== verification/Suspension.thy ===== *)
theory Suspension
  imports Handshake_Facts Chain_Sync_Facts Block_Fetch_Facts Mux_Delivery
begin

text \<open>
  Suspended calls: a call that waits for its peer and is resumed once more bytes have arrived
  goes on exactly as if the bytes had been there from the start. So the theorems that let
  bytes arrive before a call also speak of bytes that arrive while it runs.
\<close>

section \<open>Bytes that arrive later\<close>

definition late :: "byte list \<Rightarrow> channel \<Rightarrow> channel" where
  "late data ch = ch\<lparr>ch_conn := conn_arrive data (ch_conn ch)\<rparr>"

text \<open>A channel with the late bytes, when the task has looked at as much as it can.\<close>

definition caught_up :: "wire \<Rightarrow> byte list \<Rightarrow> channel \<Rightarrow> channel \<Rightarrow> bool" where
  "caught_up w data ch ch2 \<longleftrightarrow> ch_idx ch2 = ch_idx ch \<and> ch_bytes ch2 = ch_bytes ch \<and>
     demux_poll w (ch_conn ch2) = demux_poll w (conn_arrive data (ch_conn ch))"

lemma caught_up_late: "caught_up w data ch (late data ch)"
  by (simp add: caught_up_def late_def)

lemma caught_up_bytes:
  assumes "caught_up w data ch ch2"
  shows "ch_bytes ch2 = ch_bytes ch" "ch_idx ch2 = ch_idx ch"
    "caught_up w data (ch\<lparr>ch_bytes := l\<rparr>) (ch2\<lparr>ch_bytes := l\<rparr>)"
  using assms by (auto simp: caught_up_def)

text \<open>The task leaves the sending half alone.\<close>

lemma demux_poll_sender [simp]:
  "cn_sent (demux_poll w conn) = cn_sent conn"
  "cn_clock (demux_poll w conn) = cn_clock conn"
  "cn_writes (demux_poll w conn) = cn_writes conn"
  "cn_sent (conn_arrive data conn) = cn_sent conn"
  "cn_clock (conn_arrive data conn) = cn_clock conn"
  "cn_writes (conn_arrive data conn) = cn_writes conn"
  by (simp_all add: demux_poll_def conn_arrive_def split: option.split prod.split)

lemma caught_up_sender:
  assumes "caught_up w data ch ch2"
  shows "cn_sent (ch_conn ch2) = cn_sent (ch_conn ch)"
    "cn_clock (ch_conn ch2) = cn_clock (ch_conn ch)"
    "cn_writes (ch_conn ch2) = cn_writes (ch_conn ch)"
    "cn_eof (ch_conn ch2) = cn_eof (ch_conn ch)"
proof -
  have poll: "demux_poll w (ch_conn ch2) = demux_poll w (conn_arrive data (ch_conn ch))"
    using assms by (simp add: caught_up_def)
  show "cn_sent (ch_conn ch2) = cn_sent (ch_conn ch)"
    "cn_clock (ch_conn ch2) = cn_clock (ch_conn ch)"
    "cn_writes (ch_conn ch2) = cn_writes (ch_conn ch)"
    "cn_eof (ch_conn ch2) = cn_eof (ch_conn ch)"
    using arg_cong[OF poll, of cn_sent] arg_cong[OF poll, of cn_clock]
      arg_cong[OF poll, of cn_writes] arg_cong[OF poll, of cn_eof] by simp_all
qed

text \<open>The task may run between the arrival of bytes.\<close>

lemma caught_up_task:
  assumes "\<not> cn_eof (ch_conn ch)"
  shows "caught_up w [] (late data ch)
    (late data (ch\<lparr>ch_conn := demux_poll w (ch_conn ch)\<rparr>))"
  using demux_poll_arrive[OF assms, of w data]
  by (simp add: caught_up_def late_def conn_arrive_def)

lemma caught_up_further:
  assumes "caught_up w data ch ch2" and "\<not> cn_eof (ch_conn ch)"
  shows "caught_up w (data @ d) ch (late d ch2)"
    and "caught_up w data ch (ch2\<lparr>ch_conn := demux_poll w (ch_conn ch2)\<rparr>)"
proof -
  have poll: "demux_poll w (ch_conn ch2) = demux_poll w (conn_arrive data (ch_conn ch))"
    using assms(1) by (simp add: caught_up_def)
  have "demux_poll w (conn_arrive d (ch_conn ch2)) =
      demux_poll w (conn_arrive d (demux_poll w (conn_arrive data (ch_conn ch))))"
    using demux_poll_arrive[of "ch_conn ch2" w d] caught_up_sender(4)[OF assms(1)] assms(2)
    by (simp flip: poll)
  also have "\<dots> = demux_poll w (conn_arrive (data @ d) (ch_conn ch))"
    using demux_poll_arrive[of "conn_arrive data (ch_conn ch)" w d] assms(2)
    by (simp add: conn_arrive_append)
  finally show "caught_up w (data @ d) ch (late d ch2)"
    using assms(1) by (simp add: caught_up_def late_def)
  show "caught_up w data ch (ch2\<lparr>ch_conn := demux_poll w (ch_conn ch2)\<rparr>)"
    using assms(1) by (simp add: caught_up_def)
qed

lemma demux_poll_pop:
  assumes "cn_channels conn idx = Some (p # q)"
  shows "\<exists>q'. cn_channels (demux_poll w conn) idx = Some (p # q') \<and>
    demux_poll w (conn\<lparr>cn_channels := (cn_channels conn)(idx \<mapsto> q)\<rparr>) =
      (demux_poll w conn)\<lparr>cn_channels := (cn_channels (demux_poll w conn))(idx \<mapsto> q')\<rparr>"
proof (cases "cn_demux conn")
  case None
  with assms show ?thesis by (auto simp: demux_poll_def)
next
  case (Some nt)
  obtain n t where nt: "nt = (n, t)" by (cases nt)
  obtain chs t' inp where run:
    "demux_run w (cn_eof conn) (cn_channels conn) t (cn_input conn) = (chs, t', inp)"
    by (cases "demux_run w (cn_eof conn) (cn_channels conn) t (cn_input conn)")
  from demux_run_pop[OF this assms] Some nt run show ?thesis
    by (auto simp: demux_poll_def)
qed

lemma connection_recv_late:
  assumes "connection_recv w idx conn = (Ready (Inr p), conn')" and "\<not> cn_eof conn"
  shows "connection_recv w idx (conn_arrive data conn) =
    (Ready (Inr p), demux_poll w (conn_arrive data conn'))"
proof -
  from assms(1) obtain q where q: "cn_channels (demux_poll w conn) idx = Some (p # q)"
      "conn' = (demux_poll w conn)\<lparr>cn_channels := (cn_channels (demux_poll w conn))(idx \<mapsto> q)\<rparr>"
    by (auto simp: connection_recv_def Let_def split: option.splits list.splits)
  let ?late = "conn_arrive data (demux_poll w conn)"
  have "conn_arrive data conn' = ?late\<lparr>cn_channels := (cn_channels ?late)(idx \<mapsto> q)\<rparr>"
    by (simp add: q(2) conn_arrive_def)
  moreover have "cn_channels ?late idx = Some (p # q)" using q(1) by (simp add: conn_arrive_def)
  ultimately show ?thesis
    using demux_poll_pop[of ?late idx p q w] demux_poll_arrive[OF assms(2), of w data]
    by (auto simp: connection_recv_def Let_def)
qed

lemma connection_recv_late_fails:
  assumes "connection_recv w idx conn = (Ready (Inl f), conn')" and "\<not> cn_eof conn"
  shows "connection_recv w idx (conn_arrive data conn) =
    (Ready (Inl f), demux_poll w (conn_arrive data conn'))"
proof -
  from assms(1) have conn': "conn' = demux_poll w conn" "f = Panic UnwrapPanic"
    and "idx \<notin> dom (cn_channels (demux_poll w conn))"
    by (auto simp: connection_recv_def Let_def split: option.splits list.splits)
  then have "idx \<notin> dom (cn_channels (demux_poll w (conn_arrive data conn)))"
    by (simp only: demux_poll_dom) (simp add: conn_arrive_def)
  then have "cn_channels (demux_poll w (conn_arrive data conn)) idx = None" by blast
  then show ?thesis
    using demux_poll_arrive[OF assms(2), of w data] conn' by (simp add: connection_recv_def)
qed

lemma connection_recv_waits:
  assumes "connection_recv w idx conn = (Pending l, conn')" and "\<not> cn_eof conn"
  shows "connection_recv w idx (conn_arrive data conn') =
    connection_recv w idx (conn_arrive data conn)"
proof -
  have "conn' = demux_poll w conn"
    using assms(1) by (auto simp: connection_recv_def Let_def split: option.splits list.splits)
  then show ?thesis
    using demux_poll_arrive[OF assms(2), of w data] by (simp add: connection_recv_def)
qed

text \<open>The same for a channel.\<close>

lemma channel_recv_eof: "cn_eof (ch_conn (snd (channel_recv w ch))) = cn_eof (ch_conn ch)"
  by (simp add: channel_recv_def connection_recv_def Let_def
      split: prod.split option.split list.split)

lemma channel_recv_caught_up:
  assumes "caught_up w data ch ch2"
  shows "channel_recv w ch2 = (case connection_recv w (ch_idx ch) (conn_arrive data (ch_conn ch)) of
    (r, conn) \<Rightarrow> (r, ch2\<lparr>ch_conn := conn\<rparr>))"
  using assms by (simp add: channel_recv_def caught_up_def connection_recv_def)

lemma channel_recv_late:
  assumes "channel_recv w ch = (Ready r, ch')" and "\<not> cn_eof (ch_conn ch)"
    and "caught_up w data ch ch2"
  shows "\<exists>ch2'. channel_recv w ch2 = (Ready r, ch2') \<and> caught_up w data ch' ch2'"
proof -
  obtain conn where recv: "connection_recv w (ch_idx ch) (ch_conn ch) = (Ready r, conn)"
    and ch': "ch' = ch\<lparr>ch_conn := conn\<rparr>"
    using assms(1) by (auto simp: channel_recv_def split: prod.splits)
  then have "connection_recv w (ch_idx ch) (conn_arrive data (ch_conn ch)) =
      (Ready r, demux_poll w (conn_arrive data conn))"
    using connection_recv_late[OF _ assms(2)] connection_recv_late_fails[OF _ assms(2)]
    by (cases r) auto
  then show ?thesis
    using assms(3) by (simp add: channel_recv_caught_up[OF assms(3)] ch' caught_up_def)
qed

lemma channel_recv_waits:
  assumes "channel_recv w ch = (Pending l, ch')" and "\<not> cn_eof (ch_conn ch)"
    and "caught_up w data ch ch2"
  shows "channel_recv w ch2 = channel_recv w (late data ch')"
proof -
  obtain conn where recv: "connection_recv w (ch_idx ch) (ch_conn ch) = (Pending l, conn)"
    and ch': "ch' = ch\<lparr>ch_conn := conn\<rparr>"
    using assms(1) by (auto simp: channel_recv_def split: prod.splits)
  have "ch2\<lparr>ch_conn := k\<rparr> = ch\<lparr>ch_conn := k\<rparr>" for k
    using assms(3) by (cases ch; cases ch2) (simp add: caught_up_def)
  then show ?thesis
    using connection_recv_waits[OF recv assms(2), of data]
    unfolding channel_recv_caught_up[OF assms(3)]
    by (simp add: ch' late_def channel_recv_def split: prod.split)
qed

lemma demux_poll_send:
  assumes "cn_sent a = cn_sent b" "cn_clock a = cn_clock b" "cn_writes a = cn_writes b"
    and "demux_poll w a = demux_poll w (conn_arrive data b)"
    and "connection_send w idx d b = (r, b')"
  shows "\<exists>a'. connection_send w idx d a = (r, a') \<and>
    demux_poll w a' = demux_poll w (conn_arrive data b')"
proof -
  have poll: "connection_send w idx d (demux_poll w k) = (fst (connection_send w idx d k),
      demux_poll w (snd (connection_send w idx d k)))" for k
    by (simp add: connection_send_def demux_poll_def Let_def
        split: write_outcome.split option.split prod.split)
  have arrive: "connection_send w idx d (conn_arrive data b) = (r, conn_arrive data b')"
    using assms(5) by (auto simp: connection_send_def conn_arrive_def Let_def
        split: write_outcome.splits)
  have "connection_send w idx d (demux_poll w a) = (r, demux_poll w (conn_arrive data b'))"
    by (simp add: assms(4) poll arrive)
  then show ?thesis unfolding poll by (cases "connection_send w idx d a") auto
qed

lemma channel_send_late:
  assumes "channel_send w d ch = (r, ch')" and "caught_up w data ch ch2"
  shows "\<exists>ch2'. channel_send w d ch2 = (r, ch2') \<and> caught_up w data ch' ch2'"
proof -
  obtain conn where conn: "connection_send w (ch_idx ch) d (ch_conn ch) = (r, conn)"
      "ch' = ch\<lparr>ch_conn := conn\<rparr>"
    using assms(1) by (auto simp: channel_send_def split: prod.splits)
  have "demux_poll w (ch_conn ch2) = demux_poll w (conn_arrive data (ch_conn ch))"
    using assms(2) by (simp add: caught_up_def)
  from demux_poll_send[OF caught_up_sender(1-3)[OF assms(2)] this conn(1)] assms(2) conn(2)
  show ?thesis by (auto simp: channel_send_def caught_up_def)
qed

lemma channel_send_eof: "channel_send w d ch = (r, ch') \<Longrightarrow> cn_eof (ch_conn ch') = cn_eof (ch_conn ch)"
  by (auto simp: channel_send_def connection_send_def Let_def split: write_outcome.splits)

section \<open>Resumption\<close>

context protocol_contract
begin

lemma receive_loop_set:
  assumes "cbor_progress c" and "receive_loop c P data off last_offset s = Some (r, s')"
  shows "receive_loop c P data off last_offset (pr_set_channel P ch s) =
    Some (r, pr_set_channel P ch s')"
  using assms(2)
proof (induction "length data - off" arbitrary: off last_offset s rule: less_induct)
  case less
  show ?case
  proof (cases "\<exists>vs n. \<not> length data \<le> off \<and> next_item c (drop off data) = Item vs n")
    case True
    then obtain vs n where item: "\<not> length data \<le> off" "next_item c (drop off data) = Item vs n"
      by blast
    then have "0 < n"
      using assms(1) unfolding cbor_progress_def by (metis drop_eq_Nil)
    then have n: "length data - (off + n) < length data - off" using item(1) by simp
    show ?thesis
    proof (cases "unwrap (pr_from_iter P vs)")
      case (Inl f)
      with less.prems item show ?thesis by (simp add: receive_loop.simps[of c P data off])
    next
      case (Inr m)
      obtain r1 t where t: "unwrap_s (pr_recv P m) s = (r1, t)"
        by (cases "unwrap_s (pr_recv P m) s")
      then have t': "unwrap_s (pr_recv P m) (pr_set_channel P ch s) = (r1, pr_set_channel P ch t)"
        by (auto simp: unwrap_s_def recv_set split: prod.splits)
      show ?thesis
      proof (cases r1)
        case Inl
        with less.prems item Inr t t' show ?thesis
          by (simp add: receive_loop.simps[of c P data off])
      next
        case r1: Inr
        with less.prems item Inr t have
          "receive_loop c P data (off + n) (off + n) t = Some (r, s')"
          by (simp add: receive_loop.simps[of c P data off])
        from less(1)[OF n this] item Inr t' r1 show ?thesis
          by (simp add: receive_loop.simps[of c P data off])
      qed
    qed
  next
    case False
    with less.prems show ?thesis
      by (auto simp: receive_loop.simps[of c P data off] split: if_splits stream_item.splits)
  qed
qed

lemma receive_bytes_set:
  assumes "cbor_progress c" and "receive_bytes c P data s = Some (r, s')"
  shows "receive_bytes c P data (pr_set_channel P ch s) = Some (r, pr_set_channel P ch s')"
  using assms(2) receive_loop_set[OF assms(1)]
  by (auto simp: receive_bytes_def split: if_splits)

lemma send_bytes_set:
  assumes "send_bytes P s = (r, s')"
  shows "send_bytes P (pr_set_channel P ch s) = (r, pr_set_channel P ch s')"
  using assms by (auto simp: send_bytes_def bind_s_def unwrap_s_def lift_r_def ret_s_def send_set
      split: if_splits prod.splits sum.splits)

text \<open>One turn of the loop of \<open>execute\<close>, with the late bytes and without.\<close>

lemma late_send:
  assumes "pr_agency P s \<noteq> NoAgency" "pr_agency P s = pr_role P s"
    and "send_bytes P s = (Inr (Some d), t)" and "channel_send w d (pr_channel P t) = (Inr u, ch)"
    and "caught_up w data (pr_channel P s) ch2"
  obtains ch3 where "caught_up w data ch ch3" "execute_from w c P None (pr_set_channel P ch2 s) =
    execute_from w c P None (pr_set_channel P ch3 (pr_set_channel P ch t))"
proof -
  have "pr_channel P t = pr_channel P s" using send_bytes_sent[OF assms(3)] by simp
  with channel_send_late[OF assms(4)] assms(5) obtain ch3
    where ch3: "channel_send w d ch2 = (Inr u, ch3)" "caught_up w data ch ch3" by auto
  have "execute_from w c P None (pr_set_channel P ch2 s) =
      execute_from w c P None (pr_set_channel P ch3 t)"
    using assms(1,2) send_bytes_set[OF assms(3), of ch2] ch3(1)
    by (simp add: execute_from.simps[of w c P None "pr_set_channel P ch2 s"])
  with that[OF ch3(2)] show thesis by simp
qed

lemma late_head:
  assumes "pr_agency P s \<noteq> NoAgency" "pr_agency P s \<noteq> pr_role P s"
    and "caught_up w data (pr_channel P s) ch2"
  obtains ch3 where "caught_up w data (pr_channel P (set_bytes P [] s)) ch3"
    "execute_from w c P None (pr_set_channel P ch2 s) =
      execute_from w c P (Some (ch_bytes (pr_channel P s))) (pr_set_channel P ch3 (set_bytes P [] s))"
proof (rule that[of "ch2\<lparr>ch_bytes := []\<rparr>"])
  show "caught_up w data (pr_channel P (set_bytes P [] s)) (ch2\<lparr>ch_bytes := []\<rparr>)"
    using caught_up_bytes(3)[OF assms(3)] by (simp add: set_bytes_def)
  show "execute_from w c P None (pr_set_channel P ch2 s) =
      execute_from w c P (Some (ch_bytes (pr_channel P s)))
        (pr_set_channel P (ch2\<lparr>ch_bytes := []\<rparr>) (set_bytes P [] s))"
    using assms(1,2) caught_up_bytes(1)[OF assms(3)]
    by (simp add: execute_from.simps[of w c P None "pr_set_channel P ch2 s"] set_bytes_def)
qed

lemma late_receive:
  assumes "cbor_progress c" and "\<not> cn_eof (ch_conn (pr_channel P s))"
    and "channel_recv w (pr_channel P s) = (Ready (Inr p), ch)"
    and "receive_bytes c P (l @ p) (pr_set_channel P ch s) = Some (Inr kept, t)"
    and "caught_up w data (pr_channel P s) ch2"
    and "u = set_bytes P (case kept of None \<Rightarrow> [] | Some b \<Rightarrow> b) t"
  obtains ch3 where "caught_up w data (pr_channel P u) ch3"
    "execute_from w c P (Some l) (pr_set_channel P ch2 s) =
      execute_from w c P None (pr_set_channel P ch3 u)"
proof -
  let ?k = "case kept of None \<Rightarrow> [] | Some b \<Rightarrow> b"
  obtain ch3 where ch3: "channel_recv w ch2 = (Ready (Inr p), ch3)" "caught_up w data ch ch3"
    using channel_recv_late[OF assms(3,2,5)] by blast
  have "receive_bytes c P (l @ p) (pr_set_channel P ch3 s) = Some (Inr kept, pr_set_channel P ch3 t)"
    using receive_bytes_set[OF assms(1,4), of ch3] by simp
  then have "execute_from w c P (Some l) (pr_set_channel P ch2 s) =
      execute_from w c P None (pr_set_channel P (ch3\<lparr>ch_bytes := ?k\<rparr>) u)"
    using ch3(1)
    by (simp add: execute_from.simps[of w c P "Some l"] set_bytes_def assms(6))
  moreover have "pr_channel P t = ch"
    using receive_bytes_returns[OF assms(1), of "l @ p" "pr_set_channel P ch s"] assms(4) by auto
  then have "caught_up w data (pr_channel P u) (ch3\<lparr>ch_bytes := ?k\<rparr>)"
    using caught_up_bytes(3)[OF ch3(2)] by (simp add: set_bytes_def assms(6))
  ultimately show thesis using that by blast
qed

lemma late_waits:
  assumes "\<not> cn_eof (ch_conn (pr_channel P s))"
    and "channel_recv w (pr_channel P s) = (Pending b, ch)"
    and "caught_up w data (pr_channel P s) ch2"
  shows "execute_from w c P (Some l) (pr_set_channel P ch2 s) =
    execute_from w c P (Some l) (pr_set_channel P (late data ch) s)"
  using channel_recv_waits[OF assms(2,1,3)]
  by (cases "channel_recv w (late data ch)")
    (simp add: execute_from.simps[of w c P "Some l"] split: poll.split sum.split)

text \<open>What the late bytes make of a run: of one that is suspended, and of one that has ended.\<close>

definition late_run :: "wire \<Rightarrow> cbor \<Rightarrow> byte list \<Rightarrow> byte list option \<Rightarrow> 's \<Rightarrow>
    (error, unit) poll \<times> 's \<Rightarrow> bool" where
  "late_run w c data at_await s res \<longleftrightarrow> (\<forall>ch2. caught_up w data (pr_channel P s) ch2 \<longrightarrow>
     (case res of
        (Pending l, s') \<Rightarrow> execute_from w c P at_await (pr_set_channel P ch2 s) =
          execute_from w c P (Some l) (pr_set_channel P (late data (pr_channel P s')) s')
      | (Ready r, s') \<Rightarrow> \<exists>ch3. caught_up w data (pr_channel P s') ch3 \<and>
          execute_from w c P at_await (pr_set_channel P ch2 s) =
            Some (Ready r, pr_set_channel P ch3 s')))"

lemma late_run_turn:
  assumes "late_run w c data at_await' t res"
    and "\<And>ch2. caught_up w data (pr_channel P s) ch2 \<Longrightarrow> \<exists>ch3. caught_up w data (pr_channel P t) ch3 \<and>
      execute_from w c P at_await (pr_set_channel P ch2 s) =
      execute_from w c P at_await' (pr_set_channel P ch3 t)"
  shows "late_run w c data at_await s res"
  unfolding late_run_def
proof (intro allI impI)
  fix ch2 assume "caught_up w data (pr_channel P s) ch2"
  with assms(2) obtain ch3 where "caught_up w data (pr_channel P t) ch3"
    "execute_from w c P at_await (pr_set_channel P ch2 s) =
      execute_from w c P at_await' (pr_set_channel P ch3 t)" by blast
  with assms(1) show "case res of
        (Pending l, s') \<Rightarrow> execute_from w c P at_await (pr_set_channel P ch2 s) =
          execute_from w c P (Some l) (pr_set_channel P (late data (pr_channel P s')) s')
      | (Ready r, s') \<Rightarrow> \<exists>ch3. caught_up w data (pr_channel P s') ch3 \<and>
          execute_from w c P at_await (pr_set_channel P ch2 s) =
            Some (Ready r, pr_set_channel P ch3 s')"
    unfolding late_run_def by (cases res; cases "fst res") auto
qed

text \<open>A turn that sends, up to the next one.\<close>

lemma late_run_sends:
  assumes "cbor_progress c" and "pr_agency P s \<noteq> NoAgency" "pr_agency P s = pr_role P s"
    and "(case send_bytes P s of
        (Inl f, s') \<Rightarrow> Some (Ready (Inl f), s')
      | (Inr None, s') \<Rightarrow> Some (Ready (Inl (Panic UnwrapPanic)), s')
      | (Inr (Some d), s') \<Rightarrow>
          (case channel_send w d (pr_channel P s') of
             (Inl f, ch) \<Rightarrow> Some (Ready (Inl f), pr_set_channel P ch s')
           | (Inr _, ch) \<Rightarrow> f w c P None (pr_set_channel P ch s'))) = Some res"
    and next_turn: "\<And>t. f w c P None t = Some res \<Longrightarrow>
      cn_eof (ch_conn (pr_channel P t)) = cn_eof (ch_conn (pr_channel P s)) \<Longrightarrow>
      late_run w c data None t res"
  shows "late_run w c data None s res"
proof -
  obtain r t where t: "send_bytes P s = (r, t)" by (cases "send_bytes P s")
  then have chan: "pr_channel P t = pr_channel P s"
    using send_bytes_invariant[of "\<lambda>u. pr_channel P u = pr_channel P s" s r t] by simp
  have t': "send_bytes P (pr_set_channel P ch2 s) = (r, pr_set_channel P ch2 t)" for ch2
    by (rule send_bytes_set[OF t])
  note turn = execute_from.simps[of w c P None "pr_set_channel P _ s"]
  show ?thesis
  proof (cases "\<exists>d. r = Inr (Some d)")
    case True
    then obtain d where d: "r = Inr (Some d)" by blast
    obtain r1 ch where send: "channel_send w d (pr_channel P t) = (r1, ch)"
      by (cases "channel_send w d (pr_channel P t)")
    show ?thesis
    proof (cases r1)
      case (Inl g)
      with assms(4) t d send have res: "res = (Ready (Inl g), pr_set_channel P ch t)" by simp
      have "\<exists>ch3. caught_up w data ch ch3 \<and> execute_from w c P None (pr_set_channel P ch2 s) =
          Some (Ready (Inl g), pr_set_channel P ch3 (pr_set_channel P ch t))"
        if "caught_up w data (pr_channel P s) ch2" for ch2
        using channel_send_late[OF send[unfolded chan] that] assms(2,3) t' d Inl
        by (auto simp: turn)
      then show ?thesis by (simp add: late_run_def res)
    next
      case (Inr u)
      with assms(4) t d send have f: "f w c P None (pr_set_channel P ch t) = Some res" by simp
      then have "late_run w c data None (pr_set_channel P ch t) res"
        by (rule next_turn) (simp add: channel_send_eof[OF send] chan)
      then show ?thesis
      proof (rule late_run_turn)
        fix ch2 assume "caught_up w data (pr_channel P s) ch2"
        with late_send[OF assms(2,3) t[unfolded d] send[unfolded Inr], of data ch2 c]
        show "\<exists>ch3. caught_up w data (pr_channel P (pr_set_channel P ch t)) ch3 \<and>
            execute_from w c P None (pr_set_channel P ch2 s) =
            execute_from w c P None (pr_set_channel P ch3 (pr_set_channel P ch t))"
          by (metis get_set)
      qed
    qed
  next
    case False
    then obtain g where res: "res = (Ready (Inl g), t)"
      and same: "\<And>ch2. execute_from w c P None (pr_set_channel P ch2 s) =
        Some (Ready (Inl g), pr_set_channel P ch2 t)"
      using assms(2-4) t t' by (cases r) (auto simp: turn split: option.splits)
    show ?thesis unfolding late_run_def res using same chan by auto
  qed
qed

text \<open>A turn that receives.\<close>

lemma late_run_receives:
  assumes "cbor_progress c" and eof: "\<not> cn_eof (ch_conn (pr_channel P s))"
    and "(case channel_recv w (pr_channel P s) of
        (Ready (Inl f), ch) \<Rightarrow> Some (Ready (Inl f), pr_set_channel P ch s)
      | (Ready (Inr new_data), ch) \<Rightarrow>
          (case receive_bytes c P (l @ new_data) (pr_set_channel P ch s) of
             None \<Rightarrow> None
           | Some (Inl f, s') \<Rightarrow> Some (Ready (Inl f), s')
           | Some (Inr kept, s') \<Rightarrow>
               f w c P None (set_bytes P (case kept of None \<Rightarrow> [] | Some b \<Rightarrow> b) s'))
      | (Pending _, ch) \<Rightarrow> Some (Pending l, pr_set_channel P ch s)) = Some res"
    and next_turn: "\<And>t. f w c P None t = Some res \<Longrightarrow>
      cn_eof (ch_conn (pr_channel P t)) = cn_eof (ch_conn (pr_channel P s)) \<Longrightarrow>
      late_run w c data None t res"
  shows "late_run w c data (Some l) s res"
proof -
  obtain r ch where recv: "channel_recv w (pr_channel P s) = (r, ch)"
    by (cases "channel_recv w (pr_channel P s)")
  note turn = execute_from.simps[of w c P "Some l" "pr_set_channel P _ s"]
  consider g where "r = Ready (Inl g)" | p where "r = Ready (Inr p)" | b where "r = Pending b"
    by (cases r; cases "case r of Ready q \<Rightarrow> q | Pending b \<Rightarrow> Inl (Panic UnwrapPanic)") auto
  then show ?thesis
  proof cases
    case (1 g)
    with assms(3) recv have res: "res = (Ready (Inl g), pr_set_channel P ch s)" by simp
    have "\<exists>ch3. caught_up w data ch ch3 \<and> execute_from w c P (Some l) (pr_set_channel P ch2 s) =
        Some (Ready (Inl g), pr_set_channel P ch3 (pr_set_channel P ch s))"
      if "caught_up w data (pr_channel P s) ch2" for ch2
      using channel_recv_late[OF recv[unfolded 1] eof that] by (auto simp: turn)
    then show ?thesis by (simp add: late_run_def res)
  next
    case (2 p)
    obtain q t where q: "receive_bytes c P (l @ p) (pr_set_channel P ch s) = Some (q, t)"
        "pr_channel P t = ch"
      using receive_bytes_returns[OF assms(1), of "l @ p" "pr_set_channel P ch s"] by auto
    show ?thesis
    proof (cases q)
      case (Inl g)
      with assms(3) recv 2 q have res: "res = (Ready (Inl g), t)" by simp
      have "\<exists>ch3. caught_up w data ch ch3 \<and> execute_from w c P (Some l) (pr_set_channel P ch2 s) =
          Some (Ready (Inl g), pr_set_channel P ch3 t)"
        if caught: "caught_up w data (pr_channel P s) ch2" for ch2
      proof -
        from channel_recv_late[OF recv[unfolded 2] eof caught] obtain ch3 where
          ch3: "channel_recv w ch2 = (Ready (Inr p), ch3)" "caught_up w data ch ch3" by blast
        have "receive_bytes c P (l @ p) (pr_set_channel P ch3 s) = Some (Inl g, pr_set_channel P ch3 t)"
          using receive_bytes_set[OF assms(1) q(1), of ch3] Inl by simp
        with ch3 show ?thesis by (auto simp: turn)
      qed
      then show ?thesis by (simp add: late_run_def res q(2))
    next
      case (Inr kept)
      let ?u = "set_bytes P (case kept of None \<Rightarrow> [] | Some b \<Rightarrow> b) t"
      from assms(3) recv 2 q Inr have "f w c P None ?u = Some res" by simp
      then have "late_run w c data None ?u res"
        by (rule next_turn)
          (use channel_recv_eof[of w "pr_channel P s"] in \<open>simp add: set_bytes_def q(2) recv\<close>)
      then show ?thesis
      proof (rule late_run_turn)
        fix ch2 assume "caught_up w data (pr_channel P s) ch2"
        from late_receive[OF assms(1) eof recv[unfolded 2] q(1)[unfolded Inr] this refl]
        show "\<exists>ch3. caught_up w data (pr_channel P ?u) ch3 \<and>
            execute_from w c P (Some l) (pr_set_channel P ch2 s) =
            execute_from w c P None (pr_set_channel P ch3 ?u)"
          by blast
      qed
    qed
  next
    case (3 b)
    with assms(3) recv have "res = (Pending l, pr_set_channel P ch s)" by simp
    then show ?thesis
      using late_waits[OF eof recv[unfolded 3]] by (simp add: late_run_def)
  qed
qed

lemma execute_late_run:
  assumes "cbor_progress c" and run: "execute_from w c P at_await s = Some res"
    and "\<not> cn_eof (ch_conn (pr_channel P s))"
  shows "late_run w c data at_await s res"
proof -
  let ?ok = "\<lambda>at_await s res. \<not> cn_eof (ch_conn (pr_channel P s)) \<longrightarrow> late_run w c data at_await s res"
  have "case ((((w, c), P), at_await), s) of
      ((((w', c'), Q), at_await), s) \<Rightarrow> w' = w \<and> c' = c \<and> Q = P \<longrightarrow> ?ok at_await s res"
  proof (rule execute_from.raw_induct[where
        Pa = "\<lambda>args res. case args of ((((w', c'), Q), at_await), s) \<Rightarrow>
          w' = w \<and> c' = c \<and> Q = P \<longrightarrow> ?ok at_await s res", OF _ run],
      unfold split, intro impI)
    fix f w' c' Q at_await s res
    assume IH: "\<And>w' c' Q at_await s res. f w' c' Q at_await s = Some res \<Longrightarrow>
        w' = w \<and> c' = c \<and> Q = P \<longrightarrow> ?ok at_await s res"
      and eq: "(case at_await of
     None \<Rightarrow>
       (if pr_agency Q s = NoAgency then Some (Ready (Inr ()), s)
        else if pr_agency Q s = pr_role Q s then
          (case send_bytes Q s of
             (Inl f, s') \<Rightarrow> Some (Ready (Inl f), s')
           | (Inr None, s') \<Rightarrow> Some (Ready (Inl (Panic UnwrapPanic)), s')
           | (Inr (Some data), s') \<Rightarrow>
               (case channel_send w' data (pr_channel Q s') of
                  (Inl f, ch) \<Rightarrow> Some (Ready (Inl f), pr_set_channel Q ch s')
                | (Inr _, ch) \<Rightarrow> f w' c' Q None (pr_set_channel Q ch s')))
        else f w' c' Q (Some (ch_bytes (pr_channel Q s))) (set_bytes Q [] s))
   | Some bytes \<Rightarrow>
       (case channel_recv w' (pr_channel Q s) of
          (Ready (Inl f), ch) \<Rightarrow> Some (Ready (Inl f), pr_set_channel Q ch s)
        | (Ready (Inr new_data), ch) \<Rightarrow>
            (case receive_bytes c' Q (bytes @ new_data) (pr_set_channel Q ch s) of
               None \<Rightarrow> None
             | Some (Inl f, s') \<Rightarrow> Some (Ready (Inl f), s')
             | Some (Inr kept, s') \<Rightarrow>
                 f w' c' Q None (set_bytes Q (case kept of None \<Rightarrow> [] | Some b \<Rightarrow> b) s'))
        | (Pending _, ch) \<Rightarrow> Some (Pending bytes, pr_set_channel Q ch s))) = Some res"
      and "w' = w \<and> c' = c \<and> Q = P" and eof: "\<not> cn_eof (ch_conn (pr_channel P s))"
    then have [simp]: "w' = w" "c' = c" "Q = P" by simp_all
    have next_turn: "late_run w c data a t res"
      if "f w c P a t = Some res"
        "cn_eof (ch_conn (pr_channel P t)) = cn_eof (ch_conn (pr_channel P s))" for a t
      using IH[OF that(1)] that(2) eof by simp
    show "late_run w c data at_await s res"
    proof (cases at_await)
      case (Some l)
      from eq[unfolded Some \<open>w' = w\<close> \<open>c' = c\<close> \<open>Q = P\<close> option.case] show ?thesis
        unfolding Some by (rule late_run_receives[OF assms(1) eof _ next_turn])
    next
      case None
      consider "pr_agency P s = NoAgency" | "pr_agency P s \<noteq> NoAgency" "pr_agency P s = pr_role P s"
        | "pr_agency P s \<noteq> NoAgency" "pr_agency P s \<noteq> pr_role P s" by blast
      then show ?thesis
      proof cases
        case 1
        with eq None show ?thesis
          by (auto simp: late_run_def execute_from.simps[of w c P None "pr_set_channel P _ s"])
      next
        case 2
        from eq[unfolded None \<open>w' = w\<close> \<open>c' = c\<close> \<open>Q = P\<close> option.case if_not_P[OF 2(1)] if_P[OF 2(2)]]
        show ?thesis unfolding None by (rule late_run_sends[OF assms(1) 2 _ next_turn])
      next
        case 3
        with eq None have "f w c P (Some (ch_bytes (pr_channel P s))) (set_bytes P [] s) = Some res"
          by simp
        then have "late_run w c data (Some (ch_bytes (pr_channel P s))) (set_bytes P [] s) res"
          by (rule next_turn) (simp add: set_bytes_def)
        then show ?thesis
          unfolding None by (rule late_run_turn) (metis late_head[OF 3])
      qed
    qed
  qed
  with assms(3) show ?thesis by simp
qed

lemma execute_late:
  assumes "cbor_progress c" and "execute_from w c P at_await s = Some (Pending l, s')"
    and "\<not> cn_eof (ch_conn (pr_channel P s))"
  shows "execute_from w c P (Some l) (pr_set_channel P (late data (pr_channel P s')) s') =
    execute_from w c P at_await (pr_set_channel P (late data (pr_channel P s)) s)"
  using execute_late_run[OF assms, of data] caught_up_late by (simp add: late_run_def)

lemma call_late:
  assumes "cbor_progress c" and "bind_t (execute w c P) (\<lambda>_. sync_t k) s = Some (Pending l, s')"
    and "\<not> cn_eof (ch_conn (pr_channel P s))"
  shows "bind_t (execute_from w c P (Some l)) (\<lambda>_. sync_t k)
      (pr_set_channel P (late data (pr_channel P s')) s') =
    bind_t (execute w c P) (\<lambda>_. sync_t k) (pr_set_channel P (late data (pr_channel P s)) s)"
proof -
  have "execute_from w c P None s = Some (Pending l, s')"
    using assms(2) by (auto simp: execute_def bind_t_def sync_t_def
        split: option.splits prod.splits poll.splits sum.splits)
  from execute_late[OF assms(1) this assms(3), of data] show ?thesis
    by (simp add: execute_def bind_t_def)
qed

end

section \<open>The public calls\<close>

definition hs_late :: "byte list \<Rightarrow> handshake \<Rightarrow> handshake" where
  "hs_late data s = s\<lparr>hs_channel := late data (hs_channel s)\<rparr>"

definition cs_late :: "byte list \<Rightarrow> chain_sync \<Rightarrow> chain_sync" where
  "cs_late data s = s\<lparr>cs_channel := late data (cs_channel s)\<rparr>"

definition bf_late :: "byte list \<Rightarrow> block_fetch \<Rightarrow> block_fetch" where
  "bf_late data s = s\<lparr>bf_channel := late data (bf_channel s)\<rparr>"

lemmas call_lates = hs_late_def cs_late_def bf_late_def

text \<open>
  C10. A call that is suspended waiting for the peer and resumed when more bytes have arrived
  returns what it would have returned, and leaves the client in the state it would have left
  it in, had the bytes been there from the start.
\<close>

theorem suspension_transparent:
  assumes "cbor_progress c" and "\<not> cn_eof (ch_conn (hs_channel hs))"
    and "\<not> cn_eof (ch_conn (cs_channel cs))" and "\<not> cn_eof (ch_conn (bf_channel bf))"
  shows "(negotiate w c hs = Some (Pending l, hs') \<longrightarrow>
      negotiate_resume w c l (hs_late data hs') = negotiate w c (hs_late data hs)) \<and>
    (find_intersect w c blake2b points cs = Some (Pending l, cs') \<longrightarrow>
      find_intersect_resume w c blake2b l (cs_late data cs') =
        find_intersect w c blake2b points (cs_late data cs)) \<and>
    (request_next w c blake2b cs = Some (Pending l, cs') \<longrightarrow>
      request_next_resume w c blake2b l (cs_late data cs') =
        request_next w c blake2b (cs_late data cs)) \<and>
    (bf_run w c bf = Some (Pending l, bf') \<longrightarrow>
      bf_run_resume w c l (bf_late data bf') = bf_run w c (bf_late data bf)) \<and>
    (bf_next w c bf = Some (Pending l, bf') \<longrightarrow>
      bf_next_resume w c l (bf_late data bf') = bf_next w c (bf_late data bf))"
proof (intro conjI impI)
  assume "negotiate w c hs = Some (Pending l, hs')"
  from hs.call_late[OF assms(1) this[unfolded negotiate_def], of data]
  show "negotiate_resume w c l (hs_late data hs') = negotiate w c (hs_late data hs)"
    using assms(2) by (simp add: hs_late_def negotiate_def negotiate_resume_def)
next
  assume "find_intersect w c blake2b points cs = Some (Pending l, cs')"
  from cs.call_late[OF assms(1) this[unfolded find_intersect_def], of data]
  show "find_intersect_resume w c blake2b l (cs_late data cs') =
      find_intersect w c blake2b points (cs_late data cs)"
    using assms(3) by (simp add: cs_late_def find_intersect_def find_intersect_resume_def)
next
  assume "request_next w c blake2b cs = Some (Pending l, cs')"
  from cs.call_late[OF assms(1) this[unfolded request_next_def], of data]
  show "request_next_resume w c blake2b l (cs_late data cs') =
      request_next w c blake2b (cs_late data cs)"
    using assms(3) by (simp add: cs_late_def request_next_def request_next_resume_def)
next
  assume "bf_run w c bf = Some (Pending l, bf')"
  from bf.execute_late[OF assms(1) this[unfolded bf_run_def execute_def], of data]
  show "bf_run_resume w c l (bf_late data bf') = bf_run w c (bf_late data bf)"
    using assms(4) by (simp add: bf_late_def bf_run_def bf_run_resume_def execute_def)
next
  assume "bf_next w c bf = Some (Pending l, bf')"
  then have run: "bf_result bf = []" "bf_state bf = BfStreaming"
      "bind_t (execute w c (bf_protocol c)) (\<lambda>_. sync_t bf_take) (bf\<lparr>bf_running := True\<rparr>) =
        Some (Pending l, bf')"
    by (auto simp: bf_next_def sync_t_def split: if_splits bf_state.splits prod.splits)
  from bf.call_late[OF assms(1) run(3), of data] assms(4) run(1,2)
  show "bf_next_resume w c l (bf_late data bf') = bf_next w c (bf_late data bf)"
    by (simp add: bf_late_def bf_next_def bf_next_resume_def)
qed

theorem suspension_transparent_witness:
  "\<exists>l s'. negotiate sample_wire sample_cbor (sample_side Client 42 []) = Some (Pending l, s') \<and>
    negotiate_resume sample_wire sample_cbor l (hs_late [1, 2] s') =
      negotiate sample_wire sample_cbor (hs_late [1, 2] (sample_side Client 42 []))"
proof -
  let ?s = "sample_side Client 42 []"
  obtain s' where s': "negotiate sample_wire sample_cbor ?s = Some (Pending [], s')"
    using hs_client_waits[OF sample_side_ready sample_side_proposes] by blast
  have "\<not> cn_eof (ch_conn (hs_channel ?s))" "\<not> cn_eof (ch_conn (cs_channel (sample_sync [])))"
      "\<not> cn_eof (ch_conn (bf_channel (sample_fetch [])))"
    by (simp_all add: sample_side_def hs_with_channel_def sample_sync_def sample_fetch_def
        sample_channel_def sample_connection_def connection_new_def)
  from suspension_transparent[OF sample_cbor_progress this, of sample_wire "[]" s' "[1, 2]"] s'
  show ?thesis by blast
qed

end
