(* ===== verification/Resumable_Calls.thy ===== *)
theory Resumable_Calls
  imports Suspension
begin

text \<open>
  Calls that are suspended while they wait for the peer, as one interface: the laws of one call,
  and what follows from them for a user who makes a list of calls, one after the other, on a
  channel where bytes arrive at any time.
\<close>

section \<open>A list of calls\<close>

text \<open>
  One call, from its start (\<open>None\<close>) or resumed with the buffer it was suspended with. What a user
  who makes the calls of a list has come to: waiting in one of them, with the calls from that one
  on and the results so far; done, with all results; or stopped by a failure.
\<close>

type_synonym ('q, 's, 'r) caller = "'q \<Rightarrow> byte list option \<Rightarrow> ('s, error, 'r) task"

datatype ('q, 'r) progress =
    Waits "'q list" "byte list" "'r list"
  | Ends "'r list"
  | Fails "error failure" "'r list"

fun run_calls :: "('q, 's, 'r) caller \<Rightarrow> 'q list \<Rightarrow> byte list option \<Rightarrow> 'r list \<Rightarrow> 's \<Rightarrow>
    (('q, 'r) progress \<times> 's) option" where
  "run_calls call [] at_await got s = Some (Ends got, s)"
| "run_calls call (q # qs) at_await got s = (case call q at_await s of
       None \<Rightarrow> None
     | Some (Pending l, s') \<Rightarrow> Some (Waits (q # qs) l got, s')
     | Some (Ready (Inl f), s') \<Rightarrow> Some (Fails f got, s')
     | Some (Ready (Inr r), s') \<Rightarrow> run_calls call qs None (got @ [r]) s')"

lemma run_calls_append:
  assumes "run_calls call qs at_await got s = Some (p, s')"
  shows "run_calls call (qs @ more_calls) at_await got s = (case p of
      Waits qs' l got' \<Rightarrow> Some (Waits (qs' @ more_calls) l got', s')
    | Ends got' \<Rightarrow> (if qs = [] then run_calls call more_calls at_await got s
        else run_calls call more_calls None got' s')
    | Fails f got' \<Rightarrow> Some (Fails f got', s'))"
  using assms
proof (induction qs arbitrary: at_await got s)
  case (Cons q qs)
  obtain r t where t: "call q at_await s = Some (r, t)"
    using Cons.prems by (auto split: option.splits)
  show ?case
  proof (cases "\<exists>x. r = Ready (Inr x)")
    case True
    then obtain x where x: "r = Ready (Inr x)" by blast
    with Cons.prems t have run: "run_calls call qs None (got @ [x]) t = Some (p, s')" by simp
    from Cons.IH[OF this] run t x show ?thesis by (cases qs; cases p) auto
  next
    case False
    then consider l where "r = Pending l" | f where "r = Ready (Inl f)"
      by (cases r; cases "case r of Ready v \<Rightarrow> v | Pending l \<Rightarrow> undefined") auto
    then show ?thesis using Cons.prems t by cases auto
  qed
qed auto

section \<open>The laws of a call\<close>

text \<open>
  One call on the channel of its state, from its start or resumed: it returns or waits; it only adds
  to what has been written; and when bytes come on top of a call that has waited or returned, it
  is as if they had been there before.
\<close>

definition grown :: "('s \<Rightarrow> channel) \<Rightarrow> 's \<Rightarrow> 's \<Rightarrow> bool" where
  "grown chan s s' \<longleftrightarrow> (\<exists>d. cn_sent (ch_conn (chan s')) = cn_sent (ch_conn (chan s)) @ d) \<and>
     cn_eof (ch_conn (chan s')) = cn_eof (ch_conn (chan s))"

definition catches_up :: "wire \<Rightarrow> ('s \<Rightarrow> channel) \<Rightarrow> (channel \<Rightarrow> 's \<Rightarrow> 's) \<Rightarrow>
    (byte list option \<Rightarrow> ('s, error, 'r) task) \<Rightarrow> byte list option \<Rightarrow> 's \<Rightarrow>
    (error, 'r) poll \<Rightarrow> 's \<Rightarrow> bool" where
  "catches_up w chan with_chan m a s r s' \<longleftrightarrow> (\<forall>data ch2. \<not> cn_eof (ch_conn (chan s)) \<longrightarrow>
     caught_up w data (chan s) ch2 \<longrightarrow>
       (case r of
          Pending l \<Rightarrow> m a (with_chan ch2 s) = m (Some l) (with_chan (late data (chan s')) s')
        | Ready v \<Rightarrow> \<exists>ch3. caught_up w data (chan s') ch3 \<and>
            m a (with_chan ch2 s) = Some (Ready v, with_chan ch3 s')))"

definition resumable :: "wire \<Rightarrow> ('s \<Rightarrow> channel) \<Rightarrow> (channel \<Rightarrow> 's \<Rightarrow> 's) \<Rightarrow>
    (byte list option \<Rightarrow> ('s, error, 'r) task) \<Rightarrow> bool" where
  "resumable w chan with_chan m \<longleftrightarrow> (\<forall>a s. \<exists>r s'. m a s = Some (r, s') \<and> grown chan s s' \<and>
     catches_up w chan with_chan m a s r s')"

lemma resumableE:
  assumes "resumable w chan with_chan m"
  obtains r s' where "m a s = Some (r, s')" "grown chan s s'" "catches_up w chan with_chan m a s r s'"
  using assms unfolding resumable_def by blast

lemma resumable_late:
  assumes "resumable w chan with_chan m"
    and "\<not> cn_eof (ch_conn (chan s))" and "caught_up w data (chan s) ch2"
  shows "m a s = Some (Pending l, s') \<Longrightarrow>
      m a (with_chan ch2 s) = m (Some l) (with_chan (late data (chan s')) s')"
    and "m a s = Some (Ready v, s') \<Longrightarrow> \<exists>ch3. caught_up w data (chan s') ch3 \<and>
      m a (with_chan ch2 s) = Some (Ready v, with_chan ch3 s')"
proof -
  obtain r t where t: "m a s = Some (r, t)" "catches_up w chan with_chan m a s r t"
    by (rule resumableE[OF assms(1)])
  then show "m a s = Some (Pending l, s') \<Longrightarrow>
      m a (with_chan ch2 s) = m (Some l) (with_chan (late data (chan s')) s')"
    and "m a s = Some (Ready v, s') \<Longrightarrow> \<exists>ch3. caught_up w data (chan s') ch3 \<and>
      m a (with_chan ch2 s) = Some (Ready v, with_chan ch3 s')"
    using assms(2,3) unfolding catches_up_def by auto
qed

text \<open>The channel as a field of a state, and operations that leave it alone.\<close>

locale channel_lens =
  fixes chan :: "'s \<Rightarrow> channel"
    and with_chan :: "channel \<Rightarrow> 's \<Rightarrow> 's"
  assumes chan_with: "chan (with_chan ch s) = ch"
    and with_with: "with_chan ch (with_chan ch' s) = with_chan ch s"
    and with_chan_own: "with_chan (chan s) s = s"
begin

lemma leaves_channel:
  assumes "\<And>ch s. f (with_chan ch s) = with_chan ch (f s)"
  shows "chan (f s) = chan s"
  using assms[of "chan s" s] by (metis chan_with with_chan_own)

lemma resumable_sync:
  assumes "\<And>ch s. k (with_chan ch s) = (fst (k s), with_chan ch (snd (k s)))"
  shows "resumable w chan with_chan (\<lambda>a. sync_t k)"
  unfolding resumable_def
proof (intro allI exI conjI)
  fix a s
  have chan_k: "chan (snd (k s)) = chan s"
    by (rule leaves_channel[of "\<lambda>s. snd (k s)"]) (simp add: assms)
  then show "grown chan s (snd (k s))" by (simp add: grown_def)
  show "sync_t k s = Some (Ready (fst (k s)), snd (k s))" by (simp add: sync_t_def split: prod.split)
  show "catches_up w chan with_chan (\<lambda>a. sync_t k) a s (Ready (fst (k s))) (snd (k s))"
    unfolding catches_up_def by (auto simp: sync_t_def assms chan_k)
qed

text \<open>A call followed by such an operation.\<close>

lemma resumable_bind:
  assumes "resumable w chan with_chan m"
    and k: "\<And>x ch s. k x (with_chan ch s) = (fst (k x s), with_chan ch (snd (k x s)))"
  shows "resumable w chan with_chan (\<lambda>a. bind_t (m a) (\<lambda>x. sync_t (k x)))"
    (is "resumable _ _ _ ?m")
  unfolding resumable_def
proof (intro allI)
  fix a s
  obtain r s' where s': "m a s = Some (r, s')" "grown chan s s'"
    by (rule resumableE[OF assms(1)])
  note late = resumable_late[OF assms(1), where s = s and a = a and s' = s']
  have chan_k: "chan (snd (k x s)) = chan s" for x s
    by (rule leaves_channel[of "\<lambda>s. snd (k x s)"]) (simp add: k)
  consider l where "r = Pending l" | f where "r = Ready (Inl f)" | x where "r = Ready (Inr x)"
    by (cases r; cases "case r of Ready v \<Rightarrow> v | Pending l \<Rightarrow> undefined") auto
  then show "\<exists>r s'. ?m a s = Some (r, s') \<and> grown chan s s' \<and>
      catches_up w chan with_chan ?m a s r s'"
  proof cases
    case (1 l)
    have "?m a (with_chan ch2 s) = ?m (Some l) (with_chan (late data (chan s')) s')"
      if "\<not> cn_eof (ch_conn (chan s))" "caught_up w data (chan s) ch2" for data ch2
      using late(1)[OF that] s'(1) 1 by (simp add: bind_t_def)
    then have "catches_up w chan with_chan ?m a s (Pending l) s'" by (simp add: catches_up_def)
    with s' 1 show ?thesis by (auto simp: bind_t_def)
  next
    case (2 f)
    have "\<exists>ch3. caught_up w data (chan s') ch3 \<and>
        ?m a (with_chan ch2 s) = Some (Ready (Inl f), with_chan ch3 s')"
      if "\<not> cn_eof (ch_conn (chan s))" "caught_up w data (chan s) ch2" for data ch2
      using late(2)[OF that, of "Inl f"] s'(1) 2 by (auto simp: bind_t_def)
    then have "catches_up w chan with_chan ?m a s (Ready (Inl f)) s'" by (simp add: catches_up_def)
    with s' 2 show ?thesis by (auto simp: bind_t_def)
  next
    case (3 x)
    have "\<exists>ch3. caught_up w data (chan (snd (k x s'))) ch3 \<and>
        ?m a (with_chan ch2 s) = Some (Ready (fst (k x s')), with_chan ch3 (snd (k x s')))"
      if "\<not> cn_eof (ch_conn (chan s))" "caught_up w data (chan s) ch2" for data ch2
      using late(2)[OF that, of "Inr x"] s'(1) 3 by (auto simp: bind_t_def sync_t_def k chan_k)
    then have "catches_up w chan with_chan ?m a s (Ready (fst (k x s'))) (snd (k x s'))"
      by (simp add: catches_up_def)
    moreover have "?m a s = Some (Ready (fst (k x s')), snd (k x s'))"
      using s'(1) 3 by (simp add: bind_t_def sync_t_def split: prod.split)
    moreover have "grown chan s (snd (k x s'))" using s'(2) by (simp add: grown_def chan_k)
    ultimately show ?thesis by blast
  qed
qed

text \<open>A call that updates its state first, and one that has something to wait for only at times.\<close>

lemma resumable_start:
  assumes "resumable w chan with_chan m"
    and f: "\<And>ch s. f (with_chan ch s) = with_chan ch (f s)"
    and m': "\<And>s. m' None s = m None (f s)" "\<And>l. m' (Some l) = m (Some l)"
  shows "resumable w chan with_chan m'"
  unfolding resumable_def
proof (intro allI)
  fix a s
  show "\<exists>r s'. m' a s = Some (r, s') \<and> grown chan s s' \<and> catches_up w chan with_chan m' a s r s'"
  proof (cases a)
    case None
    obtain r s' where s': "m None (f s) = Some (r, s')" "grown chan (f s) s'"
        "catches_up w chan with_chan m None (f s) r s'"
      by (rule resumableE[OF assms(1)])
    have "chan (f s) = chan s" by (rule leaves_channel[OF f])
    with s' show ?thesis
      unfolding None by (intro exI[of _ r] exI[of _ s'], cases r)
        (simp_all add: m' f grown_def catches_up_def)
  next
    case (Some l)
    obtain r s' where s': "m (Some l) s = Some (r, s')" "grown chan s s'"
        "catches_up w chan with_chan m (Some l) s r s'"
      by (rule resumableE[OF assms(1)])
    then show ?thesis
      unfolding Some by (intro exI[of _ r] exI[of _ s'], cases r) (simp_all add: m' catches_up_def)
  qed
qed

lemma resumable_guard:
  assumes "resumable w chan with_chan m"
    and k: "\<And>ch s. k (with_chan ch s) = (fst (k s), with_chan ch (snd (k s)))"
    and g: "\<And>ch s. g (with_chan ch s) = g s"
    and m': "\<And>s. m' None s = (if g s then m None s else sync_t k s)" "\<And>l. m' (Some l) = m (Some l)"
  shows "resumable w chan with_chan m'"
  unfolding resumable_def
proof (intro allI)
  fix a s
  show "\<exists>r s'. m' a s = Some (r, s') \<and> grown chan s s' \<and> catches_up w chan with_chan m' a s r s'"
  proof (cases "a = None \<and> \<not> g s")
    case True
    obtain r s' where s': "sync_t k s = Some (r, s')" "grown chan s s'"
        "catches_up w chan with_chan (\<lambda>a. sync_t k) None s r s'"
      by (rule resumableE[OF resumable_sync[OF k]])
    moreover obtain v where "r = Ready v" using s'(1) by (auto simp: sync_t_def split: prod.splits)
    ultimately show ?thesis
      using True by (intro exI[of _ r] exI[of _ s']) (simp add: m' g catches_up_def)
  next
    case False
    obtain r s' where s': "m a s = Some (r, s')" "grown chan s s'"
        "catches_up w chan with_chan m a s r s'"
      by (rule resumableE[OF assms(1)])
    with False show ?thesis
      by (intro exI[of _ r] exI[of _ s'], cases a; cases r) (simp_all add: m' g catches_up_def)
  qed
qed

end

text \<open>The channel of a protocol, and the runs of its loop.\<close>

sublocale protocol_contract < channel_lens "pr_channel P" "pr_set_channel P"
  by unfold_locales simp_all

context protocol_contract
begin

lemma resumable_execute:
  assumes "cbor_progress c"
  shows "resumable w (pr_channel P) (pr_set_channel P) (execute_from w c P)"
  unfolding resumable_def
proof (intro allI)
  fix a s
  have "\<exists>res. execute_from w c P a s = Some res"
    using execute_returns[OF assms, of w s] resume_returns[OF assms, of w]
    by (cases a) (simp_all add: execute_def)
  then obtain r s' where s': "execute_from w c P a s = Some (r, s')" by auto
  note sender = execute_sender[OF s']
  have "catches_up w (pr_channel P) (pr_set_channel P) (execute_from w c P) a s r s'"
    unfolding catches_up_def
  proof (intro allI impI)
    fix data ch2
    assume eof: "\<not> cn_eof (ch_conn (pr_channel P s))" and "caught_up w data (pr_channel P s) ch2"
    with execute_late_run[OF assms s' eof, of data] show "case r of
        Pending l \<Rightarrow> execute_from w c P a (pr_set_channel P ch2 s) =
          execute_from w c P (Some l) (pr_set_channel P (late data (pr_channel P s')) s')
      | Ready v \<Rightarrow> \<exists>ch3. caught_up w data (pr_channel P s') ch3 \<and>
          execute_from w c P a (pr_set_channel P ch2 s) = Some (Ready v, pr_set_channel P ch3 s')"
      by (cases r) (simp_all add: late_run_def)
  qed
  with s' sender show "\<exists>r s'. execute_from w c P a s = Some (r, s') \<and> grown (pr_channel P) s s' \<and>
      catches_up w (pr_channel P) (pr_set_channel P) (execute_from w c P) a s r s'"
    unfolding grown_def by blast
qed

end

text \<open>
  A call in a program that keeps more than the client: the rest of its state is left alone, and the
  call may depend on it.
\<close>

definition paired :: "('e \<Rightarrow> byte list option \<Rightarrow> ('s, error, 'r) task) \<Rightarrow> byte list option \<Rightarrow>
    ('s \<times> 'e, error, 'r) task" where
  "paired m a state = map_option (\<lambda>(r, s'). (r, s', snd state)) (m (snd state) a (fst state))"

context channel_lens
begin

lemma channel_lens_paired: "channel_lens (chan \<circ> fst) (\<lambda>ch. map_prod (with_chan ch) id)"
  by unfold_locales (auto simp: chan_with with_with with_chan_own)

lemma resumable_paired:
  fixes m :: "'e \<Rightarrow> byte list option \<Rightarrow> ('s, error, 'r) task"
  assumes "\<And>e. resumable w chan with_chan (m e)"
  shows "resumable w (chan \<circ> fst) (\<lambda>ch. map_prod (with_chan ch) id) (paired m)"
  unfolding resumable_def
proof (intro allI)
  fix a and state :: "'s \<times> 'e"
  let ?m = "m (snd state)"
  obtain r s' where s': "?m a (fst state) = Some (r, s')" "grown chan (fst state) s'"
      "catches_up w chan with_chan ?m a (fst state) r s'"
    by (rule resumableE[OF assms])
  moreover have "catches_up w (chan \<circ> fst) (\<lambda>ch. map_prod (with_chan ch) id) (paired m) a state r
      (s', snd state)"
    unfolding catches_up_def
  proof (intro allI impI)
    fix data ch2
    assume "\<not> cn_eof (ch_conn ((chan \<circ> fst) state))" "caught_up w data ((chan \<circ> fst) state) ch2"
    with s'(3) have late: "case r of
        Pending l \<Rightarrow> ?m a (with_chan ch2 (fst state)) = ?m (Some l) (with_chan (late data (chan s')) s')
      | Ready v \<Rightarrow> \<exists>ch3. caught_up w data (chan s') ch3 \<and>
          ?m a (with_chan ch2 (fst state)) = Some (Ready v, with_chan ch3 s')"
      by (simp add: catches_up_def)
    show "case r of
        Pending l \<Rightarrow> paired m a (map_prod (with_chan ch2) id state) = paired m (Some l)
          (map_prod (with_chan (late data ((chan \<circ> fst) (s', snd state)))) id (s', snd state))
      | Ready v \<Rightarrow> \<exists>ch3. caught_up w data ((chan \<circ> fst) (s', snd state)) ch3 \<and>
          paired m a (map_prod (with_chan ch2) id state) =
            Some (Ready v, map_prod (with_chan ch3) id (s', snd state))"
      using late by (cases r) (auto simp: paired_def)
  qed
  ultimately show "\<exists>r t. paired m a state = Some (r, t) \<and> grown (chan \<circ> fst) state t \<and>
      catches_up w (chan \<circ> fst) (\<lambda>ch. map_prod (with_chan ch) id) (paired m) a state r t"
    by (intro exI[of _ r] exI[of _ "(s', snd state)"]) (simp add: paired_def grown_def)
qed

end

section \<open>Calls that can be resumed\<close>

locale resumable_calls = channel_lens chan with_chan
  for chan :: "'s \<Rightarrow> channel" and with_chan :: "channel \<Rightarrow> 's \<Rightarrow> 's" +
  fixes call :: "wire \<Rightarrow> cbor \<Rightarrow> ('q, 's, 'r) caller"
  assumes resumable_call: "cbor_progress c \<Longrightarrow> resumable w chan with_chan (call w c q)"
begin

lemma call_returns: "cbor_progress c \<Longrightarrow> \<exists>r s'. call w c q a s = Some (r, s')"
  using resumable_call unfolding resumable_def by blast

lemma call_sender:
  assumes "cbor_progress c" and "call w c q a s = Some (r, s')"
  shows "\<exists>d. cn_sent (ch_conn (chan s')) = cn_sent (ch_conn (chan s)) @ d"
    and "cn_eof (ch_conn (chan s')) = cn_eof (ch_conn (chan s))"
proof -
  obtain r' t where "call w c q a s = Some (r', t)" "grown chan s t"
    by (rule resumableE[OF resumable_call[OF assms(1)]])
  with assms(2) show "\<exists>d. cn_sent (ch_conn (chan s')) = cn_sent (ch_conn (chan s)) @ d"
    and "cn_eof (ch_conn (chan s')) = cn_eof (ch_conn (chan s))"
    by (simp_all add: grown_def)
qed

lemma call_waits_late:
  "cbor_progress c \<Longrightarrow> call w c q a s = Some (Pending l, s') \<Longrightarrow> \<not> cn_eof (ch_conn (chan s)) \<Longrightarrow>
    caught_up w data (chan s) ch2 \<Longrightarrow>
    call w c q a (with_chan ch2 s) = call w c q (Some l) (with_chan (late data (chan s')) s')"
  by (rule resumable_late(1)[OF resumable_call])

lemma call_returns_late:
  "cbor_progress c \<Longrightarrow> call w c q a s = Some (Ready v, s') \<Longrightarrow> \<not> cn_eof (ch_conn (chan s)) \<Longrightarrow>
    caught_up w data (chan s) ch2 \<Longrightarrow> \<exists>ch3. caught_up w data (chan s') ch3 \<and>
      call w c q a (with_chan ch2 s) = Some (Ready v, with_chan ch3 s')"
  by (rule resumable_late(2)[OF resumable_call])

lemmas lens [simp] = chan_with with_with with_chan_own

definition open_stream :: "'s \<Rightarrow> bool" where
  "open_stream s \<longleftrightarrow> \<not> cn_eof (ch_conn (chan s))"

definition written :: "'s \<Rightarrow> byte list" where
  "written s = cn_sent (ch_conn (chan s))"

definition heard :: "byte list \<Rightarrow> 's \<Rightarrow> 's" where
  "heard data s = with_chan (late data (chan s)) s"

lemma heard_simps [simp]:
  "heard b (heard a s) = heard (a @ b) s"
  "heard [] s = s"
  "chan (heard a s) = late a (chan s)"
  "written (heard a s) = written s"
  "open_stream (heard a s) = open_stream s"
  by (simp_all add: heard_def written_def open_stream_def late_def conn_arrive_def)

lemma caught_up_chan:
  "caught_up w data (chan s) ch \<Longrightarrow> written (with_chan ch s) = written s"
  "caught_up w data (chan s) ch \<Longrightarrow> open_stream (with_chan ch s) = open_stream s"
  using caught_up_sender[of w data "chan s" ch] by (simp_all add: written_def open_stream_def)

subsection \<open>The laws of a list of calls\<close>

abbreviation run where
  "run w c \<equiv> run_calls (call w c)"

lemma run_returns:
  assumes "cbor_progress c"
  obtains p s' where "run w c qs a got s = Some (p, s')"
proof -
  have "\<exists>p s'. run w c qs a got s = Some (p, s')"
  proof (induction qs arbitrary: a got s)
    case (Cons q qs)
    obtain r t where "call w c q a s = Some (r, t)" using call_returns[OF assms] by blast
    with Cons.IH show ?case by (cases r) (simp_all split: sum.split)
  qed simp
  with that show thesis by blast
qed

lemma run_sender:
  assumes "cbor_progress c" and "run w c qs a got s = Some (p, s')"
  obtains d where "written s' = written s @ d" "open_stream s' = open_stream s"
proof -
  have "(\<exists>d. written s' = written s @ d) \<and> open_stream s' = open_stream s"
    using assms(2)
  proof (induction qs arbitrary: a got s)
    case (Cons q qs)
    from Cons.prems obtain r t where t: "call w c q a s = Some (r, t)"
      by (auto split: option.splits)
    note sender = call_sender[OF assms(1) t]
    show ?case
    proof (cases "\<exists>x. r = Ready (Inr x)")
      case True
      with Cons.prems t obtain x where "run w c qs None (got @ [x]) t = Some (p, s')" by auto
      from Cons.IH[OF this] sender show ?thesis by (auto simp: written_def open_stream_def)
    next
      case False
      with Cons.prems t have "s' = t" by (auto split: poll.splits sum.splits)
      with sender show ?thesis by (auto simp: written_def open_stream_def)
    qed
  qed auto
  with that show thesis by blast
qed

lemma run_waits_late:
  assumes "cbor_progress c" and "run w c qs a got s = Some (Waits qs' l got', s')"
    and "open_stream s" and "caught_up w data (chan s) ch2"
  shows "run w c qs a got (with_chan ch2 s) = run w c qs' (Some l) got' (heard data s')"
  using assms(2-4)
proof (induction qs arbitrary: a got s ch2)
  case (Cons q qs)
  from Cons.prems(1) obtain r t where t: "call w c q a s = Some (r, t)"
    by (auto split: option.splits)
  show ?case
  proof (cases r)
    case (Pending b)
    with Cons.prems t have [simp]: "qs' = q # qs" "b = l" "got' = got" "s' = t" by auto
    from call_waits_late[OF assms(1) t[unfolded Pending] _ Cons.prems(3)] Cons.prems(2)
    show ?thesis by (simp add: heard_def open_stream_def)
  next
    case (Ready v)
    with Cons.prems(1) t obtain x where x: "v = Inr x"
        "run w c qs None (got @ [x]) t = Some (Waits qs' l got', s')"
      by (auto split: sum.splits)
    from call_returns_late[OF assms(1) t[unfolded Ready] _ Cons.prems(3)] Cons.prems(2)
    obtain ch3 where ch3: "caught_up w data (chan t) ch3"
      "call w c q a (with_chan ch2 s) = Some (Ready v, with_chan ch3 t)"
      by (auto simp: open_stream_def)
    have "open_stream t"
      using call_sender[OF assms(1) t] Cons.prems(2) by (simp add: open_stream_def)
    from Cons.IH[OF x(2) this ch3(1)] ch3(2) x(1) show ?thesis by simp
  qed
qed simp

fun over :: "('q, 'r) progress \<Rightarrow> bool" where
  "over (Waits qs l got) = False"
| "over _ = True"

lemma run_over_late:
  assumes "cbor_progress c" and "run w c qs a got s = Some (p, s')" and "over p"
    and "open_stream s" and "caught_up w data (chan s) ch2"
  obtains ch3 where "caught_up w data (chan s') ch3"
    "run w c qs a got (with_chan ch2 s) = Some (p, with_chan ch3 s')"
proof -
  have "\<exists>ch3. caught_up w data (chan s') ch3 \<and>
      run w c qs a got (with_chan ch2 s) = Some (p, with_chan ch3 s')"
    using assms(2,4,5)
  proof (induction qs arbitrary: a got s ch2)
    case (Cons q qs)
    from Cons.prems(1) obtain r t where t: "call w c q a s = Some (r, t)"
      by (auto split: option.splits)
    with Cons.prems(1) assms(3) obtain v where v: "r = Ready v" by (cases r) auto
    from call_returns_late[OF assms(1) t[unfolded v] _ Cons.prems(3)] Cons.prems(2)
    obtain ch3 where ch3: "caught_up w data (chan t) ch3"
      "call w c q a (with_chan ch2 s) = Some (Ready v, with_chan ch3 t)"
      by (auto simp: open_stream_def)
    show ?case
    proof (cases v)
      case (Inl f)
      with Cons.prems(1) t v ch3 show ?thesis by auto
    next
      case (Inr x)
      with Cons.prems(1) t v have next_run: "run w c qs None (got @ [x]) t = Some (p, s')" by simp
      have "open_stream t"
        using call_sender[OF assms(1) t] Cons.prems(2) by (simp add: open_stream_def)
      from Cons.IH[OF next_run this ch3(1)] ch3(2) Inr show ?thesis by simp
    qed
  qed auto
  with that show thesis by blast
qed

text \<open>A run that waits waits again when it is polled with nothing new.\<close>

lemma run_waits_again:
  assumes "cbor_progress c" and "run w c qs a got s = Some (Waits qs' l got', s')" and "open_stream s"
  shows "run w c qs' (Some l) got' s' = Some (Waits qs' l got', s')"
proof -
  have "caught_up w [] (chan s) (chan s)" by (simp add: caught_up_def conn_arrive_def)
  from run_waits_late[OF assms this] assms(2) show ?thesis by simp
qed

subsection \<open>What the calls will do\<close>

text \<open>
  The bytes that the calls write, and what they come to, when the bytes \<open>x\<close> arrive from now on and
  no others.
\<close>

definition run_on :: "wire \<Rightarrow> cbor \<Rightarrow> 'q list \<Rightarrow> byte list option \<Rightarrow> 'r list \<Rightarrow> 's \<Rightarrow> byte list \<Rightarrow>
    byte list \<times> ('q, 'r) progress" where
  "run_on w c qs a got s x = (case the (run w c qs a got (heard x s)) of (p, s') \<Rightarrow>
     (drop (length (written s)) (written s'), p))"

lemma run_onI:
  assumes "run w c qs a got (heard x s) = Some (p, s')" and "written s' = written s @ bytes"
  shows "run_on w c qs a got s x = (bytes, p)"
  using assms by (simp add: run_on_def)

lemma run_on_heard: "run_on w c qs a got (heard y s) x = run_on w c qs a got s (y @ x)"
  by (simp add: run_on_def)

lemma run_onE:
  assumes "cbor_progress c"
  obtains bytes p s' where "run w c qs a got (heard x s) = Some (p, s')"
    "written s' = written s @ bytes" "run_on w c qs a got s x = (bytes, p)"
proof -
  obtain p s' where run: "run w c qs a got (heard x s) = Some (p, s')"
    using run_returns[OF assms] by blast
  then obtain d where "written s' = written (heard x s) @ d" by (rule run_sender[OF assms])
  with run that run_onI[OF run] show thesis by simp
qed

text \<open>The same when the task has looked at what had arrived.\<close>

lemma run_on_caught_up:
  assumes "cbor_progress c" and "open_stream s" and "caught_up w [] (chan s) ch2"
  shows "run_on w c qs a got (with_chan ch2 s) x = run_on w c qs a got s x"
proof -
  obtain bytes p s' where run: "run w c qs a got (heard x s) = Some (p, s')"
    "written s' = written s @ bytes" "run_on w c qs a got s x = (bytes, p)"
    by (rule run_onE[OF assms(1)])
  have eof: "open_stream (heard x s)" using assms(2) by simp
  have poll: "demux_poll w (ch_conn ch2) = demux_poll w (ch_conn (chan s))"
    using assms(3) by (simp add: caught_up_def conn_arrive_def)
  have "demux_poll w (conn_arrive x (ch_conn ch2)) = demux_poll w (conn_arrive x (ch_conn (chan s)))"
    using demux_poll_arrive[of "ch_conn ch2" w x] demux_poll_arrive[of "ch_conn (chan s)" w x]
      assms(2) caught_up_sender(4)[OF assms(3)] by (simp add: open_stream_def poll)
  then have caught: "caught_up w [] (chan (heard x s)) (late x ch2)"
    using assms(3) by (simp add: caught_up_def late_def conn_arrive_def)
  have same: "heard x (with_chan ch2 s) = with_chan (late x ch2) (heard x s)"
    by (simp add: heard_def)
  have written: "written (with_chan ch2 s) = written s" by (rule caught_up_chan(1)[OF assms(3)])
  show ?thesis
  proof (cases "over p")
    case True
    from run_over_late[OF assms(1) run(1) this eof caught] obtain ch3 where
      ch3: "caught_up w [] (chan s') ch3"
      "run w c qs a got (heard x (with_chan ch2 s)) = Some (p, with_chan ch3 s')"
      by (auto simp: same)
    from run_onI[OF ch3(2)] caught_up_chan(1)[OF ch3(1)] run(2,3) written show ?thesis by simp
  next
    case False
    then obtain qs' l got' where p: "p = Waits qs' l got'" by (cases p) auto
    have "run w c qs a got (heard x (with_chan ch2 s)) = Some (p, s')"
      using run_waits_late[OF assms(1) run(1)[unfolded p] eof caught]
        run_waits_again[OF assms(1) run(1)[unfolded p] eof]
      by (simp add: same p)
    from run_onI[OF this] run(2,3) written show ?thesis by simp
  qed
qed

text \<open>After a poll that has waited the rest is to come; after one that ended, nothing.\<close>

lemma run_on_waits:
  assumes "cbor_progress c" and "run w c qs a got s = Some (Waits qs' l got', s')" and "open_stream s"
    and "written s' = written s @ bytes"
  shows "run_on w c qs a got s x =
    (bytes @ fst (run_on w c qs' (Some l) got' s' x), snd (run_on w c qs' (Some l) got' s' x))"
proof -
  obtain rest p u where run: "run w c qs' (Some l) got' (heard x s') = Some (p, u)"
    "written u = written s' @ rest" "run_on w c qs' (Some l) got' s' x = (rest, p)"
    by (rule run_onE[OF assms(1)])
  have "run w c qs a got (heard x s) = Some (p, u)"
    using run_waits_late[OF assms(1-3) caught_up_late] run(1) by (simp add: heard_def)
  from run_onI[OF this] run(2,3) assms(4) show ?thesis by simp
qed

lemma run_on_over:
  assumes "cbor_progress c" and "run w c qs a got s = Some (p, s')" and "over p" and "open_stream s"
    and "written s' = written s @ bytes"
  shows "run_on w c qs a got s x = (bytes, p)"
proof -
  from run_over_late[OF assms(1-4) caught_up_late] obtain ch3 where
    "caught_up w x (chan s') ch3" "run w c qs a got (heard x s) = Some (p, with_chan ch3 s')"
    by (auto simp: heard_def)
  with run_onI[OF this(2)] caught_up_chan(1)[OF this(1)] assms(5) show ?thesis by simp
qed

text \<open>A first part of the calls that ends, and the others after it.\<close>

lemma run_on_append:
  assumes "cbor_progress c" and "open_stream s" and "caught_up w bytes (chan s) ch2" and "qs \<noteq> []"
    and "run w c qs a got (with_chan ch2 s) = Some (Ends got', s')" and "written s' = written s @ out"
  shows "run_on w c (qs @ qs') a got s (bytes @ x) =
    (out @ fst (run_on w c qs' None got' s' x), snd (run_on w c qs' None got' s' x))"
proof -
  have eof2: "open_stream (with_chan ch2 s)" using assms(2,3) caught_up_chan(2) by simp
  then have eof': "open_stream s'" using assms(5) run_sender[OF assms(1)] by metis
  obtain rest p u where run: "run w c qs' None got' (heard x s') = Some (p, u)"
    "written u = written s' @ rest" "run_on w c qs' None got' s' x = (rest, p)"
    by (rule run_onE[OF assms(1)])
  have further: "caught_up w (bytes @ x) (chan s) (late x ch2)"
    using caught_up_further(1)[OF assms(3)] assms(2) by (simp add: open_stream_def)
  then have "caught_up w [] (chan (heard (bytes @ x) s)) (late x ch2)"
    by (simp add: caught_up_def late_def conn_arrive_def)
  moreover have "open_stream (heard (bytes @ x) s)" using assms(2) by simp
  ultimately have "run_on w c (qs @ qs') a got (with_chan (late x ch2) (heard (bytes @ x) s)) [] =
      run_on w c (qs @ qs') a got (heard (bytes @ x) s) []"
    by (intro run_on_caught_up[OF assms(1)])
  moreover have "with_chan (late x ch2) (heard (bytes @ x) s) = heard x (with_chan ch2 s)"
    by (simp add: heard_def)
  ultimately have shift: "run_on w c (qs @ qs') a got s (bytes @ x) =
      run_on w c (qs @ qs') a got (with_chan ch2 s) x"
    by (simp add: run_on_heard)
  from run_over_late[OF assms(1,5) _ eof2, of x "late x ch2"] caught_up_late obtain ch3 where
    ch3: "caught_up w x (chan s') ch3"
      "run w c qs a got (with_chan (late x ch2) s) = Some (Ends got', with_chan ch3 s')"
    by auto
  have "caught_up w [] (chan (heard x s')) ch3"
    using ch3(1) by (simp add: caught_up_def late_def conn_arrive_def)
  moreover have "open_stream (heard x s')" using eof' by simp
  ultimately have "run_on w c qs' None got' (with_chan ch3 (heard x s')) [] =
      run_on w c qs' None got' (heard x s') []"
    by (intro run_on_caught_up[OF assms(1)])
  then have rest: "run_on w c qs' None got' (with_chan ch3 s') [] = run_on w c qs' None got' s' x"
    by (simp add: run_on_heard) (simp add: heard_def)
  obtain rest2 p2 u2 where run2: "run w c qs' None got' (with_chan ch3 s') = Some (p2, u2)"
    "written u2 = written (with_chan ch3 s') @ rest2"
    "run_on w c qs' None got' (with_chan ch3 s') [] = (rest2, p2)"
    by (rule run_onE[OF assms(1), of w qs' None got' "[]" "with_chan ch3 s'"]) simp
  have "run w c (qs @ qs') a got (heard x (with_chan ch2 s)) = Some (p2, u2)"
    using run_calls_append[OF ch3(2), of qs'] run2(1) assms(4) by (simp add: heard_def)
  then show ?thesis
    using run2(2,3) rest caught_up_chan(1)[OF ch3(1)] caught_up_chan(1)[OF assms(3)] assms(6)
    unfolding shift by (subst run_onI[where p = p2 and s' = u2 and bytes = "out @ rest2"]) simp_all
qed

end

end
