(* ===== verification/Mux_Link.thy ===== *)
theory Mux_Link
  imports Mux_Delivery
begin

unbundle bit_operations_syntax

text \<open>
  Two connections at the ends of one socket, each with a channel open, as they run
  concurrently: an end sends or receives, the network hands over some of the bytes that are
  on their way, a task runs, in any order. Every such run is a run of two queues of
  payloads, one in each direction: the refinement is a simulation, step by step.
\<close>

section \<open>The link\<close>

datatype endpoint = Near | Far

fun opposite :: "endpoint \<Rightarrow> endpoint" where
  "opposite Near = Far"
| "opposite Far = Near"

lemma opposite_simps [simp]: "opposite (opposite e) = e" "opposite e \<noteq> e" "e \<noteq> opposite e"
    "e = opposite f \<longleftrightarrow> f = opposite e"
  by (cases e; cases f; simp)+

text \<open>The open channel of each end, and the bytes on their way to it.\<close>

record link =
  lk_end :: "endpoint \<Rightarrow> channel"
  lk_wire :: "endpoint \<Rightarrow> byte list"

definition lk_conn :: "link \<Rightarrow> endpoint \<Rightarrow> connection" where
  "lk_conn l e = ch_conn (lk_end l e)"

definition put_end :: "endpoint \<Rightarrow> channel \<Rightarrow> link \<Rightarrow> link" where
  "put_end e ch l = l\<lparr>lk_end := (lk_end l)(e := ch)\<rparr>"

datatype link_event = Sent endpoint payload | Took endpoint payload | Moved | Broken

text \<open>
  The steps. A send puts the bytes that it has written on the wire of the other end; payloads
  that do not fit a frame are the subject of \<open>Mux_Delivery\<close>. A call that panics is \<open>Broken\<close>.
\<close>

inductive link_step :: "wire \<Rightarrow> link \<Rightarrow> link_event \<Rightarrow> link \<Rightarrow> bool" for w where
  send: "channel_send w p (lk_end l e) = (Inr (), ch) \<Longrightarrow> length p < 65536 \<Longrightarrow>
    cn_sent (ch_conn ch) = cn_sent (lk_conn l e) @ bytes \<Longrightarrow>
    link_step w l (Sent e p) (put_end e ch
      (l\<lparr>lk_wire := (lk_wire l)(opposite e := lk_wire l (opposite e) @ bytes)\<rparr>))"
| send_fails: "channel_send w p (lk_end l e) = (Inl f, ch) \<Longrightarrow> length p < 65536 \<Longrightarrow>
    link_step w l Broken (put_end e ch l)"
| arrive: "lk_wire l e = bytes @ rest \<Longrightarrow>
    link_step w l Moved (put_end e
      ((lk_end l e)\<lparr>ch_conn := conn_arrive bytes (lk_conn l e)\<rparr>)
      (l\<lparr>lk_wire := (lk_wire l)(e := rest)\<rparr>))"
| task: "link_step w l Moved
    (put_end e ((lk_end l e)\<lparr>ch_conn := demux_poll w (lk_conn l e)\<rparr>) l)"
| recv: "channel_recv w (lk_end l e) = (Ready (Inr p), ch) \<Longrightarrow>
    link_step w l (Took e p) (put_end e ch l)"
| recv_waits: "channel_recv w (lk_end l e) = (Pending b, ch) \<Longrightarrow>
    link_step w l Moved (put_end e ch l)"
| recv_fails: "channel_recv w (lk_end l e) = (Ready (Inl f), ch) \<Longrightarrow>
    link_step w l Broken (put_end e ch l)"

inductive link_run :: "wire \<Rightarrow> link \<Rightarrow> link_event list \<Rightarrow> link \<Rightarrow> bool" for w where
  start: "link_run w l [] l"
| step: "link_run w l evs l' \<Longrightarrow> link_step w l' ev l'' \<Longrightarrow> link_run w l (evs @ [ev]) l''"

section \<open>What it implements\<close>

text \<open>A queue towards each end. No step of the queues is \<open>Broken\<close>.\<close>

type_synonym queues = "endpoint \<Rightarrow> payload list"

inductive fifo_step :: "queues \<Rightarrow> link_event \<Rightarrow> queues \<Rightarrow> bool" where
  enqueue: "fifo_step q (Sent e p) (q(opposite e := q (opposite e) @ [p]))"
| dequeue: "q e = p # ps \<Longrightarrow> fifo_step q (Took e p) (q(e := ps))"
| skip: "fifo_step q Moved q"

inductive_simps fifo_step_simps:
  "fifo_step q (Sent e p) q'" "fifo_step q (Took e p) q'" "fifo_step q Moved q'"
  "fifo_step q Broken q'"

text \<open>
  The payloads \<open>ps\<close> that a connection has still to hand to its channel \<open>idx\<close>, when the bytes
  \<open>onway\<close> follow those that have arrived: the queue that the task will leave when it has read
  them all, and it then waits between two frames.
\<close>

definition pending :: "wire \<Rightarrow> u16 \<Rightarrow> byte list \<Rightarrow> connection \<Rightarrow> payload list \<Rightarrow> bool" where
  "pending w idx onway conn ps \<longleftrightarrow> \<not> cn_eof conn \<and> (\<exists>n t chs. cn_demux conn = Some (n, t) \<and>
     demux_run w False (cn_channels conn) t (cn_input conn @ onway) = (chs, AtHeader [], []) \<and>
     chs idx = Some ps)"

text \<open>A socket that takes every payload whole.\<close>

definition roomy :: "connection \<Rightarrow> bool" where
  "roomy conn \<longleftrightarrow> (\<forall>k. \<exists>n \<ge> 65535. cn_writes conn k = Accepts n)"

definition link_shows :: "wire \<Rightarrow> link \<Rightarrow> queues \<Rightarrow> bool" where
  "link_shows w l q \<longleftrightarrow> (\<forall>e. roomy (lk_conn l e) \<and>
     ch_idx (lk_end l (opposite e)) = ch_idx (lk_end l e) XOR 0x8000 \<and>
     pending w (ch_idx (lk_end l e)) (lk_wire l e) (lk_conn l e) (q e))"

subsection \<open>The steps of one connection\<close>

lemma pending_poll: "pending w idx onway conn ps \<Longrightarrow> pending w idx onway (demux_poll w conn) ps"
proof -
  assume "pending w idx onway conn ps"
  then obtain n t chs where conn: "\<not> cn_eof conn" "cn_demux conn = Some (n, t)"
      "demux_run w False (cn_channels conn) t (cn_input conn @ onway) = (chs, AtHeader [], [])"
      "chs idx = Some ps"
    unfolding pending_def by blast
  then show ?thesis
    using demux_run_append[of w "cn_channels conn" t "cn_input conn" onway]
    by (auto simp: pending_def demux_poll_def split: prod.splits)
qed

lemma pending_arrive:
  "pending w idx (bytes @ onway) conn ps \<Longrightarrow> pending w idx onway (conn_arrive bytes conn) ps"
  by (simp add: pending_def conn_arrive_def)

lemma pending_frame:
  assumes "wire_ok w" and "length p < 65536" and "pending w idx onway conn ps"
  shows "pending w idx (onway @ frame w t (idx XOR 0x8000) p) conn (ps @ [p])"
proof -
  from assms(3) obtain n u chs where conn: "\<not> cn_eof conn" "cn_demux conn = Some (n, u)"
      "demux_run w False (cn_channels conn) u (cn_input conn @ onway) = (chs, AtHeader [], [])"
      "chs idx = Some ps"
    unfolding pending_def by blast
  have "demux_run w False chs (AtHeader []) (frame w t (idx XOR 0x8000) p) =
      (deliver idx p chs, AtHeader [], [])"
    using demux_frame[OF assms(1,2), of False chs t "idx XOR 0x8000" "[]"]
    by (simp add: demux_run_waiting xor.assoc)
  with conn show ?thesis
    using demux_run_append[of w "cn_channels conn" u "cn_input conn @ onway"
        "frame w t (idx XOR 0x8000) p"]
    by (auto simp: pending_def deliver_def)
qed

lemma pending_pop:
  assumes "pending w idx onway conn ps" and "cn_channels conn idx = Some (p # q)"
  shows "\<exists>ps'. ps = p # ps' \<and>
    pending w idx onway (conn\<lparr>cn_channels := (cn_channels conn)(idx \<mapsto> q)\<rparr>) ps'"
proof -
  from assms(1) obtain n t chs where conn: "\<not> cn_eof conn" "cn_demux conn = Some (n, t)"
      "demux_run w False (cn_channels conn) t (cn_input conn @ onway) = (chs, AtHeader [], [])"
      "chs idx = Some ps"
    unfolding pending_def by blast
  from demux_run_pop[OF this(3) assms(2)] this show ?thesis
    by (auto simp: pending_def)
qed

lemma pending_channel:
  assumes "pending w idx onway conn ps"
  shows "\<exists>q. cn_channels (demux_poll w conn) idx = Some q"
proof -
  from pending_poll[OF assms] obtain n t chs where
    "demux_run w False (cn_channels (demux_poll w conn)) t (cn_input (demux_poll w conn) @ onway) =
      (chs, AtHeader [], [])" "chs idx = Some ps"
    unfolding pending_def by blast
  with dom_demux_run show ?thesis by (fastforce simp: dom_def)
qed

text \<open>A receive takes the first of them, or waits because none has arrived yet.\<close>

lemma pending_recv:
  assumes "pending w idx onway conn ps" and "connection_recv w idx conn = (r, conn')"
  shows "(\<exists>p ps'. r = Ready (Inr p) \<and> ps = p # ps' \<and> pending w idx onway conn' ps') \<or>
    r = Pending [] \<and> pending w idx onway conn' ps"
proof -
  obtain q where q: "cn_channels (demux_poll w conn) idx = Some q"
    using pending_channel[OF assms(1)] by blast
  note poll = pending_poll[OF assms(1)]
  show ?thesis
  proof (cases q)
    case Nil
    with q poll assms(2) show ?thesis by (auto simp: connection_recv_def Let_def)
  next
    case (Cons p q')
    with pending_pop[OF poll] q assms(2) show ?thesis by (auto simp: connection_recv_def Let_def)
  qed
qed

lemma pending_all_arrived:
  assumes "pending w idx [] conn (p # ps)"
  shows "\<exists>conn'. connection_recv w idx conn = (Ready (Inr p), conn')"
  using assms by (auto simp: pending_def connection_recv_def demux_poll_def Let_def)

lemma pending_sent: "pending w idx onway conn ps \<Longrightarrow> pending w idx onway (after_send w i p conn) ps"
  by (simp add: pending_def)

lemma roomy_steps [simp]:
  "roomy (conn_arrive bytes conn) = roomy conn"
  "roomy (demux_poll w conn) = roomy conn"
  "roomy (conn\<lparr>cn_channels := chs\<rparr>) = roomy conn"
  "roomy conn \<Longrightarrow> roomy (after_send w i p conn)"
  by (simp_all add: roomy_def conn_arrive_def demux_poll_def split: option.split prod.split)

lemma roomy_recv: "connection_recv w idx conn = (r, conn') \<Longrightarrow> roomy conn' = roomy conn"
  by (auto simp: connection_recv_def Let_def split: option.splits list.splits)

lemma roomy_takes:
  assumes "roomy conn" and "length p < 65536"
  shows "takes_whole p (cn_writes conn 0)"
proof -
  from assms(1) obtain n where "n \<ge> 65535" "cn_writes conn 0 = Accepts n"
    unfolding roomy_def by blast
  with assms(2) show ?thesis by simp
qed

lemma roomy_writable: "roomy conn \<Longrightarrow> writable conn"
  unfolding roomy_def writable_def by blast


subsection \<open>The simulation\<close>

lemma lk_conn_put [simp]:
  "lk_conn (put_end e ch l) f = (if f = e then ch_conn ch else lk_conn l f)"
  "lk_end (put_end e ch l) f = (if f = e then ch else lk_end l f)"
  "lk_wire (put_end e ch l) = lk_wire l"
  "lk_conn (l\<lparr>lk_wire := onway\<rparr>) f = lk_conn l f"
  by (simp_all add: put_end_def lk_conn_def)

lemma link_shows_put:
  assumes "link_shows w l q" and "ch_idx ch = ch_idx (lk_end l e)" and "roomy (ch_conn ch)"
    and "pending w (ch_idx ch) (onway e) (ch_conn ch) ps"
    and "pending w (ch_idx (lk_end l (opposite e))) (onway (opposite e)) (lk_conn l (opposite e)) ps'"
  shows "link_shows w (put_end e ch (l\<lparr>lk_wire := onway\<rparr>)) (q(e := ps, opposite e := ps'))"
  unfolding link_shows_def
proof (intro allI)
  fix f
  have "f = e \<or> f = opposite e" by (cases e; cases f) simp_all
  with assms show "roomy (lk_conn (put_end e ch (l\<lparr>lk_wire := onway\<rparr>)) f) \<and>
      ch_idx (lk_end (put_end e ch (l\<lparr>lk_wire := onway\<rparr>)) (opposite f)) =
        ch_idx (lk_end (put_end e ch (l\<lparr>lk_wire := onway\<rparr>)) f) XOR 0x8000 \<and>
      pending w (ch_idx (lk_end (put_end e ch (l\<lparr>lk_wire := onway\<rparr>)) f))
        (lk_wire (put_end e ch (l\<lparr>lk_wire := onway\<rparr>)) f)
        (lk_conn (put_end e ch (l\<lparr>lk_wire := onway\<rparr>)) f) ((q(e := ps, opposite e := ps')) f)"
    unfolding link_shows_def by (auto simp: xor.assoc)
qed

lemma link_shows_recv:
  assumes "link_shows w l q" and "channel_recv w (lk_end l e) = (r, ch)"
  shows "(\<exists>p ps. r = Ready (Inr p) \<and> q e = p # ps \<and> link_shows w (put_end e ch l) (q(e := ps))) \<or>
    r = Pending [] \<and> link_shows w (put_end e ch l) q"
proof -
  have now: "roomy (lk_conn l e)" "pending w (ch_idx (lk_end l e)) (lk_wire l e) (lk_conn l e) (q e)"
      for e
    using assms(1) unfolding link_shows_def by blast+
  obtain conn' where conn': "connection_recv w (ch_idx (lk_end l e)) (lk_conn l e) = (r, conn')"
      "ch = (lk_end l e)\<lparr>ch_conn := conn'\<rparr>"
    using assms(2) by (auto simp: channel_recv_def lk_conn_def split: prod.splits)
  have shows': "link_shows w (put_end e ch l) (q(e := ps))"
    if "pending w (ch_idx (lk_end l e)) (lk_wire l e) conn' ps" for ps
  proof -
    have "link_shows w (put_end e ch (l\<lparr>lk_wire := lk_wire l\<rparr>))
        (q(e := ps, opposite e := q (opposite e)))"
      using that now conn' roomy_recv[OF conn'(1)] by (intro link_shows_put[OF assms(1)]) simp_all
    then show ?thesis by (simp add: fun_upd_idem)
  qed
  from pending_recv[OF now(2) conn'(1)] show ?thesis
  proof (elim disjE exE conjE)
    fix p ps assume "r = Ready (Inr p)" "q e = p # ps"
      "pending w (ch_idx (lk_end l e)) (lk_wire l e) conn' ps"
    with shows' show ?thesis by blast
  next
    assume "r = Pending []" "pending w (ch_idx (lk_end l e)) (lk_wire l e) conn' (q e)"
    with shows'[of "q e"] show ?thesis by simp
  qed
qed

lemma link_step_simulates:
  assumes "wire_ok w" and "link_shows w l q" and "link_step w l ev l'"
  shows "\<exists>q'. fifo_step q ev q' \<and> link_shows w l' q'"
proof -
  have now: "roomy (lk_conn l e)" "pending w (ch_idx (lk_end l e)) (lk_wire l e) (lk_conn l e) (q e)"
      "ch_idx (lk_end l (opposite e)) = ch_idx (lk_end l e) XOR 0x8000" for e
    using assms(2) unfolding link_shows_def by blast+
  from assms(3) show ?thesis
  proof cases
    case (send p e ch bytes)
    have ch: "ch = sent w p (lk_end l e)"
      using send(3) by (simp add: sent_def)
    let ?onway = "(lk_wire l)(opposite e := lk_wire l (opposite e) @ bytes)"
    have "bytes = frame w (cn_clock (lk_conn l e) 0) (ch_idx (lk_end l e)) p"
      using send(5) after_send_whole[OF roomy_takes[OF now(1) send(4)], of w] ch
      by (simp add: lk_conn_def)
    moreover have "ch_idx (lk_end l e) = ch_idx (lk_end l (opposite e)) XOR 0x8000"
      using now(3)[of "opposite e"] by simp
    ultimately have "pending w (ch_idx (lk_end l (opposite e))) (?onway (opposite e))
        (lk_conn l (opposite e)) (q (opposite e) @ [p])"
      using pending_frame[OF assms(1) send(4) now(2)] by simp
    moreover have "pending w (ch_idx ch) (?onway e) (ch_conn ch) (q e)" "roomy (ch_conn ch)"
      using now(1,2)[of e] pending_sent by (simp_all add: ch lk_conn_def)
    moreover have "ch_idx ch = ch_idx (lk_end l e)" by (simp add: ch)
    ultimately have "link_shows w l' (q(e := q e, opposite e := q (opposite e) @ [p]))"
      unfolding send(2) by (intro link_shows_put[OF assms(2)])
    with send(1) show ?thesis by (auto simp: fifo_step_simps)
  next
    case (send_fails p e f ch)
    from channel_send_writable[OF roomy_writable] now(1)[of e] send_fails(3)
    show ?thesis by (simp add: lk_conn_def)
  next
    case (arrive e bytes rest)
    let ?ch = "(lk_end l e)\<lparr>ch_conn := conn_arrive bytes (lk_conn l e)\<rparr>"
    have "pending w (ch_idx ?ch) rest (ch_conn ?ch) (q e)"
      using now(2)[of e] arrive(3) pending_arrive by simp
    then have "link_shows w l' (q(e := q e, opposite e := q (opposite e)))"
      unfolding arrive(2) using now(1,2) by (intro link_shows_put[OF assms(2)]) simp_all
    with arrive(1) show ?thesis by (auto simp: fifo_step_simps)
  next
    case (task e)
    let ?ch = "(lk_end l e)\<lparr>ch_conn := demux_poll w (lk_conn l e)\<rparr>"
    have "link_shows w (put_end e ?ch (l\<lparr>lk_wire := lk_wire l\<rparr>))
        (q(e := q e, opposite e := q (opposite e)))"
      using now(1,2) pending_poll by (intro link_shows_put[OF assms(2)]) simp_all
    with task show ?thesis by (auto simp: fifo_step_simps)
  next
    case (recv e p ch)
    with link_shows_recv[OF assms(2) recv(3)] show ?thesis
      by (auto simp: fifo_step_simps)
  next
    case (recv_waits e b ch)
    with link_shows_recv[OF assms(2) recv_waits(3)] show ?thesis
      by (auto simp: fifo_step_simps)
  next
    case (recv_fails e f ch)
    with link_shows_recv[OF assms(2) recv_fails(3)] show ?thesis by auto
  qed
qed

section \<open>Runs of a link\<close>

text \<open>Both ends open their channel on a new connection; no bytes are on their way.\<close>

definition link_opened :: "u16 \<Rightarrow> link \<Rightarrow> bool" where
  "link_opened i l \<longleftrightarrow> lk_wire l = (\<lambda>e. []) \<and> (\<forall>e. \<exists>now stream.
     lk_end l e = connection_channel (if e = Near then i else i XOR 0x8000)
       (from_tcp_stream now stream) \<and>
     roomy (from_tcp_stream now stream))"

lemma link_opened_shows:
  assumes "link_opened i l"
  shows "link_shows w l (\<lambda>e. [])"
  unfolding link_shows_def
proof
  fix e
  from assms obtain now stream where e:
    "lk_end l e = connection_channel (if e = Near then i else i XOR 0x8000) (from_tcp_stream now stream)"
    "roomy (from_tcp_stream now stream)" "lk_wire l e = []"
    unfolding link_opened_def by fastforce
  from assms obtain now' stream' where f: "lk_end l (opposite e) =
      connection_channel (if opposite e = Near then i else i XOR 0x8000) (from_tcp_stream now' stream')"
    unfolding link_opened_def by blast
  have "roomy (lk_conn l e)"
    using e(1,2) by (simp add: lk_conn_def connection_channel_def run_demux_def roomy_def)
  moreover have "ch_idx (lk_end l (opposite e)) = ch_idx (lk_end l e) XOR 0x8000"
    using e(1) f by (cases e) (simp_all add: connection_channel_def xor.assoc)
  moreover have "pending w (ch_idx (lk_end l e)) (lk_wire l e) (lk_conn l e) []"
    using e by (simp add: lk_conn_def pending_def connection_channel_def run_demux_def register_def
        from_tcp_stream_def connection_new_def demux_run_waiting)
  ultimately show "roomy (lk_conn l e) \<and>
      ch_idx (lk_end l (opposite e)) = ch_idx (lk_end l e) XOR 0x8000 \<and>
      pending w (ch_idx (lk_end l e)) (lk_wire l e) (lk_conn l e) []"
    by blast
qed

inductive fifo_run :: "queues \<Rightarrow> link_event list \<Rightarrow> queues \<Rightarrow> bool" where
  fifo_start: "fifo_run q [] q"
| fifo_next: "fifo_run q evs q' \<Longrightarrow> fifo_step q' ev q'' \<Longrightarrow> fifo_run q (evs @ [ev]) q''"

lemma link_run_simulates:
  assumes "link_run w l evs l'" and "wire_ok w" and "link_shows w l q"
  shows "\<exists>q'. fifo_run q evs q' \<and> link_shows w l' q'"
  using assms
proof (induction rule: link_run.induct)
  case (start l)
  then show ?case by (blast intro: fifo_start)
next
  case (step l evs l' ev l'')
  then show ?case by (meson link_step_simulates fifo_next)
qed

text \<open>
  C7. Every run of two connections at the ends of a socket, whatever the order in which the two
  sides send and receive, the network hands over bytes and the tasks run, is a run of two
  queues of payloads: a send appends to the queue towards the other end, a receive takes its
  head, and every other step leaves both as they are. No call panics. The payloads sent are of
  less than 65536 bytes and the socket takes them whole (\<open>link_step\<close>, \<open>link_opened\<close>).
\<close>

theorem link_refines_fifo:
  assumes "wire_ok w" and "link_opened i l" and "link_run w l evs l'"
  shows "\<exists>q. fifo_run (\<lambda>e. []) evs q \<and> link_shows w l' q"
  by (rule link_run_simulates[OF assms(3,1) link_opened_shows[OF assms(2)]])

text \<open>The payloads that an end has sent and taken in a run.\<close>

definition sent_by :: "endpoint \<Rightarrow> link_event list \<Rightarrow> payload list" where
  "sent_by e evs =
     concat (map (\<lambda>ev. case ev of Sent f p \<Rightarrow> if f = e then [p] else [] | _ \<Rightarrow> []) evs)"

definition taken_by :: "endpoint \<Rightarrow> link_event list \<Rightarrow> payload list" where
  "taken_by e evs =
     concat (map (\<lambda>ev. case ev of Took f p \<Rightarrow> if f = e then [p] else [] | _ \<Rightarrow> []) evs)"

lemma fifo_run_account:
  assumes "fifo_run q evs q'"
  shows "taken_by e evs @ q' e = q e @ sent_by (opposite e) evs \<and> Broken \<notin> set evs"
  using assms
proof (induction rule: fifo_run.induct)
  case (fifo_start q)
  then show ?case by (simp add: sent_by_def taken_by_def)
next
  case (fifo_next q evs q' ev q'')
  from fifo_next(2,3) show ?case
    by (cases rule: fifo_step.cases) (auto simp: sent_by_def taken_by_def)
qed

lemma link_run_account:
  assumes "wire_ok w" and "link_opened i l" and "link_run w l evs l'"
  obtains q where "link_shows w l' q" "\<And>e. taken_by e evs @ q e = sent_by (opposite e) evs"
    "Broken \<notin> set evs"
proof -
  obtain q where "fifo_run (\<lambda>e. []) evs q" "link_shows w l' q"
    using link_run_simulates[OF assms(3,1) link_opened_shows[OF assms(2)]] by blast
  with fifo_run_account that show thesis by fastforce
qed

text \<open>
  In every run of a link, what an end has taken so far is a prefix of what the other end has
  sent: nothing is lost, duplicated, reordered or made up, in either direction, and no call has
  panicked.
\<close>

theorem link_faithful:
  assumes "wire_ok w" and "link_opened i l" and "link_run w l evs l'"
  shows "\<exists>later. taken_by e evs @ later = sent_by (opposite e) evs \<and> Broken \<notin> set evs"
  using link_run_account[OF assms] by metis

text \<open>From every state of a link an end can send, and the rest of the bytes can arrive.\<close>

lemma link_run_step: "link_step w l ev l' \<Longrightarrow> link_run w l [ev] l'"
  using link_run.step[OF link_run.start] by fastforce

lemma link_can_send:
  assumes "link_shows w l q" and "length p < 65536"
  shows "\<exists>l'. link_step w l (Sent e p) l'"
proof -
  have "roomy (lk_conn l e)" using assms(1) unfolding link_shows_def by blast
  then have "channel_send w p (lk_end l e) = (Inr (), sent w p (lk_end l e))"
    "takes_whole p (cn_writes (lk_conn l e) 0)"
    using channel_send_writable roomy_writable roomy_takes[OF _ assms(2)]
    by (auto simp: lk_conn_def)
  then show ?thesis
    using link_step.send[OF _ assms(2)] by (fastforce simp: lk_conn_def after_send_whole)
qed

lemma link_can_take:
  assumes "wire_ok w" and "link_shows w l q" and "q e = p # ps"
  shows "\<exists>l' l''. link_step w l Moved l' \<and> link_step w l' (Took e p) l''"
proof -
  let ?l = "put_end e ((lk_end l e)\<lparr>ch_conn := conn_arrive (lk_wire l e) (lk_conn l e)\<rparr>)
    (l\<lparr>lk_wire := (lk_wire l)(e := [])\<rparr>)"
  have step: "link_step w l Moved ?l" by (rule link_step.arrive) simp
  have "pending w (ch_idx (lk_end l e)) (lk_wire l e @ []) (lk_conn l e) (p # ps)"
    using assms(2,3) unfolding link_shows_def by (metis append_Nil2)
  from pending_all_arrived[OF pending_arrive[OF this]]
  obtain conn' where "channel_recv w (lk_end ?l e) =
      (Ready (Inr p), (lk_end ?l e)\<lparr>ch_conn := conn'\<rparr>)"
    by (auto simp: channel_recv_def)
  from link_step.recv[OF this] step show ?thesis by blast
qed

text \<open>
  C16. Nothing that was sent is out of reach: in every state that a link can reach, if the other end
  has sent more than this end has taken, then once the bytes on their way arrive the next
  receive returns the next of these payloads. The payloads are of less than 65536 bytes and the
  socket takes them whole, as above.
\<close>

theorem link_progress:
  assumes "wire_ok w" and "link_opened i l" and "link_run w l evs l'"
    and "sent_by (opposite e) evs = taken_by e evs @ p # ps"
  shows "\<exists>l''. link_run w l (evs @ [Moved, Took e p]) l''"
proof -
  obtain q where q: "link_shows w l' q" "taken_by e evs @ q e = sent_by (opposite e) evs"
    using link_run_account[OF assms(1-3)] by metis
  with assms(4) have "q e = p # ps" by simp
  from link_can_take[where e = e, OF assms(1) q(1) this] obtain m l'' where
    "link_step w l' Moved m" "link_step w m (Took e p) l''" by blast
  with link_run.step[OF link_run.step[OF assms(3)]] show ?thesis by fastforce
qed

section \<open>A sample\<close>

definition sample_link :: link where
  "sample_link = \<lparr>lk_end = (\<lambda>e. connection_channel (if e = Near then 2 else 2 XOR 0x8000)
     (from_tcp_stream 0 \<lparr>sk_clock = (\<lambda>k. 0), sk_writes = (\<lambda>k. Accepts 65535)\<rparr>)),
     lk_wire = (\<lambda>e. [])\<rparr>"

lemma sample_link_opened: "link_opened 2 sample_link"
proof -
  let ?s = "\<lparr>sk_clock = (\<lambda>k. 0), sk_writes = (\<lambda>k. Accepts 65535)\<rparr>"
  have "roomy (from_tcp_stream 0 ?s)"
    by (simp add: roomy_def from_tcp_stream_def connection_new_def)
  then show ?thesis unfolding link_opened_def sample_link_def link.simps by blast
qed

definition sample_events :: "link_event list" where
  "sample_events = [Sent Near [1, 2], Sent Far [3], Moved, Took Far [1, 2], Sent Near [4]]"

lemma sample_link_runs: "\<exists>l. link_run sample_wire sample_link sample_events l"
proof -
  note shows' = link_step_simulates[OF sample_wire_ok]
  note opened = link_opened_shows[OF sample_link_opened, of sample_wire]
  obtain l1 where l1: "link_step sample_wire sample_link (Sent Near [1, 2]) l1"
    using link_can_send[OF opened] by fastforce
  from shows'[OF opened l1] obtain q1 where q1: "link_shows sample_wire l1 q1" "q1 Far = [[1, 2]]"
    by (auto simp: fifo_step_simps)
  obtain l2 where l2: "link_step sample_wire l1 (Sent Far [3]) l2"
    using link_can_send[OF q1(1)] by fastforce
  from shows'[OF q1(1) l2] q1(2) obtain q2 where q2: "link_shows sample_wire l2 q2" "q2 Far = [[1, 2]]"
    by (auto simp: fifo_step_simps)
  obtain l3 l4 where l34: "link_step sample_wire l2 Moved l3" "link_step sample_wire l3 (Took Far [1, 2]) l4"
    using link_can_take[OF sample_wire_ok q2] by blast
  from shows'[OF q2(1) l34(1)] obtain q3 where q3: "link_shows sample_wire l3 q3" by blast
  from shows'[OF q3 l34(2)] obtain q4 where q4: "link_shows sample_wire l4 q4" by blast
  obtain l5 where "link_step sample_wire l4 (Sent Near [4]) l5"
    using link_can_send[OF q4] by fastforce
  with l1 l2 l34 show ?thesis
    unfolding sample_events_def
    using link_run.step[OF link_run.step[OF link_run.step[OF link_run.step[OF link_run_step]]]]
    by fastforce
qed

theorem link_refines_fifo_witness:
  "\<exists>l q. link_run sample_wire sample_link sample_events l \<and> fifo_run (\<lambda>e. []) sample_events q"
  using sample_link_runs link_refines_fifo[OF sample_wire_ok sample_link_opened] by blast

theorem link_faithful_witness:
  "\<exists>l later. link_run sample_wire sample_link sample_events l \<and> [1, 2] # later = [[1, 2], [4]]"
proof -
  obtain l where l: "link_run sample_wire sample_link sample_events l"
    using sample_link_runs by blast
  from link_faithful[OF sample_wire_ok sample_link_opened this, of Far] l show ?thesis
    by (auto simp: sample_events_def taken_by_def sent_by_def)
qed

theorem link_progress_witness:
  "\<exists>l. link_run sample_wire sample_link (sample_events @ [Moved, Took Far [4]]) l"
proof -
  obtain l where l: "link_run sample_wire sample_link sample_events l"
    using sample_link_runs by blast
  have "sent_by (opposite Far) sample_events = taken_by Far sample_events @ [4] # []"
    by (simp add: sample_events_def taken_by_def sent_by_def)
  from link_progress[OF sample_wire_ok sample_link_opened l this] show ?thesis .
qed

end
