(* ===== verification/Wire_Sessions.thy ===== *)
theory Wire_Sessions
  imports Suspension
begin

unbundle bit_operations_syntax

text \<open>
  The clients over the wire: bytes a peer writes on any channels arrive on the socket in any
  chunks, the multiplexer hands the payloads of the open channel to the client, and the
  client's calls answer. This composes the delivery of frames with the lemmas on each call.
\<close>

section \<open>A connection from one channel to the next\<close>

text \<open>The bytes that a peer with a working socket writes for the frames \<open>fs\<close>.\<close>

definition peer_writes :: "wire \<Rightarrow> (u16 \<times> payload) list \<Rightarrow> byte list \<Rightarrow> bool" where
  "peer_writes w fs data \<longleftrightarrow>
     (\<exists>a. fits (cn_writes a) fs \<and> cn_sent (send_all w fs a) = cn_sent a @ data)"

definition payloads_for :: "u16 \<Rightarrow> (u16 \<times> payload) list \<Rightarrow> payload list" where
  "payloads_for k fs = [payload. (idx, payload) \<leftarrow> fs, idx XOR 0x8000 = k]"

text \<open>A free connection on which all frames so far have been read to their end.\<close>

definition fresh :: "connection \<Rightarrow> bool" where
  "fresh conn \<longleftrightarrow> cn_channels conn = Map.empty \<and> cn_demux conn = None \<and> cn_input conn = [] \<and>
     \<not> cn_eof conn \<and> writable conn"

text \<open>A connection owned by the channel \<open>idx\<close>, with the bytes \<open>data\<close> to read.\<close>

definition tuned :: "u16 \<Rightarrow> byte list \<Rightarrow> channel \<Rightarrow> bool" where
  "tuned idx data ch \<longleftrightarrow> ch_idx ch = idx \<and> ch_bytes ch = [] \<and>
     (\<exists>q. cn_channels (ch_conn ch) = [idx \<mapsto> q] \<and> concat q = data) \<and>
     cn_demux (ch_conn ch) = Some (1, AtHeader []) \<and> cn_input (ch_conn ch) = [] \<and>
     \<not> cn_eof (ch_conn ch) \<and> writable (ch_conn ch)"

lemma connection_new_fresh:
  "(\<And>k. \<exists>n. writes k = Accepts n) \<Longrightarrow> fresh (connection_new now clock writes)"
  by (simp add: fresh_def connection_new_def writable_def)

text \<open>A stream on which writes do not fail gives a free connection.\<close>

definition stream_works :: "socket \<Rightarrow> bool" where
  "stream_works stream \<longleftrightarrow> (\<forall>k. \<exists>n. sk_writes stream k = Accepts n)"

lemma from_tcp_stream_fresh: "stream_works stream \<Longrightarrow> fresh (from_tcp_stream now stream)"
  unfolding from_tcp_stream_def stream_works_def by (intro connection_new_fresh) simp

lemma tuned_open: "fresh conn \<Longrightarrow> tuned idx [] (connection_channel idx conn)"
  unfolding tuned_def
  by (intro conjI exI[of _ "[]"])
    (simp_all add: fresh_def connection_channel_def run_demux_def register_def writable_def)

lemma tuned_drop: "tuned idx data ch \<Longrightarrow> fresh (channel_drop ch)"
  by (auto simp: fresh_def tuned_def channel_drop_def demux_drop_def unregister_def writable_def)

lemma tuned_quiet: "tuned idx data ch \<Longrightarrow> quiet (ch_conn ch)"
  by (simp add: tuned_def quiet_def)

lemma tuned_holds: "tuned idx data ch \<Longrightarrow> holds data ch"
  by (auto simp: tuned_def holds_def quiet_def)

lemma tuned_feed: "tuned idx data ch \<Longrightarrow> concat ps = data' \<Longrightarrow> tuned idx data' (feed [] ps ch)"
  by (auto simp: tuned_def feed_def writable_def)

lemma tuned_sent: "tuned idx data ch \<Longrightarrow> tuned idx data (sent w bytes ch)"
  by (auto simp: tuned_def)

lemma tuned_queue:
  assumes "tuned idx data ch"
  obtains q where "cn_channels (ch_conn ch) idx = Some q" "concat q = data"
    "feed [] q ch = ch"
  using assms feed_exists[of ch] by (auto simp: tuned_def)

lemma arrivals_delivered:
  assumes "wire_ok w" and "peer_writes w fs (concat chunks)"
    and "cn_demux b = Some (n, AtHeader [])" and "cn_input b = []" and "\<not> cn_eof b"
  shows "cn_channels (arrivals w chunks b) k =
      map_option (\<lambda>queue. queue @ payloads_for k fs) (cn_channels b k) \<and>
    cn_input (arrivals w chunks b) = [] \<and> cn_demux (arrivals w chunks b) = Some (n, AtHeader [])"
proof -
  have "demux_poll w (arrivals w chunks b) = arrivals w chunks b"
  proof (cases "chunks = []")
    case True
    with assms(3-5) show ?thesis by (simp add: arrivals_def quiet_demux_poll quiet_def)
  next
    case False
    then show ?thesis by (rule arrivals_polled)
  qed
  moreover from assms(2) obtain a where a: "fits (cn_writes a) fs"
      "cn_sent (send_all w fs a) = cn_sent a @ concat chunks"
    by (auto simp: peer_writes_def)
  ultimately show ?thesis
    using arrivals_deliver[OF assms(1) a assms(3-5)] by (simp add: payloads_for_def)
qed

lemma arrivals_eof: "cn_eof (arrivals w chunks conn) = cn_eof conn"
  unfolding arrivals_def by (induction chunks arbitrary: conn) simp_all

lemma tuned_hear:
  assumes "wire_ok w" and "peer_writes w fs (concat chunks)" and "tuned idx data ch"
  shows "tuned idx (data @ concat (payloads_for idx fs)) (hear w chunks ch)"
proof -
  from assms(3) obtain q where q: "cn_channels (ch_conn ch) = [idx \<mapsto> q]" "concat q = data"
    by (auto simp: tuned_def)
  have arr: "cn_channels (arrivals w chunks (ch_conn ch)) k =
      map_option (\<lambda>queue. queue @ payloads_for k fs) (cn_channels (ch_conn ch) k) \<and>
    cn_input (arrivals w chunks (ch_conn ch)) = [] \<and>
    cn_demux (arrivals w chunks (ch_conn ch)) = Some (1, AtHeader [])" for k
    using assms(3) by (intro arrivals_delivered[OF assms(1,2)]) (simp_all add: tuned_def)
  have "cn_channels (arrivals w chunks (ch_conn ch)) = [idx \<mapsto> q @ payloads_for idx fs]"
    using arr by (simp add: fun_eq_iff q(1))
  then show ?thesis
    unfolding tuned_def using assms(3) arr q(2)
    by (intro conjI exI[of _ "q @ payloads_for idx fs"])
      (simp_all add: tuned_def hear_def arrivals_eof writable_def)
qed

text \<open>
  What a send writes depends on the sending half of the connection alone; with it goes the
  time when the connection was opened.
\<close>

definition same_sender :: "connection \<Rightarrow> connection \<Rightarrow> bool" where
  "same_sender a b \<longleftrightarrow> cn_sent a = cn_sent b \<and> cn_clock a = cn_clock b \<and> cn_writes a = cn_writes b \<and>
     cn_start_time a = cn_start_time b"

lemma same_sender_sent:
  "same_sender a b \<Longrightarrow> cn_sent (after_send w idx data a) = cn_sent (after_send w idx data b)"
  by (simp add: same_sender_def after_send_def connection_send_def Let_def
      split: write_outcome.split)

lemma same_sender_after:
  "same_sender a b \<Longrightarrow> same_sender (after_send w idx data a) (after_send w idx data b)"
  by (simp add: same_sender_def after_send_def connection_send_def Let_def
      split: write_outcome.split)

lemma same_sender_send_all: "same_sender a b \<Longrightarrow> same_sender (send_all w fs a) (send_all w fs b)"
proof (induction fs arbitrary: a b)
  case (Cons f fs)
  obtain idx data where "f = (idx, data)" by (cases f)
  with Cons.IH[OF same_sender_after[OF Cons.prems]] show ?case by (simp add: send_all_def)
qed (simp add: send_all_def)

lemma same_sender_trans [trans]:
  "same_sender a b \<Longrightarrow> same_sender b d \<Longrightarrow> same_sender a d"
  by (simp add: same_sender_def)

lemma same_sender_steps [simp]:
  "same_sender conn conn"
  "same_sender (ch_conn (feed l ps ch)) conn \<longleftrightarrow> same_sender (ch_conn ch) conn"
  "same_sender (channel_drop ch) conn \<longleftrightarrow> same_sender (ch_conn ch) conn"
  by (simp_all add: same_sender_def feed_def channel_drop_def demux_drop_def)

lemma same_sender_hear [simp]:
  "same_sender (ch_conn (hear w chunks ch)) conn \<longleftrightarrow> same_sender (ch_conn ch) conn"
  "same_sender (ch_conn (connection_channel idx conn)) conn"
  by (simp_all add: same_sender_def hear_def connection_channel_def run_demux_def)

lemma channel_drop_sent [simp]: "cn_sent (channel_drop ch) = cn_sent (ch_conn ch)"
  "cn_start_time (channel_drop ch) = cn_start_time (ch_conn ch)"
  by (simp_all add: channel_drop_def demux_drop_def)

lemma start_time_kept [simp]:
  "cn_start_time (after_send w idx data conn) = cn_start_time conn"
  "cn_start_time (ch_conn (feed l ps ch)) = cn_start_time (ch_conn ch)"
  by (simp_all add: after_send_def connection_send_def feed_def Let_def split: write_outcome.split)

section \<open>Shaking hands\<close>

text \<open>What a side proposes with a configuration, and what it answers.\<close>

definition hb_proposal :: "handshake_builder \<Rightarrow> hs_message" where
  "hb_proposal b = ProposeVersions (map (\<lambda>v. (v, hb_magic b)) (hb_versions b))"

definition hb_acceptance :: "handshake_builder \<Rightarrow> hs_message" where
  "hb_acceptance b = AcceptVersion (last (hb_versions b)) (hb_magic b)"

text \<open>What a client with this configuration makes of an acceptance.\<close>

definition hb_verdict :: "handshake_builder \<Rightarrow> version \<Rightarrow> u32 \<Rightarrow> (error, unit) result" where
  "hb_verdict b v magic =
     (if magic \<noteq> hb_magic b then Inl (Panic AssertPanic)
      else if v \<in> set (hb_versions b) then Inr ()
      else Inl (Error (ErrText ''Handshake failed.'')))"

lemma hb_wf:
  assumes "hs_configured b"
  shows "hs_wf (hb_proposal b)" "hs_wf (hb_acceptance b)" "hb_versions b \<noteq> []"
  using hs_configured_versions[OF assms]
  by (auto simp: hb_proposal_def hb_acceptance_def less_version_def)

definition hs_hear :: "wire \<Rightarrow> byte list list \<Rightarrow> handshake \<Rightarrow> handshake" where
  "hs_hear w chunks s = s\<lparr>hs_channel := hear w chunks (hs_channel s)\<rparr>"

text \<open>A side that has just been opened, with the payloads of its channel on its queue.\<close>

lemma hs_open_hears:
  assumes "wire_ok w" and "fresh conn" and "peer_writes w fs (concat chunks)"
    and "s = hs_hear w chunks (hs_with_channel b role (connection_channel idx conn))"
  obtains ps where "hs_ready role ps s" "concat ps = concat (payloads_for idx fs)"
    "tuned idx (concat ps) (hs_channel s)" "hs_versions s = hb_versions b"
    "hs_network_magic s = hb_magic b" "hs_proposal s = hb_proposal b"
    "same_sender (ch_conn (hs_channel s)) conn"
proof -
  have ch: "tuned idx (concat (payloads_for idx fs)) (hs_channel s)"
    using tuned_hear[OF assms(1,3) tuned_open[OF assms(2)]]
    by (simp add: assms(4) hs_hear_def hs_with_channel_def)
  then obtain q where q: "cn_channels (ch_conn (hs_channel s)) idx = Some q"
      "concat q = concat (payloads_for idx fs)"
    by (rule tuned_queue)
  have "hs_ready role q s"
    using ch q tuned_quiet[OF ch]
    by (simp add: hs_ready_def tuned_def assms(4) hs_hear_def hs_with_channel_def)
  with q ch show thesis
    by (intro that[of q])
      (simp_all add: assms(4) hs_hear_def hs_with_channel_def hs_proposal_def hb_proposal_def)
qed

lemma hs_client_wire:
  assumes "wire_ok w" "cbor_stream c" "cbor_order c" and "fresh conn" and "hs_configured b"
    and "peer_writes w fs (concat chunks)" and "hs_wf (AcceptVersion v magic)"
    and "concat (payloads_for 0 fs) = hs_bytes c (AcceptVersion v magic)"
  shows "\<exists>r t. negotiate w c (hs_hear w chunks (hs_with_channel b Client (connection_channel 0 conn))) =
      Some (Ready r, t) \<and> bind_r r (\<lambda>_. Inr ()) = hb_verdict b v magic \<and>
    fresh (channel_drop (hs_channel t)) \<and> cn_sent (channel_drop (hs_channel t)) =
      cn_sent (after_send w 0 (hs_bytes c (hb_proposal b)) conn) \<and>
    cn_start_time (channel_drop (hs_channel t)) = cn_start_time conn"
proof -
  obtain s where s: "s = hs_hear w chunks (hs_with_channel b Client (connection_channel 0 conn))"
    by blast
  obtain ps where ps: "hs_ready Client ps s" "concat ps = concat (payloads_for 0 fs)"
      "tuned 0 (concat ps) (hs_channel s)" "hs_versions s = hb_versions b"
      "hs_network_magic s = hb_magic b" "hs_proposal s = hb_proposal b"
      "same_sender (ch_conn (hs_channel s)) conn"
    by (rule hs_open_hears[OF assms(1,4,6) s])
  have "hs_wf (hs_proposal s)" using hb_wf[OF assms(5)] ps(6) by simp
  note enc = hs_bytes_encodes(1)[OF assms(2,3) this]
  from hs_client_run[OF assms(2,3) ps(1) enc assms(7), of w] ps(2) assms(8)
  obtain t ps' where t: "negotiate w c s = Some (Ready (hs_verdict s v magic), t)"
      "hs_channel t = feed [] ps' (sent w (hs_bytes c (hs_proposal s)) (hs_channel s))"
    by auto
  have "tuned 0 (concat ps') (hs_channel t)"
    unfolding t(2) by (rule tuned_feed[OF tuned_sent[OF ps(3)] refl])
  then have "fresh (channel_drop (hs_channel t))" by (rule tuned_drop)
  moreover have "bind_r (hs_verdict s v magic) (\<lambda>_. Inr ()) = hb_verdict b v magic"
    by (simp add: hs_verdict_def hb_verdict_def ps(4,5))
  moreover have "cn_sent (channel_drop (hs_channel t)) =
      cn_sent (after_send w 0 (hs_bytes c (hb_proposal b)) conn)"
    "cn_start_time (channel_drop (hs_channel t)) = cn_start_time conn"
    using ps(3,6) same_sender_sent[OF ps(7)] ps(7)
    by (simp_all add: t(2) tuned_def same_sender_def)
  ultimately show ?thesis using t(1) s by blast
qed

lemma hs_server_wire:
  assumes "wire_ok w" "cbor_stream c" "cbor_order c" and "fresh conn" and "hs_configured b"
    and "peer_writes w fs (concat chunks)" and "hs_wf proposal"
    and "concat (payloads_for 0x8000 fs) = hs_bytes c proposal"
  shows "\<exists>r t. negotiate w c
      (hs_hear w chunks (hs_with_channel b Server (connection_channel 0x8000 conn))) =
      Some (Ready (Inr r), t) \<and> fresh (channel_drop (hs_channel t)) \<and>
    cn_sent (channel_drop (hs_channel t)) =
      cn_sent (after_send w 0x8000 (hs_bytes c (hb_acceptance b)) conn)"
proof -
  obtain s where s: "s = hs_hear w chunks (hs_with_channel b Server (connection_channel 0x8000 conn))"
    by blast
  obtain ps where ps: "hs_ready Server ps s" "concat ps = concat (payloads_for 0x8000 fs)"
      "tuned 0x8000 (concat ps) (hs_channel s)" "hs_versions s = hb_versions b"
      "hs_network_magic s = hb_magic b" "same_sender (ch_conn (hs_channel s)) conn"
    by (rule hs_open_hears[OF assms(1,4,6) s])
  have "hs_versions s \<noteq> []" "hs_wf (AcceptVersion (last (hs_versions s)) (hs_network_magic s))"
    using hb_wf[OF assms(5)] by (simp_all add: ps(4,5) hb_acceptance_def)
  from hs_server_run[OF assms(2,3) ps(1) assms(7) _ this, of w] ps(2) assms(8)
  obtain r t ps' where t: "negotiate w c s = Some (Ready (Inr r), t)"
      "hs_channel t = feed [] ps' (sent w (hs_bytes c (hb_acceptance b)) (hs_channel s))"
    by (auto simp: hb_acceptance_def ps(4,5))
  have "tuned 0x8000 (concat ps') (hs_channel t)"
    unfolding t(2) by (rule tuned_feed[OF tuned_sent[OF ps(3)] refl])
  then have "fresh (channel_drop (hs_channel t))" by (rule tuned_drop)
  moreover have "cn_sent (channel_drop (hs_channel t)) =
      cn_sent (after_send w 0x8000 (hs_bytes c (hb_acceptance b)) conn)"
    using ps(3) same_sender_sent[OF ps(6)] by (simp add: t(2) tuned_def)
  ultimately show ?thesis using t(1) s by blast
qed

section \<open>Chain sync\<close>

definition cs_hear :: "wire \<Rightarrow> byte list list \<Rightarrow> chain_sync \<Rightarrow> chain_sync" where
  "cs_hear w chunks s = s\<lparr>cs_channel := hear w chunks (cs_channel s)\<rparr>"

text \<open>
  A server that follows the protocol serves a call: among the frames it writes, those of the
  client's channel hold its messages.
\<close>

definition cs_serves_wire :: "wire \<Rightarrow> cbor \<Rightarrow> (nat \<Rightarrow> byte list \<Rightarrow> byte list) \<Rightarrow> cs_call \<Rightarrow>
    byte list list \<Rightarrow> cs_answer \<Rightarrow> bool" where
  "cs_serves_wire w c blake2b call chunks answer \<longleftrightarrow> (\<exists>fs. peer_writes w fs (concat chunks) \<and>
     cs_serves c blake2b call (concat (payloads_for 0x0002 fs)) answer)"

text \<open>A client between two calls with nothing to read.\<close>

definition cs_calm :: "chain_sync \<Rightarrow> bool" where
  "cs_calm s \<longleftrightarrow> cs_state s = CsIdle \<and> cs_query s = None \<and> cs_reply s = None \<and>
     cs_intersect s = None \<and> tuned 0x0002 [] (cs_channel s)"

lemma cs_client_calm: "fresh conn \<Longrightarrow> cs_calm (cs_client conn)"
  by (simp add: cs_calm_def cs_client_def tuned_open)

lemma cs_calm_hears:
  assumes "wire_ok w" and "cs_calm s" and "peer_writes w fs (concat chunks)"
  shows "cs_ready (concat (payloads_for 0x0002 fs)) (cs_hear w chunks s)"
    and "tuned 0x0002 (concat (payloads_for 0x0002 fs)) (cs_channel (cs_hear w chunks s))"
  using tuned_hear[OF assms(1,3), of 2 "[]" "cs_channel s"] assms(2) tuned_holds
  by (auto simp: cs_ready_def cs_calm_def cs_hear_def)

lemma cs_settled_calm:
  assumes "cs_settled w c m s t" and "tuned 0x0002 data (cs_channel s)"
  shows "cs_calm t"
proof -
  from assms(1) obtain ps' where ps': "cs_ready [] t" "concat ps' = []"
      "cs_channel t = feed [] ps' (sent w (cs_bytes c m) (cs_channel s))"
    by (auto simp: cs_settled_def)
  have "tuned 0x0002 [] (cs_channel t)"
    unfolding ps'(3) by (rule tuned_feed[OF tuned_sent[OF assms(2)] ps'(2)])
  with ps'(1) show ?thesis by (simp add: cs_calm_def cs_ready_def)
qed

lemma request_next_wire:
  assumes "wire_ok w" "cbor_stream c" and "cs_calm s"
    and "cs_serves_wire w c blake2b CallNext chunks (Replied r)"
  shows "\<exists>t. request_next w c blake2b (cs_hear w chunks s) = Some (Ready (Inr r), t) \<and> cs_calm t"
proof -
  from assms(4) obtain fs where fs: "peer_writes w fs (concat chunks)"
      "cs_serves c blake2b CallNext (concat (payloads_for 0x0002 fs)) (Replied r)"
    by (auto simp: cs_serves_wire_def)
  note heard = cs_calm_hears[OF assms(1,3) fs(1)]
  from fs(2) obtain m n where m: "reply_of c blake2b m = Some r"
      "concat (payloads_for 0x0002 fs) = concat (map (cs_bytes c) (replicate n AwaitReply @ [m]))"
    by (auto elim: cs_serves.cases)
  from request_next_run[OF assms(2) heard(1)[unfolded m(2)] m(1), of w]
  obtain t where "request_next w c blake2b (cs_hear w chunks s) = Some (Ready (Inr r), t)"
      "cs_settled w c RequestNext (cs_hear w chunks s) t" by blast
  with cs_settled_calm[OF _ heard(2)] show ?thesis by blast
qed

lemma find_intersect_wire:
  assumes "wire_ok w" "cbor_stream c" and "cs_calm s"
    and "cs_serves_wire w c blake2b (CallFind points) chunks (Intersected i)"
  shows "\<exists>t. find_intersect w c blake2b points (cs_hear w chunks s) = Some (Ready (Inr i), t) \<and>
    cs_calm t"
proof -
  from assms(4) obtain fs where fs: "peer_writes w fs (concat chunks)"
      "cs_serves c blake2b (CallFind points) (concat (payloads_for 0x0002 fs)) (Intersected i)"
    by (auto simp: cs_serves_wire_def)
  note heard = cs_calm_hears[OF assms(1,3) fs(1)]
  from fs(2) obtain m where m: "intersect_of m = Some i"
      "concat (payloads_for 0x0002 fs) = cs_bytes c m"
    by (auto elim: cs_serves.cases)
  from find_intersect_run[OF assms(2) heard(1)[unfolded m(2)] m(1), of w]
  obtain t where "find_intersect w c blake2b points (cs_hear w chunks s) = Some (Ready (Inr i), t)"
      "cs_settled w c (FindIntersect points) (cs_hear w chunks s) t" by blast
  with cs_settled_calm[OF _ heard(2)] show ?thesis by blast
qed

text \<open>Without an answer a call waits.\<close>

lemma request_next_silent:
  assumes "cbor_stream c" and "cs_calm s"
  shows "\<exists>t. request_next w c blake2b s = Some (Pending [], t)"
proof -
  let ?t = "s\<lparr>cs_query := Some QueryReply, cs_state := CanAwait\<rparr>"
  obtain q where q: "cn_channels (ch_conn (cs_channel s)) 2 = Some q" "concat q = []"
      "feed [] q (cs_channel s) = cs_channel s"
    using tuned_queue[of 2 "[]" "cs_channel s"] assms(2) by (auto simp: cs_calm_def)
  have "cs_send (s\<lparr>cs_query := Some QueryReply\<rparr>) = (Inr RequestNext, ?t)"
    "writable (ch_conn (cs_channel s))"
    using assms(2) by (auto simp: cs_send_def cs_calm_def tuned_def)
  moreover have "quiet (ch_conn (cs_channel s))"
    using assms(2) tuned_quiet by (auto simp: cs_calm_def)
  ultimately show ?thesis
    using cs_requests[OF assms(1), where s = s and q = QueryReply and m = RequestNext and t = ?t
      and ps = q and blake2b = blake2b and w = w] q(2,3) assms(2)
    cs.execute_idles[where s = ?t and ps = q and ca = c and c = c and blake2b = blake2b and w = w
      and ch = "sent w (cs_bytes c RequestNext) (cs_channel s)"]
    by (simp add: request_next_def bind_t_def cs_agency_def cs_calm_def)
qed

section \<open>Block fetch\<close>

definition bf_hear :: "wire \<Rightarrow> byte list list \<Rightarrow> block_fetch \<Rightarrow> block_fetch" where
  "bf_hear w chunks s = s\<lparr>bf_channel := hear w chunks (bf_channel s)\<rparr>"

lemma bf_hear_nothing [simp]: "bf_hear w [] s = s"
  by (simp add: bf_hear_def hear_def arrivals_def)

text \<open>The reply to a request of a new client, among frames for any channels.\<close>

lemma block_fetch_wire:
  assumes "wire_ok w" "cbor_stream c" and "fresh conn"
    and "bf_client builder conn = (Inr s, conn')"
    and "peer_writes w fs (concat chunks)"
    and "concat (payloads_for 0x0003 fs) = concat (map (bf_bytes c) (StartBatch # batch bs))"
  shows "\<exists>t u. bf_run w c (bf_hear w chunks s) = Some (Ready (Inr ()), t) \<and>
    bf_collect w c [] t = Some (Ready (Inr bs), u)"
proof -
  have s: "bf_state s = BfIdle" "bf_result s = []" "\<not> bf_done s"
      "bf_channel s = connection_channel 0x0003 conn"
    using assms(4) by (auto simp: bf_client_def Let_def split: sum.splits)
  have heard: "tuned 0x0003 (concat (payloads_for 0x0003 fs)) (bf_channel (bf_hear w chunks s))"
    using tuned_hear[OF assms(1,5) tuned_open[OF assms(3)]] s(4) by (simp add: bf_hear_def)
  then obtain ps where ps: "cn_channels (ch_conn (bf_channel (bf_hear w chunks s))) 0x0003 = Some ps"
      "concat ps = concat (payloads_for 0x0003 fs)"
    by (rule tuned_queue)
  have "bf_ready ps (bf_hear w chunks s)"
    using heard tuned_quiet[OF heard] s(1-3) ps(1) by (simp add: bf_ready_def tuned_def bf_hear_def)
  from block_fetch_run[OF assms(2) this trans[OF ps(2) assms(6)], of w] show ?thesis by blast
qed

end
