(* ===== verification/Scripted_Peers.thy ===== *)
theory Scripted_Peers
  imports Resumable_Calls Mux_Link Wire_Sessions
begin

unbundle bit_operations_syntax

text \<open>
  A client against a peer that follows a script, as they run concurrently. This is how the tests
  of the crate run a client: its calls at one end of a socket, joined with a task at the other end
  that expects payloads on a channel and sends others. The user's calls are polled, bytes arrive
  in any pieces, the tasks run and the peer goes through its script, in any order.
\<close>

section \<open>Test helpers\<close>

text \<open>\<open>Channel::expect\<close> of \<open>src/mux.rs\<close>: receive a payload and assert that it is \<open>data\<close>.\<close>

definition channel_expect :: "wire \<Rightarrow> payload \<Rightarrow> channel \<Rightarrow> (error, unit) poll \<times> channel" where
  "channel_expect w data ch = (case channel_recv w ch of
       (Pending l, ch') \<Rightarrow> (Pending l, ch')
     | (Ready r, ch') \<Rightarrow>
         (Ready (bind_r (unwrap r) (\<lambda>payload.
            if payload = data then Inr () else Inl (Panic AssertPanic))), ch'))"

text \<open>
  \<open>Connection::test_unix_pair\<close>: the two ends of one socket. \<open>pair\<close> is what
  \<open>UnixStream::pair\<close> returns.
\<close>

definition test_unix_pair :: "nat \<Rightarrow> error + socket \<times> socket \<Rightarrow> error + connection \<times> connection" where
  "test_unix_pair now pair = (case pair of
       Inl e \<Rightarrow> Inl e
     | Inr (left, right) \<Rightarrow> Inr (from_unix_stream now left, from_unix_stream now right))"

section \<open>A play\<close>

datatype 'm peer_step = Expect 'm | Say 'm

text \<open>The user: in one of its calls, through with all of them, or stopped by a failure.\<close>

datatype ('q, 's, 'r) user =
    Calling "'q list" "byte list option" "'r list" 's
  | Finished "'r list" 's
  | Stopped "error failure" "'r list" 's

fun user_after :: "('q, 'r) progress \<Rightarrow> 's \<Rightarrow> ('q, 's, 'r) user" where
  "user_after (Waits qs l got) s = Calling qs (Some l) got s"
| "user_after (Ends got) s = Finished got s"
| "user_after (Fails f got) s = Stopped f got s"

text \<open>The script is \<open>None\<close> once an assertion or an \<open>unwrap\<close> of the peer has failed.\<close>

record ('q, 's, 'r) play =
  py_user :: "('q, 's, 'r) user"
  py_script :: "payload peer_step list option"
  py_peer :: channel
  py_to_user :: "byte list"
  py_to_peer :: "byte list"

inductive play_step :: "wire \<Rightarrow> ('q, 's, 'r) caller \<Rightarrow> ('s \<Rightarrow> channel) \<Rightarrow> (channel \<Rightarrow> 's \<Rightarrow> 's) \<Rightarrow>
    ('q, 's, 'r) play \<Rightarrow> ('q, 's, 'r) play \<Rightarrow> bool" for w call chan with_chan where
  user_polls: "py_user t = Calling qs a got s \<Longrightarrow> run_calls call qs a got s = Some (p, s') \<Longrightarrow>
    cn_sent (ch_conn (chan s')) = cn_sent (ch_conn (chan s)) @ bytes \<Longrightarrow>
    play_step w call chan with_chan t
      (t\<lparr>py_user := user_after p s', py_to_peer := py_to_peer t @ bytes\<rparr>)"
| user_hears: "py_user t = Calling qs a got s \<Longrightarrow> py_to_user t = bytes @ rest \<Longrightarrow>
    play_step w call chan with_chan t
      (t\<lparr>py_user := Calling qs a got (with_chan (late bytes (chan s)) s), py_to_user := rest\<rparr>)"
| user_task: "py_user t = Calling qs a got s \<Longrightarrow>
    play_step w call chan with_chan t (t\<lparr>py_user := Calling qs a got
      (with_chan ((chan s)\<lparr>ch_conn := demux_poll w (ch_conn (chan s))\<rparr>) s)\<rparr>)"
| peer_says: "py_script t = Some (Say p # script) \<Longrightarrow> channel_send w p (py_peer t) = (r, ch) \<Longrightarrow>
    cn_sent (ch_conn ch) = cn_sent (ch_conn (py_peer t)) @ bytes \<Longrightarrow>
    play_step w call chan with_chan t
      (t\<lparr>py_script := (case r of Inl f \<Rightarrow> None | Inr _ \<Rightarrow> Some script), py_peer := ch,
         py_to_user := py_to_user t @ bytes\<rparr>)"
| peer_expects: "py_script t = Some (Expect p # script) \<Longrightarrow>
    channel_expect w p (py_peer t) = (r, ch) \<Longrightarrow>
    play_step w call chan with_chan t
      (t\<lparr>py_script := (case r of Pending l \<Rightarrow> Some (Expect p # script)
           | Ready (Inl f) \<Rightarrow> None | Ready (Inr _) \<Rightarrow> Some script), py_peer := ch\<rparr>)"
| peer_hears: "py_to_peer t = bytes @ rest \<Longrightarrow>
    play_step w call chan with_chan t
      (t\<lparr>py_peer := late bytes (py_peer t), py_to_peer := rest\<rparr>)"
| peer_task: "play_step w call chan with_chan t
    (t\<lparr>py_peer := (py_peer t)\<lparr>ch_conn := demux_poll w (ch_conn (py_peer t))\<rparr>\<rparr>)"

inductive play_reaches :: "wire \<Rightarrow> ('q, 's, 'r) caller \<Rightarrow> ('s \<Rightarrow> channel) \<Rightarrow> (channel \<Rightarrow> 's \<Rightarrow> 's) \<Rightarrow>
    ('q, 's, 'r) play \<Rightarrow> ('q, 's, 'r) play \<Rightarrow> bool" for w call chan with_chan where
  here: "play_reaches w call chan with_chan t t"
| there: "play_reaches w call chan with_chan t t' \<Longrightarrow> play_step w call chan with_chan t' t'' \<Longrightarrow>
    play_reaches w call chan with_chan t t''"

lemma play_reaches_trans:
  "play_reaches w call chan with_chan t' t'' \<Longrightarrow> play_reaches w call chan with_chan t t' \<Longrightarrow>
    play_reaches w call chan with_chan t t''"
  by (induction rule: play_reaches.induct) (auto intro: play_reaches.there)

definition play_opened :: "'q list \<Rightarrow> 's \<Rightarrow> payload peer_step list \<Rightarrow> channel \<Rightarrow> ('q, 's, 'r) play" where
  "play_opened qs s script peer =
     \<lparr>py_user = Calling qs None [] s, py_script = Some script, py_peer = peer,
      py_to_user = [], py_to_peer = []\<rparr>"

text \<open>
  A play that passes: whatever the schedule, no assertion of the peer fails and neither side
  panics or reports an error; the user who is through has the results \<open>goal\<close>; and every schedule
  can be completed, with both sides through.
\<close>

definition play_passes :: "wire \<Rightarrow> ('q, 's, 'r) caller \<Rightarrow> ('s \<Rightarrow> channel) \<Rightarrow> (channel \<Rightarrow> 's \<Rightarrow> 's) \<Rightarrow>
    ('q, 's, 'r) play \<Rightarrow> 'r list \<Rightarrow> bool" where
  "play_passes w call chan with_chan start goal \<longleftrightarrow>
     (\<forall>t. play_reaches w call chan with_chan start t \<longrightarrow>
        py_script t \<noteq> None \<and>
        (case py_user t of
           Calling qs at_await got s \<Rightarrow> True
         | Finished got s \<Rightarrow> got = goal
         | Stopped f got s \<Rightarrow> False) \<and>
        (\<exists>t' s. play_reaches w call chan with_chan t t' \<and> py_script t' = Some [] \<and>
           py_user t' = Finished goal s))"

section \<open>Scripts\<close>

text \<open>What the steps of a script say on a channel, and what they expect.\<close>

fun said :: "wire \<Rightarrow> u16 \<Rightarrow> (nat \<Rightarrow> nat) \<Rightarrow> payload peer_step list \<Rightarrow> byte list" where
  "said w idx clock [] = []"
| "said w idx clock (Say p # script) =
     frame w (clock 0) idx p @ said w idx (\<lambda>k. clock (Suc k)) script"
| "said w idx clock (Expect p # script) = said w idx clock script"

fun asked :: "payload peer_step list \<Rightarrow> payload list" where
  "asked [] = []"
| "asked (Say p # script) = asked script"
| "asked (Expect p # script) = p # asked script"

text \<open>
  A script that the user, whose future is \<open>future\<close>, and the peer at \<open>ch\<close> will go through: the user
  writes what the script expects, each time from no more than what the script has said before, and
  comes to \<open>goal\<close> in the end. \<open>to_user\<close> and \<open>to_peer\<close> are the bytes on their way.
\<close>

definition plays :: "wire \<Rightarrow> (byte list \<Rightarrow> byte list \<times> ('q, 'r) progress) \<Rightarrow> byte list \<Rightarrow> byte list \<Rightarrow>
    channel \<Rightarrow> payload peer_step list \<Rightarrow> ('q, 'r) progress \<Rightarrow> bool" where
  "plays w future to_user to_peer ch script goal \<longleftrightarrow> roomy (ch_conn ch) \<and>
     (\<forall>p. Say p \<in> set script \<longrightarrow> length p < 65536) \<and>
     (\<forall>pre p post. script = pre @ Expect p # post \<longrightarrow> (\<exists>r. pending w (ch_idx ch)
        (to_peer @ fst (future (to_user @ said w (ch_idx ch) (cn_clock (ch_conn ch)) pre)))
        (ch_conn ch) (asked pre @ p # r))) \<and>
     snd (future (to_user @ said w (ch_idx ch) (cn_clock (ch_conn ch)) script)) = goal"

lemma playsD:
  assumes "plays w future to_user to_peer ch script goal"
  shows "roomy (ch_conn ch)" "Say p \<in> set script \<Longrightarrow> length p < 65536"
    and "script = pre @ Expect p # post \<Longrightarrow> \<exists>r. pending w (ch_idx ch)
        (to_peer @ fst (future (to_user @ said w (ch_idx ch) (cn_clock (ch_conn ch)) pre)))
        (ch_conn ch) (asked pre @ p # r)"
    and "snd (future (to_user @ said w (ch_idx ch) (cn_clock (ch_conn ch)) script)) = goal"
  using assms unfolding plays_def by blast+

text \<open>A step of the user that leaves what is to come as it was.\<close>

lemma plays_user:
  assumes "plays w future to_user to_peer ch script goal"
    and "\<And>x. to_peer' @ fst (future' (to_user' @ x)) = to_peer @ fst (future (to_user @ x))"
    and "\<And>x. snd (future' (to_user' @ x)) = snd (future (to_user @ x))"
  shows "plays w future' to_user' to_peer' ch script goal"
  using assms(1) unfolding plays_def assms(2,3) .

text \<open>The steps of the peer.\<close>

lemma plays_says:
  assumes "plays w future to_user to_peer ch (Say p # script) goal"
    and "channel_send w p ch = (r, ch')"
    and "cn_sent (ch_conn ch') = cn_sent (ch_conn ch) @ bytes"
  shows "r = Inr () \<and> plays w future (to_user @ bytes) to_peer ch' script goal"
proof -
  note now = playsD[OF assms(1)]
  have r: "r = Inr ()" and ch': "ch' = sent w p ch"
    using channel_send_writable[OF roomy_writable[OF now(1)]] assms(2) by auto
  have bytes: "bytes = frame w (cn_clock (ch_conn ch) 0) (ch_idx ch) p"
    using after_send_whole[OF roomy_takes[OF now(1), of p], of w] now(2)[of p] assms(3)
    by (simp add: ch')
  have clock: "cn_clock (ch_conn ch') = (\<lambda>k. cn_clock (ch_conn ch) (Suc k))"
    by (simp add: ch' after_send_def connection_send_def Let_def split: write_outcome.split)
  have say: "said w (ch_idx ch) (cn_clock (ch_conn ch)) (Say p # pre) =
      bytes @ said w (ch_idx ch') (cn_clock (ch_conn ch')) pre" for pre
    using clock by (simp add: bytes ch')
  have "\<exists>r. pending w (ch_idx ch')
      (to_peer @ fst (future ((to_user @ bytes) @ said w (ch_idx ch') (cn_clock (ch_conn ch')) pre)))
      (ch_conn ch') (asked pre @ q # r)" if "script = pre @ Expect q # post" for pre q post
  proof -
    from that have "Say p # script = (Say p # pre) @ Expect q # post" by simp
    from now(3)[OF this] obtain r where "pending w (ch_idx ch) (to_peer @ fst (future ((to_user @
        bytes) @ said w (ch_idx ch') (cn_clock (ch_conn ch')) pre))) (ch_conn ch) (asked pre @ q # r)"
      unfolding say by auto
    from pending_sent[OF this] show ?thesis by (auto simp: ch')
  qed
  moreover have "snd (future ((to_user @ bytes) @ said w (ch_idx ch') (cn_clock (ch_conn ch')) script))
      = goal"
    using now(4) unfolding say by simp
  moreover have "roomy (ch_conn ch')" using now(1) by (simp add: ch')
  ultimately show ?thesis using r now(2) by (simp add: plays_def)
qed

lemma plays_expects:
  assumes "plays w future to_user to_peer ch (Expect p # script) goal"
    and "channel_expect w p ch = (r, ch')"
  shows "(\<exists>l. r = Pending l) \<and> plays w future to_user to_peer ch' (Expect p # script) goal \<or>
    r = Ready (Inr ()) \<and> plays w future to_user to_peer ch' script goal"
proof -
  note now = playsD[OF assms(1)]
  let ?onway = "\<lambda>pre. to_peer @
    fst (future (to_user @ said w (ch_idx ch) (cn_clock (ch_conn ch)) pre))"
  obtain q conn where recv: "connection_recv w (ch_idx ch) (ch_conn ch) = (q, conn)"
    by (cases "connection_recv w (ch_idx ch) (ch_conn ch)")
  then have chan: "channel_recv w ch = (q, ch\<lparr>ch_conn := conn\<rparr>)" by (simp add: channel_recv_def)
  have clock: "cn_clock conn = cn_clock (ch_conn ch)"
    using recv by (auto simp: connection_recv_def Let_def split: option.splits list.splits)
  have roomy: "roomy conn" using roomy_recv[OF recv] now(1) by simp
  have next_payload: "(\<exists>ps. q = Ready (Inr p) \<and> asked pre @ p' # r' = p # ps \<and>
        pending w (ch_idx ch) (?onway pre) conn ps) \<or>
      q = Pending [] \<and> pending w (ch_idx ch) (?onway pre) conn (asked pre @ p' # r')"
    if "Expect p # script = pre @ Expect p' # post"
      "pending w (ch_idx ch) (?onway pre) (ch_conn ch) (asked pre @ p' # r')" for pre p' post r'
  proof -
    have "hd (asked pre @ p' # r') = p" using that(1) by (cases pre) auto
    with pending_recv[OF that(2) recv] show ?thesis by auto
  qed
  obtain r0 where "pending w (ch_idx ch) (?onway []) (ch_conn ch) (asked [] @ p # r0)"
    using now(3)[of "[]"] by auto
  from next_payload[OF _ this] consider "q = Pending []" | "q = Ready (Inr p)" by auto
  then show ?thesis
  proof cases
    case 1
    have "plays w future to_user to_peer (ch\<lparr>ch_conn := conn\<rparr>) (Expect p # script) goal"
      unfolding plays_def
    proof (intro conjI allI impI)
      fix pre p' post assume split: "Expect p # script = pre @ Expect p' # post"
      with now(3) obtain r' where
        "pending w (ch_idx ch) (?onway pre) (ch_conn ch) (asked pre @ p' # r')" by blast
      from next_payload[OF split this] 1
      show "\<exists>r. pending w (ch_idx (ch\<lparr>ch_conn := conn\<rparr>)) (to_peer @ fst (future (to_user @
          said w (ch_idx (ch\<lparr>ch_conn := conn\<rparr>)) (cn_clock (ch_conn (ch\<lparr>ch_conn := conn\<rparr>))) pre)))
          (ch_conn (ch\<lparr>ch_conn := conn\<rparr>)) (asked pre @ p' # r)"
        by (auto simp: clock)
    qed (use now roomy clock in \<open>auto\<close>)
    with 1 chan assms(2) show ?thesis by (auto simp: channel_expect_def)
  next
    case 2
    have "plays w future to_user to_peer (ch\<lparr>ch_conn := conn\<rparr>) script goal"
      unfolding plays_def
    proof (intro conjI allI impI)
      fix pre p' post assume "script = pre @ Expect p' # post"
      then have split: "Expect p # script = (Expect p # pre) @ Expect p' # post" by simp
      with now(3) obtain r' where "pending w (ch_idx ch) (?onway (Expect p # pre)) (ch_conn ch)
          (asked (Expect p # pre) @ p' # r')" by blast
      from next_payload[OF split this] 2
      show "\<exists>r. pending w (ch_idx (ch\<lparr>ch_conn := conn\<rparr>)) (to_peer @ fst (future (to_user @
          said w (ch_idx (ch\<lparr>ch_conn := conn\<rparr>)) (cn_clock (ch_conn (ch\<lparr>ch_conn := conn\<rparr>))) pre)))
          (ch_conn (ch\<lparr>ch_conn := conn\<rparr>)) (asked pre @ p' # r)"
        by (auto simp: clock)
    qed (use now roomy clock in \<open>auto\<close>)
    with 2 chan assms(2) show ?thesis by (auto simp: channel_expect_def)
  qed
qed

lemma plays_peer:
  assumes "plays w future to_user to_peer ch script goal"
    and "roomy conn = roomy (ch_conn ch)" "cn_clock conn = cn_clock (ch_conn ch)"
    and "\<And>x ps. pending w (ch_idx ch) (to_peer @ x) (ch_conn ch) ps \<Longrightarrow>
      pending w (ch_idx ch) (to_peer' @ x) conn ps"
  shows "plays w future to_user to_peer' (ch\<lparr>ch_conn := conn\<rparr>) script goal"
  using assms(1) unfolding plays_def by (simp add: assms(2,3)) (metis assms(4))

section \<open>Every schedule of a play\<close>

context resumable_calls
begin

abbreviation step where
  "step w c \<equiv> play_step w (call w c) chan with_chan"

abbreviation reaches where
  "reaches w c \<equiv> play_reaches w (call w c) chan with_chan"

fun future :: "wire \<Rightarrow> cbor \<Rightarrow> ('q, 's, 'r) user \<Rightarrow> byte list \<Rightarrow> byte list \<times> ('q, 'r) progress" where
  "future w c (Calling qs a got s) x = run_on w c qs a got s x"
| "future w c (Finished got s) x = ([], Ends got)"
| "future w c (Stopped f got s) x = ([], Fails f got)"

fun listening :: "('q, 's, 'r) user \<Rightarrow> bool" where
  "listening (Calling qs a got s) = open_stream s"
| "listening _ = True"

definition play_inv :: "wire \<Rightarrow> cbor \<Rightarrow> 'r list \<Rightarrow> ('q, 's, 'r) play \<Rightarrow> bool" where
  "play_inv w c goal t \<longleftrightarrow> listening (py_user t) \<and> (\<exists>script. py_script t = Some script \<and>
     plays w (future w c (py_user t)) (py_to_user t) (py_to_peer t) (py_peer t) script (Ends goal))"

lemma future_after:
  assumes "cbor_progress c" and "run w c qs a got s = Some (p, s')" and "open_stream s"
    and "written s' = written s @ bytes"
  shows "run_on w c qs a got s x =
      (bytes @ fst (future w c (user_after p s') x), snd (future w c (user_after p s') x))"
    and "listening (user_after p s')"
proof -
  have "open_stream s'" using assms(2,3) run_sender[OF assms(1)] by metis
  then show "listening (user_after p s')" by (cases p) simp_all
  show "run_on w c qs a got s x =
      (bytes @ fst (future w c (user_after p s') x), snd (future w c (user_after p s') x))"
  proof (cases p)
    case (Waits qs' l got')
    with run_on_waits[OF assms(1) assms(2)[unfolded Waits] assms(3,4)] show ?thesis by simp
  qed (use run_on_over[OF assms(1,2) _ assms(3,4)] in simp_all)
qed

lemma play_inv_user:
  assumes "play_inv w c goal t" and "listening user"
    and "\<And>x. to_peer' @ fst (future w c user (to_user' @ x)) =
      py_to_peer t @ fst (future w c (py_user t) (py_to_user t @ x))"
    and "\<And>x. snd (future w c user (to_user' @ x)) = snd (future w c (py_user t) (py_to_user t @ x))"
  shows "play_inv w c goal (t\<lparr>py_user := user, py_to_user := to_user', py_to_peer := to_peer'\<rparr>)"
proof -
  from assms(1) obtain script where "py_script t = Some script"
      "plays w (future w c (py_user t)) (py_to_user t) (py_to_peer t) (py_peer t) script (Ends goal)"
    by (auto simp: play_inv_def)
  moreover from plays_user[OF this(2), where future' = "future w c user", OF assms(3,4)]
  have "plays w (future w c user) to_user' to_peer' (py_peer t) script (Ends goal)" .
  ultimately show ?thesis using assms(2) by (auto simp: play_inv_def)
qed

lemma play_step_inv:
  assumes "cbor_progress c" and "play_inv w c goal t" and "step w c t t'"
  shows "play_inv w c goal t'"
proof -
  from assms(2) obtain script where inv: "py_script t = Some script"
      "plays w (future w c (py_user t)) (py_to_user t) (py_to_peer t) (py_peer t) script (Ends goal)"
      "listening (py_user t)"
    by (auto simp: play_inv_def)
  from assms(3) show ?thesis
  proof cases
    case (user_polls qs a got s p s' bytes)
    have "written s' = written s @ bytes" using user_polls(4) by (simp add: written_def)
    from future_after[OF assms(1) user_polls(3) _ this] inv(3) user_polls(2)
    have "play_inv w c goal (t\<lparr>py_user := user_after p s', py_to_user := py_to_user t,
        py_to_peer := py_to_peer t @ bytes\<rparr>)"
      by (intro play_inv_user[OF assms(2)]) simp_all
    with user_polls(1) show ?thesis by simp
  next
    case (user_hears qs a got s bytes rest)
    have "play_inv w c goal (t\<lparr>py_user := Calling qs a got (heard bytes s), py_to_user := rest,
        py_to_peer := py_to_peer t\<rparr>)"
      using inv(3) user_hears(2,3)
      by (intro play_inv_user[OF assms(2)]) (simp_all add: run_on_heard)
    with user_hears(1) show ?thesis by (simp add: heard_def)
  next
    case (user_task qs a got s)
    let ?ch = "(chan s)\<lparr>ch_conn := demux_poll w (ch_conn (chan s))\<rparr>"
    have "caught_up w [] (chan s) ?ch" by (simp add: caught_up_def conn_arrive_def)
    from run_on_caught_up[OF assms(1) _ this] caught_up_chan(2)[OF this] inv(3) user_task(2)
    have "play_inv w c goal (t\<lparr>py_user := Calling qs a got (with_chan ?ch s),
        py_to_user := py_to_user t, py_to_peer := py_to_peer t\<rparr>)"
      by (intro play_inv_user[OF assms(2)]) simp_all
    with user_task(1) show ?thesis by simp
  next
    case (peer_says p script' r ch bytes)
    with inv(1) have script: "script = Say p # script'" by simp
    from plays_says[OF inv(2)[unfolded script] peer_says(3,4)] inv(3) peer_says(1)
    show ?thesis by (auto simp: play_inv_def)
  next
    case (peer_expects p script' r ch)
    with inv(1) have script: "script = Expect p # script'" by simp
    from plays_expects[OF inv(2)[unfolded script] peer_expects(3)] inv(3) peer_expects(1)
    show ?thesis by (auto simp: play_inv_def)
  next
    case (peer_hears bytes rest)
    have "plays w (future w c (py_user t)) (py_to_user t) rest
        ((py_peer t)\<lparr>ch_conn := conn_arrive bytes (ch_conn (py_peer t))\<rparr>) script (Ends goal)"
      using pending_arrive peer_hears(2) by (intro plays_peer[OF inv(2)]) simp_all
    with inv peer_hears(1) show ?thesis by (auto simp: play_inv_def late_def)
  next
    case peer_task
    have "plays w (future w c (py_user t)) (py_to_user t) (py_to_peer t)
        ((py_peer t)\<lparr>ch_conn := demux_poll w (ch_conn (py_peer t))\<rparr>) script (Ends goal)"
      using pending_poll by (intro plays_peer[OF inv(2)]) simp_all
    with inv peer_task(1) show ?thesis by (auto simp: play_inv_def)
  qed
qed

lemma play_reaches_inv:
  assumes "reaches w c t t'" and "cbor_progress c" and "play_inv w c goal t"
  shows "play_inv w c goal t'"
  using assms by (induction rule: play_reaches.induct) (auto intro: play_step_inv)

text \<open>From every state the user can be brought all bytes and polled.\<close>

lemma play_serves_user:
  assumes "cbor_progress c" and "play_inv w c goal t"
  obtains t' where "reaches w c t t'" "py_script t' = py_script t"
    "(\<exists>s. py_user t' = Finished goal s) \<or> py_script t \<noteq> Some [] \<and>
      fst (future w c (py_user t') (py_to_user t')) = []"
proof (cases "py_user t")
  case (Calling qs a got s)
  from assms(2) obtain script where inv: "py_script t = Some script"
      "plays w (future w c (py_user t)) (py_to_user t) (py_to_peer t) (py_peer t) script (Ends goal)"
      "open_stream s"
    using Calling by (auto simp: play_inv_def)
  let ?s = "heard (py_to_user t) s"
  obtain p s' where run: "run w c qs a got ?s = Some (p, s')" using run_returns[OF assms(1)] by blast
  then obtain bytes where bytes: "written s' = written ?s @ bytes" by (rule run_sender[OF assms(1)])
  let ?t = "t\<lparr>py_user := Calling qs a got ?s, py_to_user := []\<rparr>"
  let ?t' = "?t\<lparr>py_user := user_after p s', py_to_peer := py_to_peer t @ bytes\<rparr>"
  have "step w c t ?t"
    using play_step.user_hears[OF Calling, of "py_to_user t" "[]"] by (simp add: heard_def)
  moreover have "step w c ?t ?t'"
    using play_step.user_polls[of ?t qs a got ?s "call w c" p s' chan bytes w with_chan] run bytes
    by (simp add: written_def)
  ultimately have reach: "reaches w c t ?t'" by (blast intro: play_reaches.intros)
  have eof: "open_stream ?s" using inv(3) by simp
  have "run_on w c qs a got s (py_to_user t) = run_on w c qs a got ?s []"
    by (simp add: run_on_heard)
  also have "\<dots> = (bytes @ fst (future w c (user_after p s') []), snd (future w c (user_after p s') []))"
    by (rule future_after(1)[OF assms(1) run eof bytes])
  finally have now: "snd (future w c (user_after p s') []) = Ends goal" if "script = []"
    using playsD(4)[OF inv(2)] that by (simp add: Calling)
  show thesis
  proof (rule that[OF reach], simp)
    show "(\<exists>s. py_user ?t' = Finished goal s) \<or> py_script t \<noteq> Some [] \<and>
        fst (future w c (py_user ?t') (py_to_user ?t')) = []"
    proof (cases p)
      case (Waits qs' l got')
      have again: "run w c qs' (Some l) got' s' = Some (Waits qs' l got', s')"
        by (rule run_waits_again[OF assms(1) run[unfolded Waits] eof])
      then have "run_on w c qs' (Some l) got' s' [] = ([], Waits qs' l got')"
        by (intro run_onI) simp_all
      with now inv(1) Waits show ?thesis by auto
    next
      case (Ends got')
      have "play_inv w c goal ?t'" by (rule play_reaches_inv[OF reach assms])
      then have "got' = goal" using Ends by (auto simp: play_inv_def plays_def)
      with Ends show ?thesis by simp
    next
      case (Fails f got')
      have "play_inv w c goal ?t'" by (rule play_reaches_inv[OF reach assms])
      with Fails show ?thesis by (auto simp: play_inv_def plays_def)
    qed
  qed
next
  case (Finished got s)
  with assms(2) have "got = goal" by (auto simp: play_inv_def plays_def)
  with Finished show thesis using that[OF play_reaches.here] by simp
next
  case (Stopped f got s)
  with assms(2) show thesis by (auto simp: play_inv_def plays_def)
qed

text \<open>Then the peer can go on in its script.\<close>

lemma play_serves_peer:
  assumes "cbor_progress c" and "play_inv w c goal t" and "py_script t = Some (st # script)"
    and "fst (future w c (py_user t) (py_to_user t)) = []"
  obtains t' where "reaches w c t t'" "py_script t' = Some script"
proof -
  from assms(2,3) have inv: "plays w (future w c (py_user t)) (py_to_user t) (py_to_peer t) (py_peer t)
      (st # script) (Ends goal)"
    by (auto simp: play_inv_def)
  show thesis
  proof (cases st)
    case (Say p)
    obtain r ch where r: "channel_send w p (py_peer t) = (r, ch)" by (cases "channel_send w p (py_peer t)")
    then obtain bytes where bytes: "cn_sent (ch_conn ch) = cn_sent (ch_conn (py_peer t)) @ bytes"
      by (auto simp: channel_send_def connection_send_def Let_def split: write_outcome.splits prod.splits)
    from plays_says[OF inv[unfolded Say] r bytes] have "r = Inr ()" by blast
    with play_step.peer_says[OF assms(3)[unfolded Say] r bytes, of "call w c" chan with_chan] that
    show thesis by (fastforce intro: play_reaches.intros)
  next
    case (Expect p)
    let ?t = "t\<lparr>py_peer := late (py_to_peer t) (py_peer t), py_to_peer := []\<rparr>"
    obtain r where "pending w (ch_idx (py_peer t)) (py_to_peer t) (ch_conn (py_peer t)) (p # r)"
      using playsD(3)[OF inv, of "[]" p script] Expect assms(4) by auto
    then have "pending w (ch_idx (py_peer t)) [] (ch_conn (late (py_to_peer t) (py_peer t))) (p # r)"
      using pending_arrive[of w _ "py_to_peer t" "[]"] by (simp add: late_def)
    from pending_all_arrived[OF this] obtain ch where
      ch: "channel_expect w p (py_peer ?t) = (Ready (Inr ()), ch)"
      by (auto simp: channel_expect_def channel_recv_def late_def)
    have "step w c t ?t" by (rule play_step.peer_hears) simp
    moreover have "step w c ?t (?t\<lparr>py_script := Some script, py_peer := ch\<rparr>)"
      using play_step.peer_expects[OF _ ch, of script "call w c" chan with_chan] assms(3) Expect by simp
    ultimately show thesis using that by (fastforce intro: play_reaches.intros)
  qed
qed

lemma play_completes:
  assumes "cbor_progress c" and "play_inv w c goal t"
  shows "\<exists>t' s. reaches w c t t' \<and> py_script t' = Some [] \<and> py_user t' = Finished goal s"
proof -
  from assms(2) obtain script where "py_script t = Some script" by (auto simp: play_inv_def)
  with assms(2) show ?thesis
  proof (induction script arbitrary: t)
    case Nil
    with play_serves_user[OF assms(1) Nil.prems(1)] show ?case by metis
  next
    case (Cons st script)
    obtain t1 where t1: "reaches w c t t1" "py_script t1 = py_script t"
      "(\<exists>s. py_user t1 = Finished goal s) \<or> fst (future w c (py_user t1) (py_to_user t1)) = []"
      using play_serves_user[OF assms(1) Cons.prems(1)] by metis
    then have "fst (future w c (py_user t1) (py_to_user t1)) = []" by auto
    moreover have inv1: "play_inv w c goal t1" by (rule play_reaches_inv[OF t1(1) assms(1) Cons.prems(1)])
    ultimately obtain t2 where t2: "reaches w c t1 t2" "py_script t2 = Some script"
      using play_serves_peer[OF assms(1)] t1(2) Cons.prems(2) by metis
    from Cons.IH[OF play_reaches_inv[OF t2(1) assms(1) inv1] t2(2)] show ?case
      using play_reaches_trans[OF _ t1(1)] play_reaches_trans[OF _ t2(1)] by metis
  qed
qed

lemma play_inv_passes:
  assumes "cbor_progress c" and "play_inv w c goal t"
  shows "play_passes w (call w c) chan with_chan t goal"
  unfolding play_passes_def
proof (intro allI impI conjI)
  fix t' assume "reaches w c t t'"
  then have inv: "play_inv w c goal t'" by (rule play_reaches_inv[OF _ assms])
  then show "py_script t' \<noteq> None"
    and "case py_user t' of Calling qs a got s \<Rightarrow> True | Finished got s \<Rightarrow> got = goal
      | Stopped f got s \<Rightarrow> False"
    by (auto simp: play_inv_def plays_def split: user.split)
  show "\<exists>t'' s. reaches w c t' t'' \<and> py_script t'' = Some [] \<and> py_user t'' = Finished goal s"
    by (rule play_completes[OF assms(1) inv])
qed

end

end
