(* ===== verification/Play_Rounds.thy ===== *)
theory Play_Rounds
  imports Scripted_Peers
begin

unbundle bit_operations_syntax

text \<open>
  Plays round by round: how to show that a user follows a script of requests and answers, from what
  its calls do on their own when an answer is there or missing.
\<close>

section \<open>What a script says\<close>

text \<open>Bytes that are frames for the payloads \<open>ps\<close>, each small enough for a frame.\<close>

inductive framed :: "wire \<Rightarrow> u16 \<Rightarrow> payload list \<Rightarrow> byte list \<Rightarrow> bool" for w idx where
  nothing: "framed w idx [] []"
| more_frames: "length p < 65536 \<Longrightarrow> framed w idx ps bytes \<Longrightarrow>
    framed w idx (p # ps) (frame w t idx p @ bytes)"

lemma pending_framed:
  assumes "framed w (idx XOR 0x8000) ps bytes" and "wire_ok w" and "pending w idx onway conn ps0"
  shows "pending w idx (onway @ bytes) conn (ps0 @ ps)"
  using assms(1,3)
proof (induction arbitrary: onway ps0 rule: framed.induct)
  case nothing
  then show ?case by simp
next
  case (more_frames p ps bytes t)
  from more_frames.IH[OF pending_frame[OF assms(2) more_frames.hyps(1) more_frames.prems]]
  show ?case by simp
qed

lemma said_then [simp]:
  "said w idx clock (map Say ps @ script) =
    said w idx clock (map Say ps) @ said w idx (\<lambda>k. clock (k + length ps)) script"
  by (induction ps arbitrary: clock) simp_all

lemma asked_simps [simp]: "asked (map Say ps @ script) = asked script"
  by (induction ps) simp_all

text \<open>What a script says are the frames of its payloads.\<close>

lemma said_peer_writes:
  assumes "\<forall>p \<in> set ps. length p < 65536"
  shows "peer_writes w (map (Pair idx) ps) (said w idx clock (map Say ps))"
proof -
  have "fits (cn_writes conn) (map (Pair idx) ps) \<and>
      cn_sent (send_all w (map (Pair idx) ps) conn) = cn_sent conn @ said w idx clock (map Say ps)"
    if "cn_clock conn = clock" "\<forall>k. cn_writes conn k = Accepts 65535" for conn
    using assms that
  proof (induction ps arbitrary: conn clock)
    case (Cons p ps)
    let ?conn = "after_send w idx p conn"
    have clock: "cn_clock ?conn = (\<lambda>k. clock (Suc k))"
      using Cons.prems(2) by (simp add: after_send_def connection_send_def Let_def
          split: write_outcome.split)
    have writes: "cn_writes ?conn = (\<lambda>k. cn_writes conn (Suc k))" by (rule ext) simp
    have "fits (cn_writes ?conn) (map (Pair idx) ps) \<and>
        cn_sent (send_all w (map (Pair idx) ps) ?conn) =
          cn_sent ?conn @ said w idx (\<lambda>k. clock (Suc k)) (map Say ps)"
      using Cons.prems by (intro Cons.IH[OF _ clock]) simp_all
    moreover have "takes_whole p (cn_writes conn 0)" using Cons.prems(1,3) by simp
    ultimately show ?case
      using Cons.prems after_send_whole[of p conn w idx] by (simp add: writes send_all_def)
  qed (simp add: send_all_def)
  from this[of "connection_new 0 clock (\<lambda>k. Accepts 65535)"] show ?thesis
    unfolding peer_writes_def by (intro exI[of _ "connection_new 0 clock (\<lambda>k. Accepts 65535)"])
      (simp add: connection_new_def)
qed

lemma expect_split:
  "map Say ps @ [Expect p] = pre @ Expect q # post \<Longrightarrow> pre = map Say ps \<and> q = p"
  by (induction ps arbitrary: pre) (auto simp: Cons_eq_append_conv append_eq_Cons_conv)

lemma expect_split_round:
  assumes "map Say ps @ script = pre @ Expect q # post"
  obtains pre' where "pre = map Say ps @ pre'" "script = pre' @ Expect q # post"
  using assms by (induction ps arbitrary: pre thesis) (auto simp: Cons_eq_append_conv)

context resumable_calls
begin

text \<open>
  The user who makes the calls \<open>qs\<close> follows the script: in the terms of its own frames, whatever
  the state of the peer's connection.
\<close>

definition follows :: "wire \<Rightarrow> cbor \<Rightarrow> u16 \<Rightarrow> u16 \<Rightarrow> (nat \<Rightarrow> nat) \<Rightarrow> 'q list \<Rightarrow> 'r list \<Rightarrow> 's \<Rightarrow>
    payload peer_step list \<Rightarrow> 'r list \<Rightarrow> bool" where
  "follows w c own other clock qs got s script goal \<longleftrightarrow> open_stream s \<and>
     (\<forall>pre p post. script = pre @ Expect p # post \<longrightarrow> (\<exists>r. framed w own (asked pre @ p # r)
        (fst (run_on w c qs None got s (said w other clock pre))))) \<and>
     snd (run_on w c qs None got s (said w other clock script)) = Ends goal"

lemma follows_done: "open_stream s \<Longrightarrow> follows w c own other clock [] got s [] got"
  using run_onI[of w c "[]" None got "[]" s "Ends got" s "[]"] by (simp add: follows_def)

text \<open>A call that returns at once.\<close>

lemma follows_instant:
  assumes "\<And>ch. call w c q None (with_chan ch s) = Some (Ready (Inr r), with_chan ch s)"
    and "follows w c own other clock qs (got @ [r]) s script goal"
  shows "follows w c own other clock (q # qs) got s script goal"
proof -
  have "run_on w c (q # qs) None got s x = run_on w c qs None (got @ [r]) s x" for x
    using assms(1)[of "late x (chan s)"] by (simp add: run_on_def heard_def)
  with assms(2) show ?thesis by (simp add: follows_def)
qed

lemma follows_round:
  assumes "cbor_progress c" and "open_stream s" and "length ask < 65536" and "qs \<noteq> []"
    and waits: "run w c qs None got s = Some (Waits qs1 l got1, s1)"
      "written s1 = written s @ frame w t own ask"
    and ends: "caught_up w (said w other clock (map Say ps)) (chan s) ch2"
      "run w c qs None got (with_chan ch2 s) = Some (Ends got', s2)"
      "written s2 = written s @ frame w t own ask"
    and rest: "follows w c own other (\<lambda>k. clock (k + length ps)) qs' got' s2 script goal"
  shows "follows w c own other clock (qs @ qs') got s (Expect ask # map Say ps @ script) goal"
proof -
  note later = run_on_append[OF assms(1,2) ends(1) assms(4) ends(2,3)]
  have first: "fst (run_on w c (qs @ qs') None got s []) = frame w t own ask @
      fst (run_on w c (qs1 @ qs') (Some l) got1 s1 [])"
    using run_on_waits[OF assms(1) _ assms(2) waits(2)] run_calls_append[OF waits(1), of qs'] by simp
  have again: "run w c qs1 (Some l) got1 s1 = Some (Waits qs1 l got1, s1)"
    by (rule run_waits_again[OF assms(1) waits(1) assms(2)])
  have silent: "fst (run_on w c (qs1 @ qs') (Some l) got1 s1 []) = []"
    using run_onI[of w c "qs1 @ qs'" "Some l" got1 "[]" s1 _ s1 "[]"]
      run_calls_append[OF again, of qs'] by simp
  show ?thesis
    unfolding follows_def
  proof (intro conjI allI impI)
    fix pre p post assume split: "Expect ask # map Say ps @ script = pre @ Expect p # post"
    show "\<exists>r. framed w own (asked pre @ p # r)
        (fst (run_on w c (qs @ qs') None got s (said w other clock pre)))"
    proof (cases pre)
      case Nil
      with split first silent framed.more_frames[OF assms(3) framed.nothing, of w own t] show ?thesis
        by auto
    next
      case (Cons st pre')
      with split have "map Say ps @ script = pre' @ Expect p # post" by simp
      then obtain pre2 where pre2: "pre' = map Say ps @ pre2" "script = pre2 @ Expect p # post"
        by (rule expect_split_round)
      with rest obtain r where "framed w own (asked pre2 @ p # r) (fst (run_on w c qs' None got' s2
          (said w other (\<lambda>k. clock (k + length ps)) pre2)))"
        unfolding follows_def by blast
      from framed.more_frames[OF assms(3) this, of t] split Cons pre2(1) show ?thesis
        by (auto simp: later)
    qed
  next
    show "snd (run_on w c (qs @ qs') None got s (said w other clock (Expect ask # map Say ps @ script))) =
        Ends goal"
      using rest by (simp add: later follows_def)
  qed (rule assms(2))
qed

lemma follows_last:
  assumes "cbor_progress c" and "open_stream s" and "length p < 65536" and "qs \<noteq> []"
    and ends: "caught_up w (said w other clock (map Say ps)) (chan s) ch2"
      "run w c qs None got (with_chan ch2 s) = Some (Ends goal, s2)"
      "written s2 = written s @ frame w t own p"
  shows "follows w c own other clock qs got s (map Say ps @ [Expect p]) goal"
proof -
  have "open_stream s2"
    using run_sender[OF assms(1) ends(2)] caught_up_chan(2)[OF ends(1)] assms(2) by metis
  then have "run_on w c [] None goal s2 [] = ([], Ends goal)" by (intro run_onI) simp_all
  then have all: "run_on w c qs None got s (said w other clock (map Say ps)) =
      (frame w t own p, Ends goal)"
    using run_on_append[OF assms(1,2) ends(1) assms(4) ends(2,3), of "[]" "[]"] by simp
  show ?thesis
    unfolding follows_def
  proof (intro conjI allI impI)
    fix pre q post assume "map Say ps @ [Expect p] = pre @ Expect q # post"
    then have "pre = map Say ps" "q = p" by (auto dest: expect_split)
    with all framed.more_frames[OF assms(3) framed.nothing, of w own t]
    show "\<exists>r. framed w own (asked pre @ q # r)
        (fst (run_on w c qs None got s (said w other clock pre)))"
      using asked_simps[of ps "[]"] by auto
  qed (use all assms(2) in simp_all)
qed

lemma follows_passes:
  assumes "wire_ok w" "cbor_progress c" and "roomy (ch_conn peer)"
    and "pending w (ch_idx peer) [] (ch_conn peer) []"
    and "\<And>p. Say p \<in> set script \<Longrightarrow> length p < 65536"
    and "follows w c (ch_idx peer XOR 0x8000) (ch_idx peer) (cn_clock (ch_conn peer)) qs [] s script goal"
  shows "play_passes w (call w c) chan with_chan (play_opened qs s script peer) goal"
proof (rule play_inv_passes[OF assms(2)])
  have "\<exists>r. pending w (ch_idx peer) (fst (run_on w c qs None [] s
      (said w (ch_idx peer) (cn_clock (ch_conn peer)) pre))) (ch_conn peer) (asked pre @ p # r)"
    if split: "script = pre @ Expect p # post" for pre p post
  proof -
    from assms(6) split obtain r where "framed w (ch_idx peer XOR 0x8000) (asked pre @ p # r)
        (fst (run_on w c qs None [] s (said w (ch_idx peer) (cn_clock (ch_conn peer)) pre)))"
      unfolding follows_def by blast
    from pending_framed[OF this assms(1,4)] show ?thesis by auto
  qed
  with assms(3,5,6) show "play_inv w c goal (play_opened qs s script peer)"
    by (auto simp: play_inv_def play_opened_def plays_def follows_def)
qed

end

text \<open>The other end of a socket, with a channel that nothing has reached yet.\<close>

lemma peer_opened:
  assumes "fresh conn" and "roomy conn"
  shows "roomy (ch_conn (connection_channel idx conn))"
    and "pending w (ch_idx (connection_channel idx conn)) [] (ch_conn (connection_channel idx conn)) []"
    and "ch_idx (connection_channel idx conn) = idx"
    and "cn_clock (ch_conn (connection_channel idx conn)) = cn_clock conn"
proof -
  show "ch_idx (connection_channel idx conn) = idx"
    "cn_clock (ch_conn (connection_channel idx conn)) = cn_clock conn"
    "roomy (ch_conn (connection_channel idx conn))"
    using assms(2) by (simp_all add: connection_channel_def run_demux_def roomy_def)
  have "demux_run w False chs (AtHeader []) [] = (chs, AtHeader [], [])" for chs
    by (simp add: demux_run_waiting)
  then show "pending w (ch_idx (connection_channel idx conn)) []
      (ch_conn (connection_channel idx conn)) []"
    using assms(1) by (simp add: pending_def fresh_def connection_channel_def run_demux_def register_def)
qed

lemma caught_up_hear: "caught_up w data ch (hear w [data] ch)"
  by (simp add: caught_up_def hear_def arrivals_def)

lemma roomy_sent:
  assumes "roomy conn" and "length p < 65536"
  shows "cn_sent (after_send w idx p conn) = cn_sent conn @ frame w (cn_clock conn 0) idx p"
  using after_send_whole roomy_takes[OF assms] by blast

lemma roomy_same_sender: "same_sender a b \<Longrightarrow> roomy a = roomy b"
  by (simp add: same_sender_def roomy_def)

text \<open>One end of a socket that works, for samples.\<close>

definition sample_socket :: socket where
  "sample_socket = \<lparr>sk_clock = (\<lambda>k. k), sk_writes = (\<lambda>k. Accepts 65535)\<rparr>"

lemma sample_socket_works:
  "fresh (from_unix_stream now sample_socket)" "roomy (from_unix_stream now sample_socket)"
proof -
  show "fresh (from_unix_stream now sample_socket)"
    unfolding from_unix_stream_def by (rule connection_new_fresh) (simp add: sample_socket_def)
  show "roomy (from_unix_stream now sample_socket)"
    by (simp add: roomy_def from_unix_stream_def connection_new_def sample_socket_def)
qed

end
