(* ===== verification/Handshake_Dialogue.thy ===== *)
theory Handshake_Dialogue
  imports Suspension
begin

unbundle bit_operations_syntax

text \<open>
  A client and a server of the handshake at the two ends of one connection, one call after the
  other, with their bytes cut in any way. \<open>Handshake_Link\<close> lets them run concurrently.
\<close>

section \<open>Two sides of a connection\<close>

text \<open>What a side has written, and a side to which bytes arrive, cut at \<open>ns\<close>.\<close>

definition hs_sent :: "handshake \<Rightarrow> byte list" where
  "hs_sent s = cn_sent (ch_conn (hs_channel s))"

definition hs_receive :: "wire \<Rightarrow> nat list \<Rightarrow> byte list \<Rightarrow> handshake \<Rightarrow> handshake" where
  "hs_receive w ns data s = s\<lparr>hs_channel := (hs_channel s)\<lparr>ch_conn :=
     arrivals w (cut_at ns data) (ch_conn (hs_channel s))\<rparr>\<rparr>"

text \<open>
  A client and a server negotiate over a connection: the client runs until it waits, its bytes
  reach the server, which runs to its result, and the client resumes on the server's bytes. The
  result is what each side's call of \<open>negotiate\<close> returns.
\<close>

definition hs_dialogue :: "wire \<Rightarrow> cbor \<Rightarrow> nat list \<Rightarrow> nat list \<Rightarrow> handshake \<Rightarrow> handshake \<Rightarrow>
    ((error, version \<times> u32) result \<times> (error, version \<times> u32) result) option" where
  "hs_dialogue w c ns ms client server = (case negotiate w c client of
       Some (Pending l, client') \<Rightarrow>
         (case negotiate w c (hs_receive w ns (hs_sent client') server) of
            Some (Ready of_server, server') \<Rightarrow>
              (case negotiate_resume w c l (hs_receive w ms (hs_sent server') client') of
                 Some (Ready of_client, _) \<Rightarrow> Some (of_client, of_server)
               | _ \<Rightarrow> None)
          | _ \<Rightarrow> None)
     | _ \<Rightarrow> None)"

text \<open>The index each side writes on its frames.\<close>

fun side_index :: "agency \<Rightarrow> u16" where
  "side_index Client = 0"
| "side_index Server = 0x8000"
| "side_index NoAgency = 0"

text \<open>A side at the end of a fresh connection whose working socket takes its message whole.\<close>

definition hs_opened :: "agency \<Rightarrow> hs_message \<Rightarrow> cbor \<Rightarrow> handshake \<Rightarrow> bool" where
  "hs_opened role m c s \<longleftrightarrow> (\<exists>b now clock writes. hs_configured b \<and>
     hs_build b role (connection_new now clock writes) = Inr s \<and>
     writable (connection_new now clock writes) \<and>
     fits writes [(side_index role, hs_bytes c m)])"

definition hs_acceptance :: "handshake \<Rightarrow> hs_message" where
  "hs_acceptance s = AcceptVersion (last (hs_versions s)) (hs_network_magic s)"

lemma hs_opened_facts:
  assumes "hs_opened role m c s"
  shows "hs_role s = role" "hs_state s = Propose" "hs_version s = None"
    "hs_versions s \<noteq> []" "hs_wf (hs_proposal s)" "hs_wf (hs_acceptance s)"
    "ch_idx (hs_channel s) = side_index role" "ch_bytes (hs_channel s) = []" "hs_sent s = []"
    "cn_channels (ch_conn (hs_channel s)) = [side_index role \<mapsto> []]"
    "cn_demux (ch_conn (hs_channel s)) = Some (1, AtHeader [])"
    "cn_input (ch_conn (hs_channel s)) = []" "\<not> cn_eof (ch_conn (hs_channel s))"
    "fits (cn_writes (ch_conn (hs_channel s))) [(side_index role, hs_bytes c m)]"
    "writable (ch_conn (hs_channel s))"
proof -
  obtain b now clock writes where b: "hs_configured b"
      "hs_build b role (connection_new now clock writes) = Inr s"
      "writable (connection_new now clock writes)" "fits writes [(side_index role, hs_bytes c m)]"
    using assms by (auto simp: hs_opened_def)
  then have s: "s = hs_with_channel b role
      (connection_channel (side_index role) (connection_new now clock writes))"
    by (auto simp: hs_build_def split: agency.splits)
  show "hs_role s = role" "hs_state s = Propose" "hs_version s = None"
    "hs_versions s \<noteq> []" "hs_wf (hs_proposal s)" "hs_wf (hs_acceptance s)"
    "ch_idx (hs_channel s) = side_index role" "ch_bytes (hs_channel s) = []" "hs_sent s = []"
    "cn_channels (ch_conn (hs_channel s)) = [side_index role \<mapsto> []]"
    "cn_demux (ch_conn (hs_channel s)) = Some (1, AtHeader [])"
    "cn_input (ch_conn (hs_channel s)) = []" "\<not> cn_eof (ch_conn (hs_channel s))"
    "fits (cn_writes (ch_conn (hs_channel s))) [(side_index role, hs_bytes c m)]"
    "writable (ch_conn (hs_channel s))"
    using hs_configured_versions[OF b(1)] b(3,4)
    by (auto simp: s hs_with_channel_def connection_channel_def run_demux_def register_def
        connection_new_def writable_def hs_sent_def hs_proposal_def hs_acceptance_def less_version_def)
qed

text \<open>One message of the other side, cut in any way, is on the queue of this side's channel.\<close>

lemma hs_message_arrives:
  assumes "wire_ok w" and "fits (cn_writes a) [(idx, data)]" "cn_sent a = []"
    and "ch_idx (hs_channel s) = idx XOR 0x8000" "ch_bytes (hs_channel s) = []"
    and "cn_channels (ch_conn (hs_channel s)) = [idx XOR 0x8000 \<mapsto> []]"
    and "cn_demux (ch_conn (hs_channel s)) = Some (1, AtHeader [])"
    and "cn_input (ch_conn (hs_channel s)) = []" "\<not> cn_eof (ch_conn (hs_channel s))"
    and "s' = hs_receive w ns (cn_sent (after_send w idx data a)) s"
  shows "feed [] [data] (hs_channel s') = hs_channel s'" "quiet (ch_conn (hs_channel s'))"
    "ch_bytes (hs_channel s') = []" "hs_sent s' = hs_sent s"
    "cn_channels (ch_conn (hs_channel s')) (ch_idx (hs_channel s')) = Some [data]"
proof -
  let ?bytes = "cn_sent (after_send w idx data a)"
  let ?conn = "arrivals w (cut_at ns ?bytes) (ch_conn (hs_channel s))"
  have "cn_sent (send_all w [(idx, data)] a) = cn_sent a @ concat (cut_at ns ?bytes)"
    using assms(3) by (simp add: send_all_def)
  from arrivals_deliver[OF assms(1,2) this assms(7-9), of "idx XOR 0x8000"] assms(6)
  have "cn_channels ?conn (idx XOR 0x8000) = Some [data]" by (simp add: arrivals_polled)
  with assms(4,10) show queue:
    "cn_channels (ch_conn (hs_channel s')) (ch_idx (hs_channel s')) = Some [data]"
    by (simp add: hs_receive_def)
  have "quiet ?conn" using demux_poll_quiet[of w ?conn] by (simp add: arrivals_polled)
  then show "quiet (ch_conn (hs_channel s'))" by (simp add: assms(10) hs_receive_def)
  show bytes: "ch_bytes (hs_channel s') = []" by (simp add: assms(5,10) hs_receive_def)
  show "feed [] [data] (hs_channel s') = hs_channel s'"
    using feed_exists[OF queue] bytes by simp
  show "hs_sent s' = hs_sent s" by (simp add: assms(10) hs_receive_def hs_sent_def)
qed

text \<open>The client after its proposal, and the server when it has arrived.\<close>

lemma hs_client_opens:
  assumes "cbor_stream c" "cbor_order c" and "hs_opened Client (hs_proposal client) c client"
  obtains client' where "negotiate w c client = Some (Pending [], client')"
    "hs_sent client' = cn_sent (after_send w 0 (hs_bytes c (hs_proposal client))
      (ch_conn (hs_channel client)))"
    "hs_role client' = Client" "hs_state client' = Confirm"
    "hs_versions client' = hs_versions client" "hs_network_magic client' = hs_network_magic client"
    "ch_idx (hs_channel client') = 0" "ch_bytes (hs_channel client') = []"
    "cn_channels (ch_conn (hs_channel client')) = [0 \<mapsto> []]"
    "cn_demux (ch_conn (hs_channel client')) = Some (1, AtHeader [])"
    "cn_input (ch_conn (hs_channel client')) = []" "\<not> cn_eof (ch_conn (hs_channel client'))"
proof -
  note cl = hs_opened_facts[OF assms(3)]
  have "hs_ready Client [] client" using cl by (simp add: hs_ready_def quiet_def)
  note waits = hs_client_waits[OF this hs_bytes_encodes(1)[OF assms(1,2) cl(5)], of w]
  show thesis
    by (rule that[OF waits])
      (use cl in \<open>simp_all add: hs_sent_def feed_def\<close>)
qed

lemma hs_server_answers:
  assumes "wire_ok w" "cbor_stream c" "cbor_order c"
    and "hs_opened Client (hs_proposal client) c client"
    and "hs_opened Server (hs_acceptance server) c server"
    and "data = cn_sent (after_send w 0 (hs_bytes c (hs_proposal client))
      (ch_conn (hs_channel client)))"
  obtains server' a where "negotiate w c (hs_receive w ns data server) =
      Some (Ready (Inr (last (hs_versions server), hs_network_magic server)), server')"
    "hs_sent server' = cn_sent (after_send w 0x8000 (hs_bytes c (hs_acceptance server)) a)"
    "fits (cn_writes a) [(0x8000, hs_bytes c (hs_acceptance server))]" "cn_sent a = []"
proof -
  note cl = hs_opened_facts[OF assms(4)] and sv = hs_opened_facts[OF assms(5)]
  let ?server = "hs_receive w ns data server"
  have at_server: "quiet (ch_conn (hs_channel ?server))" "ch_bytes (hs_channel ?server) = []"
    "hs_sent ?server = []" "cn_channels (ch_conn (hs_channel ?server)) (ch_idx (hs_channel ?server)) =
      Some [hs_bytes c (hs_proposal client)]"
    using hs_message_arrives[OF assms(1) cl(14) cl(9)[unfolded hs_sent_def],
      where s = server and s' = ?server and ns = ns] sv assms(6) by simp_all
  have same: "hs_versions ?server = hs_versions server" "hs_role ?server = Server"
    "hs_network_magic ?server = hs_network_magic server" "hs_state ?server = Propose"
    "hs_version ?server = None" "ch_idx (hs_channel ?server) = 0x8000"
    "cn_writes (ch_conn (hs_channel ?server)) = cn_writes (ch_conn (hs_channel server))"
    "writable (ch_conn (hs_channel ?server))"
    using sv by (simp_all add: hs_receive_def writable_def)
  have "hs_ready Server [hs_bytes c (hs_proposal client)] ?server"
    using at_server same by (simp add: hs_ready_def)
  from hs_server_run[OF assms(2,3) this cl(5), of w] sv(4,6) same(1,3)
  obtain server' where "negotiate w c ?server =
      Some (Ready (Inr (last (hs_versions server), hs_network_magic server)), server')"
    "cn_sent (ch_conn (hs_channel server')) = cn_sent (ch_conn (sent w
      (hs_bytes c (hs_acceptance server)) (hs_channel ?server)))"
    by (auto simp: hs_acceptance_def)
  with that[of server' "ch_conn (hs_channel ?server)"] same(6,7) at_server(3) sv(14)
  show thesis by (simp add: hs_sent_def)
qed

text \<open>The three calls of a dialogue: to the first wait, to the answer, and to the end.\<close>

lemma hs_dialogue_calls:
  assumes "wire_ok w" "cbor_stream c" "cbor_order c"
    and "hs_opened Client (hs_proposal client) c client"
    and "hs_opened Server (hs_acceptance server) c server"
  obtains client' server' client'' where "negotiate w c client = Some (Pending [], client')"
    "negotiate w c (hs_receive w ns (hs_sent client') server) =
      Some (Ready (Inr (last (hs_versions server), hs_network_magic server)), server')"
    "negotiate_resume w c [] (hs_receive w ms (hs_sent server') client') =
      Some (Ready (hs_verdict client (last (hs_versions server)) (hs_network_magic server)), client'')"
    "hs_sent client'' = hs_sent client'"
    "\<not> cn_eof (ch_conn (hs_channel client'))"
proof -
  let ?v = "last (hs_versions server)" and ?magic = "hs_network_magic server"
  obtain client' where cl: "negotiate w c client = Some (Pending [], client')"
    "hs_sent client' = cn_sent (after_send w 0 (hs_bytes c (hs_proposal client))
      (ch_conn (hs_channel client)))"
    "hs_role client' = Client" "hs_state client' = Confirm"
    "hs_versions client' = hs_versions client" "hs_network_magic client' = hs_network_magic client"
    "ch_idx (hs_channel client') = 0" "ch_bytes (hs_channel client') = []"
    "cn_channels (ch_conn (hs_channel client')) = [0 \<mapsto> []]"
    "cn_demux (ch_conn (hs_channel client')) = Some (1, AtHeader [])"
    "cn_input (ch_conn (hs_channel client')) = []" "\<not> cn_eof (ch_conn (hs_channel client'))"
    by (rule hs_client_opens[OF assms(2-4), of w])
  obtain server' a where sv: "negotiate w c (hs_receive w ns (hs_sent client') server) =
      Some (Ready (Inr (?v, ?magic)), server')"
    "hs_sent server' = cn_sent (after_send w 0x8000 (hs_bytes c (hs_acceptance server)) a)"
    "fits (cn_writes a) [(0x8000, hs_bytes c (hs_acceptance server))]" "cn_sent a = []"
    by (rule hs_server_answers[OF assms cl(2), of ns])
  let ?resumed = "hs_receive w ms (hs_sent server') client'"
  have arrived: "feed [] [hs_bytes c (hs_acceptance server)] (hs_channel ?resumed) = hs_channel ?resumed"
      "quiet (ch_conn (hs_channel ?resumed))" "hs_sent ?resumed = hs_sent client'"
    using hs_message_arrives[OF assms(1) sv(3,4), where s = client' and s' = ?resumed and ns = ms]
      cl(7-12) sv(2) by simp_all
  have resumed: "hs_role ?resumed = Client" "hs_state ?resumed = Confirm"
      "hs_verdict ?resumed ?v ?magic = hs_verdict client ?v ?magic"
    using cl(3-6) by (simp_all add: hs_receive_def hs_verdict_def)
  have "hs_wf (AcceptVersion ?v ?magic)"
    using hs_opened_facts(6)[OF assms(5)] by (simp add: hs_acceptance_def)
  from hs_client_resumes[OF assms(2,3) resumed(1,2) arrived(1,2) this, of w]
  obtain client'' where
    "negotiate_resume w c [] ?resumed = Some (Ready (hs_verdict client ?v ?magic), client'')"
    "hs_sent client'' = hs_sent ?resumed"
    by (auto simp: resumed(3)[unfolded hs_sent_def] hs_acceptance_def hs_sent_def)
  with that[OF cl(1) sv(1)] arrived(3) cl(12) show thesis by simp
qed

text \<open>
  A client and a server made by the public builder negotiate over a connection, their
  bytes cut in any way. Both calls return; the server always reports its own last version and
  magic number; the client reports the same when the magic numbers agree and the version is one
  it proposed, fails with an error when it did not propose it, and panics when the magic numbers
  differ.
\<close>

theorem handshake_dialogue:
  assumes "wire_ok w" "cbor_stream c" "cbor_order c"
    and "hs_opened Client (hs_proposal client) c client"
    and "hs_opened Server (hs_acceptance server) c server"
  shows "hs_dialogue w c ns ms client server = Some
    (if hs_network_magic server \<noteq> hs_network_magic client then Inl (Panic AssertPanic)
     else if last (hs_versions server) \<in> set (hs_versions client)
       then Inr (last (hs_versions server), hs_network_magic server)
     else Inl (Error (ErrText ''Handshake failed.'')),
     Inr (last (hs_versions server), hs_network_magic server))"
  by (rule hs_dialogue_calls[OF assms, of ns ms])
    (simp only: hs_dialogue_def option.case prod.case poll.case hs_verdict_def)

definition sample_opened :: "agency \<Rightarrow> u32 \<Rightarrow> handshake" where
  "sample_opened role magic = hs_with_channel (network_magic magic hs_builder) role
     (connection_channel (side_index role) (connection_new 0 (\<lambda>_. 0) (\<lambda>_. Accepts 65535)))"

lemma sample_opened_simps [simp]:
  "hs_versions (sample_opened role magic) = [N2N 6, N2N 7]"
  "hs_network_magic (sample_opened role magic) = magic"
  by (simp_all add: sample_opened_def hs_with_channel_def network_magic_def hs_builder_def)

lemma sample_opened_build:
  "role \<noteq> NoAgency \<Longrightarrow> hs_build (network_magic magic hs_builder) role
     (connection_new 0 (\<lambda>_. 0) (\<lambda>_. Accepts 65535)) = Inr (sample_opened role magic)"
  by (cases role) (simp_all add: hs_build_def sample_opened_def)

lemma sample_opened_ok:
  assumes "role \<noteq> NoAgency" and "length (hs_bytes sample_cbor m) \<le> 65535"
  shows "hs_opened role m sample_cbor (sample_opened role magic)"
  unfolding hs_opened_def
proof (intro exI conjI)
  show "hs_configured (network_magic magic hs_builder)" by (intro hs_configured.intros)
  show "hs_build (network_magic magic hs_builder) role (connection_new 0 (\<lambda>_. 0) (\<lambda>_. Accepts 65535)) =
      Inr (sample_opened role magic)"
    using assms(1) by (rule sample_opened_build)
qed (use assms(2) in \<open>simp_all add: writable_def connection_new_def\<close>)

theorem handshake_dialogue_witness:
  "hs_dialogue sample_wire sample_cbor [3, 9] [] (sample_opened Client 42) (sample_opened Server 42) =
     Some (Inr (N2N 7, 42), Inr (N2N 7, 42)) \<and>
   hs_dialogue sample_wire sample_cbor [] [1] (sample_opened Client 42) (sample_opened Server 1) =
     Some (Inl (Panic AssertPanic), Inr (N2N 7, 1))"
proof -
  have ask: "length (hs_bytes sample_cbor (hs_proposal (sample_opened Client m))) \<le> 65535" for m
    by (simp add: hs_proposal_def hs_bytes_def message_to_bytes_def sample_cbor_def)
  have answer: "length (hs_bytes sample_cbor (hs_acceptance (sample_opened Server m))) \<le> 65535" for m
    by (simp add: hs_acceptance_def hs_bytes_def message_to_bytes_def sample_cbor_def
        u16_try_from_def)
  note dialogue = handshake_dialogue[OF sample_wire_ok sample_cbor_stream sample_cbor_order
      sample_opened_ok[OF _ ask] sample_opened_ok[OF _ answer]]
  show ?thesis by (simp add: dialogue)
qed

end
