(* ===== verification/Handshake_Link.thy ===== *)
theory Handshake_Link
  imports Handshake_Dialogue Mux_Link Resumable_Calls
begin

unbundle bit_operations_syntax

text \<open>
  The two sides of a handshake as they run concurrently: each call of \<open>negotiate\<close> is polled at
  any time and waits at any \<open>await\<close>, the network hands over some of the bytes on their way, and
  the tasks run, in any order. Every such run can be completed, and every result it returns is
  the one the protocol promises.
\<close>

section \<open>Calls under way\<close>

text \<open>
  A call that has not returned: not polled yet, or suspended with its buffer. Polling it runs it
  to the next \<open>await\<close> that waits, or to its result.
\<close>

datatype hs_call =
    Running "byte list option" handshake
  | Returned "(error, version \<times> u32) result" handshake

definition hs_poll :: "wire \<Rightarrow> cbor \<Rightarrow> byte list option \<Rightarrow> (handshake, error, version \<times> u32) task" where
  "hs_poll w c at_await = (case at_await of
       None \<Rightarrow> negotiate w c
     | Some l \<Rightarrow> negotiate_resume w c l)"

fun call_after :: "(error, version \<times> u32) poll \<Rightarrow> handshake \<Rightarrow> hs_call" where
  "call_after (Pending l) s = Running (Some l) s"
| "call_after (Ready r) s = Returned r s"

definition hs_polled :: "wire \<Rightarrow> handshake \<Rightarrow> handshake" where
  "hs_polled w s = s\<lparr>hs_channel := (hs_channel s)\<lparr>ch_conn := demux_poll w (ch_conn (hs_channel s))\<rparr>\<rparr>"

text \<open>The client is at the near end, the server at the far end.\<close>

record talk =
  tk_end :: "endpoint \<Rightarrow> hs_call"
  tk_wire :: "endpoint \<Rightarrow> byte list"

inductive talk_step :: "wire \<Rightarrow> cbor \<Rightarrow> talk \<Rightarrow> talk \<Rightarrow> bool" for w c where
  poll: "tk_end t e = Running a s \<Longrightarrow> hs_poll w c a s = Some (r, s') \<Longrightarrow>
    hs_sent s' = hs_sent s @ bytes \<Longrightarrow>
    talk_step w c t \<lparr>tk_end = (tk_end t)(e := call_after r s'),
      tk_wire = (tk_wire t)(opposite e := tk_wire t (opposite e) @ bytes)\<rparr>"
| arrive: "tk_end t e = Running a s \<Longrightarrow> tk_wire t e = bytes @ rest \<Longrightarrow>
    talk_step w c t \<lparr>tk_end = (tk_end t)(e := Running a (hs_late bytes s)),
      tk_wire = (tk_wire t)(e := rest)\<rparr>"
| task: "tk_end t e = Running a s \<Longrightarrow>
    talk_step w c t \<lparr>tk_end = (tk_end t)(e := Running a (hs_polled w s)), tk_wire = tk_wire t\<rparr>"

inductive talk_reaches :: "wire \<Rightarrow> cbor \<Rightarrow> talk \<Rightarrow> talk \<Rightarrow> bool" for w c where
  here: "talk_reaches w c t t"
| there: "talk_reaches w c t t' \<Longrightarrow> talk_step w c t' t'' \<Longrightarrow> talk_reaches w c t t''"

text \<open>Neither call polled yet, and no bytes on their way.\<close>

definition talk_opened :: "handshake \<Rightarrow> handshake \<Rightarrow> talk" where
  "talk_opened client server =
     \<lparr>tk_end = (\<lambda>e. case e of Near \<Rightarrow> Running None client | Far \<Rightarrow> Running None server),
      tk_wire = (\<lambda>e. [])\<rparr>"

section \<open>Polling and late bytes\<close>

lemma hs_poll_from:
  "hs_poll w c a = bind_t (execute_from w c (hs_protocol c) a) (\<lambda>_. sync_t hs_result)"
  by (cases a) (simp_all add: hs_poll_def negotiate_def negotiate_resume_def execute_def)

lemma resumable_negotiate:
  assumes "cbor_progress c"
  shows "resumable w hs_channel (\<lambda>ch s. s\<lparr>hs_channel := ch\<rparr>) (hs_poll w c)"
proof -
  have sel: "pr_channel (hs_protocol c) = hs_channel"
      "pr_set_channel (hs_protocol c) = (\<lambda>ch s. s\<lparr>hs_channel := ch\<rparr>)"
    by (simp_all add: hs_protocol_def)
  have "hs_poll w c = (\<lambda>a. bind_t (execute_from w c (hs_protocol c) a) (\<lambda>_. sync_t hs_result))"
    by (rule ext) (rule hs_poll_from)
  moreover have "resumable w hs_channel (\<lambda>ch s. s\<lparr>hs_channel := ch\<rparr>)
      (\<lambda>a. bind_t (execute_from w c (hs_protocol c) a) (\<lambda>_. sync_t hs_result))"
    by (rule hs.resumable_bind[where c = c, unfolded sel,
          OF hs.resumable_execute[OF assms, where ca = c and w = w, unfolded sel]])
      (simp add: hs_result_def)
  ultimately show ?thesis by simp
qed

lemma hs_poll_returns:
  assumes "cbor_progress c"
  shows "\<exists>r s'. hs_poll w c a s = Some (r, s')"
  using resumable_negotiate[OF assms] unfolding resumable_def by blast

lemma hs_poll_sender:
  assumes "cbor_progress c" and "hs_poll w c a s = Some (r, s')"
  obtains data where "hs_sent s' = hs_sent s @ data"
    "cn_eof (ch_conn (hs_channel s')) = cn_eof (ch_conn (hs_channel s))"
proof -
  obtain q t where "hs_poll w c a s = Some (q, t)" "grown hs_channel s t"
    by (rule resumableE[OF resumable_negotiate[OF assms(1)]])
  with assms(2) that show thesis by (auto simp: grown_def hs_sent_def)
qed

text \<open>A poll, and the same poll when bytes have come on top of it.\<close>

lemma hs_poll_late_waits:
  assumes "cbor_progress c" and "hs_poll w c a s = Some (Pending l, s')"
    and "\<not> cn_eof (ch_conn (hs_channel s))" and "caught_up w data (hs_channel s) ch2"
  shows "hs_poll w c a (s\<lparr>hs_channel := ch2\<rparr>) = hs_poll w c (Some l) (hs_late data s')"
  using resumable_late(1)[OF resumable_negotiate[OF assms(1)] assms(3,4,2)] by (simp add: hs_late_def)

lemma hs_poll_late_returns:
  assumes "cbor_progress c" and "hs_poll w c a s = Some (Ready v, s')"
    and "\<not> cn_eof (ch_conn (hs_channel s))" and "caught_up w data (hs_channel s) ch2"
  obtains s2 where "hs_poll w c a (s\<lparr>hs_channel := ch2\<rparr>) = Some (Ready v, s2)"
    "hs_sent s2 = hs_sent s'"
proof -
  from resumable_late(2)[OF resumable_negotiate[OF assms(1)] assms(3,4,2)] obtain ch3 where
    "caught_up w data (hs_channel s') ch3"
    "hs_poll w c a (s\<lparr>hs_channel := ch2\<rparr>) = Some (Ready v, s'\<lparr>hs_channel := ch3\<rparr>)" by blast
  with that caught_up_sender(1)[OF this(1)] show thesis by (simp add: hs_sent_def)
qed

lemma hs_late_simps [simp]:
  "hs_late b (hs_late a s) = hs_late (a @ b) s"
  "hs_sent (hs_late a s) = hs_sent s"
  "hs_sent (hs_polled w s) = hs_sent s"
  "cn_eof (ch_conn (hs_channel (hs_late a s))) = cn_eof (ch_conn (hs_channel s))"
  "cn_eof (ch_conn (hs_channel (hs_polled w s))) = cn_eof (ch_conn (hs_channel s))"
  by (simp_all add: hs_late_def late_def conn_arrive_def hs_sent_def hs_polled_def)

section \<open>What a side is bound to do\<close>

text \<open>
  A call under way that, once the bytes \<open>rest\<close> have arrived, returns \<open>v\<close> and has written
  \<open>rem\<close> on top of what it has written so far.
\<close>

definition side_bound :: "wire \<Rightarrow> cbor \<Rightarrow> (error, version \<times> u32) result \<Rightarrow> byte list option \<Rightarrow>
    handshake \<Rightarrow> byte list \<Rightarrow> byte list \<Rightarrow> bool" where
  "side_bound w c v a s rest rem \<longleftrightarrow> \<not> cn_eof (ch_conn (hs_channel s)) \<and>
     (\<exists>sf. hs_poll w c a (hs_late rest s) = Some (Ready v, sf) \<and> hs_sent sf = hs_sent s @ rem)"

lemma side_bound_arrive:
  "side_bound w c v a s (bytes @ rest) rem \<Longrightarrow> side_bound w c v a (hs_late bytes s) rest rem"
  by (simp add: side_bound_def)

lemma side_bound_task:
  assumes "cbor_progress c" and "side_bound w c v a s rest rem"
  shows "side_bound w c v a (hs_polled w s) rest rem"
proof -
  from assms(2) obtain sf where eof: "\<not> cn_eof (ch_conn (hs_channel s))"
    and sf: "hs_poll w c a (hs_late rest s) = Some (Ready v, sf)" "hs_sent sf = hs_sent s @ rem"
    by (auto simp: side_bound_def)
  let ?ch = "late rest ((hs_channel s)\<lparr>ch_conn := demux_poll w (ch_conn (hs_channel s))\<rparr>)"
  have "caught_up w [] (hs_channel (hs_late rest s)) ?ch"
    using caught_up_task[OF eof] by (simp add: hs_late_def)
  from hs_poll_late_returns[OF assms(1) sf(1) _ this] eof obtain s2 where
    "hs_poll w c a ((hs_late rest s)\<lparr>hs_channel := ?ch\<rparr>) = Some (Ready v, s2)"
    "hs_sent s2 = hs_sent sf" by auto
  moreover have "(hs_late rest s)\<lparr>hs_channel := ?ch\<rparr> = hs_late rest (hs_polled w s)"
    by (simp add: hs_late_def hs_polled_def)
  ultimately show ?thesis using eof sf(2) by (simp add: side_bound_def)
qed

lemma side_bound_waits:
  assumes "cbor_progress c" and "side_bound w c v a s rest rem"
    and "hs_poll w c a s = Some (Pending l, s')"
  shows "\<exists>rem'. side_bound w c v (Some l) s' rest rem' \<and> hs_sent s' @ rem' = hs_sent s @ rem"
proof -
  from assms(2) obtain sf where eof: "\<not> cn_eof (ch_conn (hs_channel s))"
    and sf: "hs_poll w c a (hs_late rest s) = Some (Ready v, sf)" "hs_sent sf = hs_sent s @ rem"
    by (auto simp: side_bound_def)
  from hs_poll_late_waits[OF assms(1,3) eof caught_up_late] sf(1)
  have resumed: "hs_poll w c (Some l) (hs_late rest s') = Some (Ready v, sf)"
    by (simp add: hs_late_def)
  obtain d where "hs_sent sf = hs_sent s' @ d"
    using resumed by (rule hs_poll_sender[OF assms(1)]) simp
  moreover obtain "cn_eof (ch_conn (hs_channel s')) = cn_eof (ch_conn (hs_channel s))"
    using assms(3) by (rule hs_poll_sender[OF assms(1)])
  ultimately show ?thesis using resumed eof sf(2) by (auto simp: side_bound_def)
qed

lemma side_bound_returns:
  assumes "cbor_progress c" and "side_bound w c v a s rest rem"
    and "hs_poll w c a s = Some (Ready v', s')"
  shows "v' = v \<and> hs_sent s' = hs_sent s @ rem"
proof -
  from assms(2) obtain sf where eof: "\<not> cn_eof (ch_conn (hs_channel s))"
    and sf: "hs_poll w c a (hs_late rest s) = Some (Ready v, sf)" "hs_sent sf = hs_sent s @ rem"
    by (auto simp: side_bound_def)
  obtain s2 where "hs_poll w c a (s\<lparr>hs_channel := late rest (hs_channel s)\<rparr>) = Some (Ready v', s2)"
    "hs_sent s2 = hs_sent s'"
    by (rule hs_poll_late_returns[OF assms(1,3) eof caught_up_late])
  with sf show ?thesis by (simp add: hs_late_def)
qed

text \<open>Once everything has arrived it returns.\<close>

lemma side_bound_done:
  "side_bound w c v a s [] rem \<Longrightarrow> \<exists>s'. hs_poll w c a s = Some (Ready v, s') \<and> hs_sent s' = hs_sent s @ rem"
  by (auto simp: side_bound_def hs_late_def late_def conn_arrive_def)

section \<open>The invariant of a conversation\<close>

text \<open>
  A client that has not been polled is the client of the start, on whose channel some bytes
  have arrived; its first poll writes its whole message.
\<close>

definition unpolled :: "wire \<Rightarrow> handshake \<Rightarrow> handshake \<Rightarrow> bool" where
  "unpolled w s0 s \<longleftrightarrow> \<not> cn_eof (ch_conn (hs_channel s0)) \<and>
     (\<exists>ch data. s = s0\<lparr>hs_channel := ch\<rparr> \<and> caught_up w data (hs_channel s0) ch)"

definition opens_with :: "wire \<Rightarrow> cbor \<Rightarrow> handshake \<Rightarrow> byte list \<Rightarrow> bool" where
  "opens_with w c s0 bytes \<longleftrightarrow>
     (\<exists>s1. hs_poll w c None s0 = Some (Pending [], s1) \<and> hs_sent s1 = bytes)"

lemma unpolled_arrive: "unpolled w s0 s \<Longrightarrow> unpolled w s0 (hs_late bytes s)"
  using caught_up_further(1) by (fastforce simp: unpolled_def hs_late_def)

lemma unpolled_task: "unpolled w s0 s \<Longrightarrow> unpolled w s0 (hs_polled w s)"
  using caught_up_further(2) by (fastforce simp: unpolled_def hs_polled_def)

lemma unpolled_poll:
  assumes "cbor_progress c" and "unpolled w s0 s" and "opens_with w c s0 bytes"
    and "hs_poll w c None s = Some (r, s')"
  obtains x where "hs_sent s' = bytes @ x"
proof -
  from assms(3) obtain s1 where s1: "hs_poll w c None s0 = Some (Pending [], s1)" "hs_sent s1 = bytes"
    by (auto simp: opens_with_def)
  from assms(2) obtain ch data where data: "s = s0\<lparr>hs_channel := ch\<rparr>"
      "\<not> cn_eof (ch_conn (hs_channel s0))" "caught_up w data (hs_channel s0) ch"
    by (auto simp: unpolled_def)
  from hs_poll_late_waits[OF assms(1) s1(1) data(2,3)] data(1) assms(4)
  have "hs_poll w c (Some []) (hs_late data s1) = Some (r, s')" by simp
  then obtain x where "hs_sent s' = hs_sent (hs_late data s1) @ x" by (rule hs_poll_sender[OF assms(1)]) blast
  with that s1(2) show thesis by simp
qed

text \<open>
  \<open>goal e\<close> is what the call of each end returns. \<open>rem e\<close> are the bytes it has still to write;
  the client has written all its bytes with its first poll.
\<close>

fun end_inv :: "wire \<Rightarrow> cbor \<Rightarrow> (error, version \<times> u32) result \<Rightarrow> hs_call \<Rightarrow> byte list \<Rightarrow>
    byte list \<Rightarrow> bool" where
  "end_inv w c v (Running a s) rest rem \<longleftrightarrow> side_bound w c v a s rest rem"
| "end_inv w c v (Returned v' s) rest rem \<longleftrightarrow> v' = v \<and> rem = []"

fun opening_inv :: "wire \<Rightarrow> cbor \<Rightarrow> handshake \<Rightarrow> hs_call \<Rightarrow> byte list \<Rightarrow> bool" where
  "opening_inv w c s0 (Running None s) rem \<longleftrightarrow>
     unpolled w s0 s \<and> hs_sent s = [] \<and> opens_with w c s0 rem"
| "opening_inv w c s0 _ rem \<longleftrightarrow> rem = []"

definition talk_inv :: "wire \<Rightarrow> cbor \<Rightarrow> (endpoint \<Rightarrow> (error, version \<times> u32) result) \<Rightarrow> handshake \<Rightarrow>
    talk \<Rightarrow> (endpoint \<Rightarrow> byte list) \<Rightarrow> bool" where
  "talk_inv w c goal client t rem \<longleftrightarrow>
     (\<forall>e. end_inv w c (goal e) (tk_end t e) (tk_wire t e @ rem (opposite e)) (rem e)) \<and>
     opening_inv w c client (tk_end t Near) (rem Near)"

lemma talk_invD:
  assumes "talk_inv w c goal client t rem" and "tk_end t e = Running a s"
  shows "side_bound w c (goal e) a s (tk_wire t e @ rem (opposite e)) (rem e)"
proof -
  from assms(1) have "end_inv w c (goal e) (tk_end t e) (tk_wire t e @ rem (opposite e)) (rem e)"
    unfolding talk_inv_def by blast
  with assms(2) show ?thesis by simp
qed

lemma talk_inv_update:
  assumes "talk_inv w c goal client t rem"
    and "end_inv w c (goal e) call (onway e @ rem (opposite e)) rem'"
    and "onway (opposite e) @ rem' = tk_wire t (opposite e) @ rem e"
    and "e = Near \<Longrightarrow> opening_inv w c client call rem'"
  shows "talk_inv w c goal client \<lparr>tk_end = (tk_end t)(e := call), tk_wire = onway\<rparr> (rem(e := rem'))"
  unfolding talk_inv_def
proof (intro conjI allI)
  fix f
  have other: "end_inv w c (goal (opposite e)) (tk_end t (opposite e))
      (tk_wire t (opposite e) @ rem (opposite (opposite e))) (rem (opposite e))"
    using assms(1) unfolding talk_inv_def by blast
  consider "f = e" | "f = opposite e" by (cases e; cases f) simp_all
  then show "end_inv w c (goal f) (tk_end \<lparr>tk_end = (tk_end t)(e := call), tk_wire = onway\<rparr> f)
      (tk_wire \<lparr>tk_end = (tk_end t)(e := call), tk_wire = onway\<rparr> f @ (rem(e := rem')) (opposite f))
      ((rem(e := rem')) f)"
  proof cases
    case 1
    with assms(2) show ?thesis by simp
  next
    case 2
    with assms(3) other show ?thesis by simp
  qed
next
  show "opening_inv w c client (tk_end \<lparr>tk_end = (tk_end t)(e := call), tk_wire = onway\<rparr> Near)
      ((rem(e := rem')) Near)"
    using assms(1,4) unfolding talk_inv_def by (cases e) simp_all
qed

lemma talk_step_inv:
  assumes "cbor_progress c" and "talk_inv w c goal client t rem" and "talk_step w c t t'"
  shows "\<exists>rem'. talk_inv w c goal client t' rem'"
  using assms(3)
proof cases
  case (poll e a s r s' bytes)
  note bound = talk_invD[OF assms(2) poll(2)]
  let ?onway = "(tk_wire t)(opposite e := tk_wire t (opposite e) @ bytes)"
  show ?thesis
  proof (cases r)
    case (Ready v)
    from side_bound_returns[OF assms(1) bound] poll(3,4) Ready
    have "v = goal e" "bytes = rem e" by auto
    then have "talk_inv w c goal client \<lparr>tk_end = (tk_end t)(e := Returned v s'), tk_wire = ?onway\<rparr>
        (rem(e := []))"
      by (intro talk_inv_update[OF assms(2)]) simp_all
    with poll(1) Ready show ?thesis by auto
  next
    case (Pending l)
    from side_bound_waits[OF assms(1) bound] poll(3,4) Pending
    obtain rem' where rem': "side_bound w c (goal e) (Some l) s'
        (tk_wire t e @ rem (opposite e)) rem'" "bytes @ rem' = rem e" by auto
    have "rem' = []" if "e = Near"
    proof -
      have at_start: "opening_inv w c client (Running a s) (rem Near)"
        using assms(2) poll(2) that unfolding talk_inv_def by metis
      show ?thesis
      proof (cases a)
        case None
        with at_start have first: "unpolled w client s" "hs_sent s = []" "opens_with w c client (rem Near)"
          by simp_all
        from None poll(3) obtain x where "hs_sent s' = rem Near @ x"
          using unpolled_poll[OF assms(1) first(1,3)] by blast
        with first(2) poll(4) have "bytes = rem Near @ x" by simp
        with rem'(2) that show ?thesis by simp
      next
        case (Some l')
        with at_start rem'(2) that show ?thesis by simp
      qed
    qed
    then have "talk_inv w c goal client
        \<lparr>tk_end = (tk_end t)(e := Running (Some l) s'), tk_wire = ?onway\<rparr> (rem(e := rem'))"
      using rem' by (intro talk_inv_update[OF assms(2)]) simp_all
    with poll(1) Pending show ?thesis by auto
  qed
next
  case (arrive e a s bytes rest)
  from talk_invD[OF assms(2) arrive(2)] arrive(3)
  have "side_bound w c (goal e) a (hs_late bytes s) (rest @ rem (opposite e)) (rem e)"
    by (simp add: side_bound_arrive)
  moreover have "e = Near \<Longrightarrow> opening_inv w c client (Running a (hs_late bytes s)) (rem e)"
    using assms(2) arrive(2) unfolding talk_inv_def by (cases a) (auto simp: unpolled_arrive)
  ultimately have "talk_inv w c goal client
      \<lparr>tk_end = (tk_end t)(e := Running a (hs_late bytes s)), tk_wire = (tk_wire t)(e := rest)\<rparr>
      (rem(e := rem e))"
    by (intro talk_inv_update[OF assms(2)]) simp_all
  with arrive(1) show ?thesis by auto
next
  case (task e a s)
  from talk_invD[OF assms(2) task(2)]
  have "side_bound w c (goal e) a (hs_polled w s) (tk_wire t e @ rem (opposite e)) (rem e)"
    by (rule side_bound_task[OF assms(1)])
  moreover have "e = Near \<Longrightarrow> opening_inv w c client (Running a (hs_polled w s)) (rem e)"
    using assms(2) task(2) unfolding talk_inv_def by (cases a) (auto simp: unpolled_task)
  ultimately have "talk_inv w c goal client
      \<lparr>tk_end = (tk_end t)(e := Running a (hs_polled w s)), tk_wire = tk_wire t\<rparr> (rem(e := rem e))"
    by (intro talk_inv_update[OF assms(2)]) simp_all
  with task(1) show ?thesis by auto
qed

lemma talk_reaches_inv:
  assumes "talk_reaches w c t t'" and "cbor_progress c" and "talk_inv w c goal client t rem"
  shows "\<exists>rem'. talk_inv w c goal client t' rem'"
  using assms
proof (induction rule: talk_reaches.induct)
  case (here t)
  then show ?case by blast
next
  case (there t t' t'')
  then show ?case using talk_step_inv by blast
qed

section \<open>The conversation starts well\<close>

lemma hs_receive_late:
  assumes "cbor_progress c" and "hs_poll w c a (hs_receive w [] data s) = Some (Ready v, s')"
    and "\<not> cn_eof (ch_conn (hs_channel s))"
  obtains s2 where "hs_poll w c a (hs_late data s) = Some (Ready v, s2)" "hs_sent s2 = hs_sent s'"
proof -
  let ?r = "hs_receive w [] data s" and ?ch = "late data (hs_channel s)"
  have r: "hs_channel ?r = ?ch\<lparr>ch_conn := demux_poll w (ch_conn ?ch)\<rparr>"
    by (simp add: hs_receive_def arrivals_def late_def)
  have "caught_up w [] (hs_channel ?r) ?ch"
    by (simp add: r caught_up_def conn_arrive_def)
  moreover have "\<not> cn_eof (ch_conn (hs_channel ?r))" using assms(3) by (simp add: r late_def)
  moreover have "?r\<lparr>hs_channel := ?ch\<rparr> = hs_late data s"
    by (simp add: hs_receive_def hs_late_def)
  ultimately show thesis using hs_poll_late_returns[OF assms(1,2)] that by metis
qed

lemma talk_opened_inv:
  assumes "wire_ok w" "cbor_stream c" "cbor_order c" "cbor_progress c"
    and "hs_opened Client (hs_proposal client) c client"
    and "hs_opened Server (hs_acceptance server) c server"
    and "goal = (\<lambda>e. case e of
      Near \<Rightarrow> hs_verdict client (last (hs_versions server)) (hs_network_magic server)
    | Far \<Rightarrow> Inr (last (hs_versions server), hs_network_magic server))"
  shows "\<exists>rem. talk_inv w c goal client (talk_opened client server) rem"
proof -
  note cl = hs_opened_facts[OF assms(5)] and sv = hs_opened_facts[OF assms(6)]
  obtain client' server' client'' where calls: "negotiate w c client = Some (Pending [], client')"
    "negotiate w c (hs_receive w [] (hs_sent client') server) = Some (Ready (goal Far), server')"
    "negotiate_resume w c [] (hs_receive w [] (hs_sent server') client') =
      Some (Ready (goal Near), client'')"
    "hs_sent client'' = hs_sent client'" "\<not> cn_eof (ch_conn (hs_channel client'))"
    by (rule hs_dialogue_calls[OF assms(1-3,5,6), of "[]" "[]"]) (simp add: assms(7))
  let ?ask = "hs_sent client'" and ?answer = "hs_sent server'"
  have first: "hs_poll w c None client = Some (Pending [], client')"
    using calls(1) by (simp add: hs_poll_def)
  have at_client: "side_bound w c (goal Near) None client ?answer ?ask"
  proof -
    obtain s2 where "hs_poll w c (Some []) (hs_late ?answer client') = Some (Ready (goal Near), s2)"
      "hs_sent s2 = ?ask"
      by (rule hs_receive_late[OF assms(4) _ calls(5), of w "Some []" ?answer])
        (use calls(3,4) in \<open>auto simp: hs_poll_def\<close>)
    with hs_poll_late_waits[OF assms(4) first cl(13) caught_up_late, of ?answer] cl(9,13)
    show ?thesis by (simp add: side_bound_def hs_late_def)
  qed
  have at_server: "side_bound w c (goal Far) None server ?ask ?answer"
  proof -
    obtain s2 where "hs_poll w c None (hs_late ?ask server) = Some (Ready (goal Far), s2)"
      "hs_sent s2 = ?answer"
      by (rule hs_receive_late[OF assms(4) _ sv(13), of w None ?ask])
        (use calls(2) in \<open>auto simp: hs_poll_def\<close>)
    with sv(9,13) show ?thesis by (simp add: side_bound_def)
  qed
  have "unpolled w client client"
    unfolding unpolled_def using cl(13)
    by (intro conjI exI[of _ "hs_channel client"] exI[of _ "[]"])
      (simp_all add: caught_up_def conn_arrive_def)
  with first cl(9) have start: "opening_inv w c client (Running None client) ?ask"
    by (simp add: opens_with_def)
  let ?rem = "\<lambda>e. case e of Near \<Rightarrow> ?ask | Far \<Rightarrow> ?answer"
  have "end_inv w c (goal e) (tk_end (talk_opened client server) e)
      (tk_wire (talk_opened client server) e @ ?rem (opposite e)) (?rem e)" for e
    using at_client at_server by (cases e) (simp_all add: talk_opened_def)
  then show ?thesis
    using start by (intro exI[of _ ?rem]) (simp add: talk_inv_def talk_opened_def)
qed

section \<open>Every schedule\<close>

text \<open>
  C3. A client and a server made by the public builder, at the two ends of a connection, under
  any schedule: whenever they are polled, however the bytes on their way are cut and delayed, and
  whenever the tasks run. A call of \<open>negotiate\<close> that has returned has returned what the protocol
  promises: the server its own last version and magic number; the client the same when the
  magic numbers agree and the version is one it proposed, an error when it did not propose it,
  and a panic when the magic numbers differ.
\<close>

theorem handshake_any_schedule:
  assumes "wire_ok w" "cbor_stream c" "cbor_order c" "cbor_progress c"
    and "hs_opened Client (hs_proposal client) c client"
    and "hs_opened Server (hs_acceptance server) c server"
    and "talk_reaches w c (talk_opened client server) t"
  shows "(tk_end t Far = Returned v s \<longrightarrow>
      v = Inr (last (hs_versions server), hs_network_magic server)) \<and>
    (tk_end t Near = Returned v s \<longrightarrow> v =
      (if hs_network_magic server \<noteq> hs_network_magic client then Inl (Panic AssertPanic)
       else if last (hs_versions server) \<in> set (hs_versions client)
         then Inr (last (hs_versions server), hs_network_magic server)
       else Inl (Error (ErrText ''Handshake failed.''))))"
proof -
  let ?goal = "\<lambda>e. case e of
      Near \<Rightarrow> hs_verdict client (last (hs_versions server)) (hs_network_magic server)
    | Far \<Rightarrow> Inr (last (hs_versions server), hs_network_magic server)"
  obtain rem where rem: "talk_inv w c ?goal client t rem"
    using talk_reaches_inv[OF assms(7,4)] talk_opened_inv[OF assms(1-6) refl] by blast
  have "v = ?goal e" if "tk_end t e = Returned v s" for e
  proof -
    from rem have "end_inv w c (?goal e) (tk_end t e) (tk_wire t e @ rem (opposite e)) (rem e)"
      unfolding talk_inv_def by blast
    with that show ?thesis by simp
  qed
  from this[of Far] this[of Near] show ?thesis by (simp add: hs_verdict_def)
qed

text \<open>From every state a running end can be brought all its bytes and polled.\<close>

lemma talk_rem_done:
  assumes "talk_inv w c goal client t rem"
    and "tk_end t (opposite e) = Returned v s \<or> e = Far \<and> (\<forall>s. tk_end t Near \<noteq> Running None s)"
  shows "rem (opposite e) = []"
proof (cases "tk_end t (opposite e)")
  case (Returned v' s')
  from assms(1) have "end_inv w c (goal (opposite e)) (tk_end t (opposite e))
      (tk_wire t (opposite e) @ rem (opposite (opposite e))) (rem (opposite e))"
    unfolding talk_inv_def by blast
  with Returned show ?thesis by simp
next
  case (Running a s')
  with assms(2) obtain l where "e = Far" "tk_end t Near = Running (Some l) s'" by (cases a) auto
  with assms(1) show ?thesis unfolding talk_inv_def by simp
qed

lemma talk_serves_end:
  assumes "cbor_progress c" and "talk_inv w c goal client t rem" and "tk_end t e = Running a s"
  shows "\<exists>t' rem' a' s' v. talk_reaches w c t t' \<and> talk_inv w c goal client t' rem' \<and>
    tk_end t' (opposite e) = tk_end t (opposite e) \<and>
    (tk_end t' e = Returned (goal e) s' \<or> rem (opposite e) \<noteq> [] \<and> tk_end t' e = Running (Some a') s')"
proof -
  let ?s = "hs_late (tk_wire t e) s"
  let ?t = "\<lparr>tk_end = (tk_end t)(e := Running a ?s), tk_wire = (tk_wire t)(e := [])\<rparr>"
  obtain r s' where r: "hs_poll w c a ?s = Some (r, s')" using hs_poll_returns[OF assms(1)] by blast
  then obtain bytes where bytes: "hs_sent s' = hs_sent ?s @ bytes" by (rule hs_poll_sender[OF assms(1)])
  let ?t' = "\<lparr>tk_end = (tk_end ?t)(e := call_after r s'),
    tk_wire = (tk_wire ?t)(opposite e := tk_wire ?t (opposite e) @ bytes)\<rparr>"
  have "talk_step w c t ?t" by (rule talk_step.arrive[OF assms(3)]) simp
  moreover have "talk_step w c ?t ?t'"
    using r bytes by (intro talk_step.poll[where s = ?s and a = a]) simp_all
  ultimately have run: "talk_reaches w c t ?t'"
    using talk_reaches.there[OF talk_reaches.there[OF talk_reaches.here]] by blast
  then obtain rem' where inv: "talk_inv w c goal client ?t' rem'"
    using talk_reaches_inv assms(1,2) by blast
  have "side_bound w c (goal e) a ?s (rem (opposite e)) (rem e)"
    using talk_invD[OF assms(2,3)] by (rule side_bound_arrive)
  then have "r = Ready (goal e)" if "rem (opposite e) = []"
    using side_bound_done[of w c "goal e" a ?s "rem e"] r that by auto
  moreover have "v = goal e" if "r = Ready v" for v
    using inv that unfolding talk_inv_def by (auto dest: spec[of _ e])
  ultimately have "tk_end ?t' e = Returned (goal e) s' \<or>
      rem (opposite e) \<noteq> [] \<and> (\<exists>l. tk_end ?t' e = Running (Some l) s')"
    by (cases r) auto
  with run inv show ?thesis by (intro exI[of _ ?t'] exI[of _ rem']) auto
qed

lemma talk_completes:
  assumes "wire_ok w" "cbor_stream c" "cbor_order c" "cbor_progress c"
    and "hs_opened Client (hs_proposal client) c client"
    and "hs_opened Server (hs_acceptance server) c server"
    and "talk_reaches w c (talk_opened client server) t"
  shows "\<exists>t' v s v' s'. talk_reaches w c t t' \<and>
    tk_end t' Near = Returned v s \<and> tk_end t' Far = Returned v' s'"
proof -
  obtain goal rem where inv: "talk_inv w c goal client t rem"
    using talk_reaches_inv[OF assms(7,4)] talk_opened_inv[OF assms(1-6) refl] by blast
  have talk_trans: "talk_reaches w c x z" if "talk_reaches w c x y" "talk_reaches w c y z" for x y z
    using that(2,1) by (induction rule: talk_reaches.induct) (auto intro: talk_reaches.there)
  obtain t1 rem1 where t1: "talk_reaches w c t t1" "talk_inv w c goal client t1 rem1"
      "\<And>s. tk_end t1 Near \<noteq> Running None s"
  proof (cases "\<exists>s. tk_end t Near = Running None s")
    case True
    with talk_serves_end[OF assms(4) inv, of Near] that show thesis by fastforce
  next
    case False
    with that[OF talk_reaches.here inv] show thesis by blast
  qed
  obtain t2 rem2 v s where t2: "talk_reaches w c t1 t2" "talk_inv w c goal client t2 rem2"
      "tk_end t2 Far = Returned v s"
  proof (cases "tk_end t1 Far")
    case (Returned v s)
    with that[OF talk_reaches.here t1(2)] show thesis by blast
  next
    case (Running a s)
    have "rem1 Near = []" using talk_rem_done[OF t1(2), of Far] t1(3) by simp
    with talk_serves_end[OF assms(4) t1(2) Running] that show thesis by auto
  qed
  obtain t3 v' s' where "talk_reaches w c t2 t3" "tk_end t3 Far = Returned v s"
      "tk_end t3 Near = Returned v' s'"
  proof (cases "tk_end t2 Near")
    case (Returned v' s')
    with that[OF talk_reaches.here t2(3)] show thesis by blast
  next
    case (Running a s')
    have "rem2 Far = []" using talk_rem_done[OF t2(2), of Near] t2(3) by simp
    with talk_serves_end[OF assms(4) t2(2) Running] t2(3) that show thesis by auto
  qed
  with t1(1) t2(1) show ?thesis by (meson talk_trans)
qed

text \<open>
  No schedule gets stuck: from every state the two sides can reach, they can go on to a state
  in which both calls have returned.
\<close>

theorem handshake_completes:
  assumes "wire_ok w" "cbor_stream c" "cbor_order c" "cbor_progress c"
    and "hs_opened Client (hs_proposal client) c client"
    and "hs_opened Server (hs_acceptance server) c server"
    and "talk_reaches w c (talk_opened client server) t"
  shows "\<exists>t' v s v' s'. talk_reaches w c t t' \<and>
    tk_end t' Near = Returned v s \<and> tk_end t' Far = Returned v' s'"
  by (rule talk_completes[OF assms])

section \<open>A sample\<close>

lemma sample_sides_opened:
  "hs_opened Client (hs_proposal (sample_opened Client m)) sample_cbor (sample_opened Client m)"
  "hs_opened Server (hs_acceptance (sample_opened Server m)) sample_cbor (sample_opened Server m)"
proof -
  have "length (hs_bytes sample_cbor (hs_proposal (sample_opened Client m))) \<le> 65535"
    by (simp add: hs_proposal_def hs_bytes_def message_to_bytes_def sample_cbor_def)
  moreover have "length (hs_bytes sample_cbor (hs_acceptance (sample_opened Server m))) \<le> 65535"
    by (simp add: hs_acceptance_def hs_bytes_def message_to_bytes_def sample_cbor_def
        u16_try_from_def)
  ultimately show
    "hs_opened Client (hs_proposal (sample_opened Client m)) sample_cbor (sample_opened Client m)"
    "hs_opened Server (hs_acceptance (sample_opened Server m)) sample_cbor (sample_opened Server m)"
    by (simp_all add: sample_opened_ok)
qed

lemmas sample_talk = sample_wire_ok sample_cbor_stream sample_cbor_order sample_cbor_progress
  sample_sides_opened(1)[of 42] sample_sides_opened(2)[of 42]

theorem handshake_any_schedule_witness:
  "\<exists>t s s'. talk_reaches sample_wire sample_cbor
      (talk_opened (sample_opened Client 42) (sample_opened Server 42)) t \<and>
    tk_end t Near = Returned (Inr (N2N 7, 42)) s \<and> tk_end t Far = Returned (Inr (N2N 7, 42)) s'"
proof -
  obtain t v s v' s' where t: "talk_reaches sample_wire sample_cbor
      (talk_opened (sample_opened Client 42) (sample_opened Server 42)) t"
      "tk_end t Near = Returned v s" "tk_end t Far = Returned v' s'"
    using talk_completes[OF sample_talk talk_reaches.here] by blast
  have "v = Inr (N2N 7, 42)"
    using conjunct2[OF handshake_any_schedule[OF sample_talk t(1)]] t(2) by simp
  moreover have "v' = Inr (N2N 7, 42)"
    using conjunct1[OF handshake_any_schedule[OF sample_talk t(1)]] t(3) by simp
  ultimately show ?thesis using t by blast
qed

theorem handshake_completes_witness:
  "\<exists>t v s v' s'. talk_reaches sample_wire sample_cbor
      (talk_opened (sample_opened Client 42) (sample_opened Server 1)) t \<and>
    tk_end t Near = Returned v s \<and> tk_end t Far = Returned v' s'"
  using handshake_completes[OF sample_wire_ok sample_cbor_stream sample_cbor_order
      sample_cbor_progress sample_sides_opened(1)[of 42] sample_sides_opened(2)[of 1]
      talk_reaches.here]
  by blast

end
