(* ===== verification/Node_Sessions.thy ===== *)
theory Node_Sessions
  imports Play_Rounds Handshake_Link
begin

unbundle bit_operations_syntax

text \<open>
  A program of a client on one connection, from the handshake to its calls on another channel, and
  a node at the other end of the socket. The node is not this library: it reads frames as they
  come and writes frames on any channel, as its script has it. The program is polled, bytes arrive
  in any pieces, the tasks run and the node goes through its script, in any order.
\<close>

section \<open>The node\<close>

text \<open>The first frame of the bytes that a node has received.\<close>

definition next_frame :: "wire \<Rightarrow> byte list \<Rightarrow> ((u16 \<times> payload) \<times> byte list) option" where
  "next_frame w bytes = (let n = unat (get_u16 w (take 2 (drop 6 bytes))) in
     if length bytes < 8 + n then None
     else Some ((get_u16 w (take 2 (drop 4 bytes)), take n (drop 8 bytes)), drop (8 + n) bytes))"

lemma next_frame_frame:
  assumes "wire_ok w" and "length p < 65536"
  shows "next_frame w (frame w t idx p @ rest) = Some ((idx, p), rest)"
proof -
  have "unat (word_of_nat (length p) :: u16) = length p"
    using assms(2) by (simp add: unat_of_nat)
  then show ?thesis
    using assms(1) frame_header_fields[OF assms(1), of t idx "length p"]
    by (simp add: next_frame_def frame_def Let_def frame_header_def)
qed

lemma next_frame_append:
  assumes "next_frame w bytes = Some (f, rest)"
  shows "next_frame w (bytes @ x) = Some (f, rest @ x)"
proof -
  have "8 \<le> length bytes" using assms by (auto simp: next_frame_def Let_def split: if_splits)
  with assms show ?thesis by (auto simp: next_frame_def Let_def split: if_splits)
qed

lemma framed_first:
  assumes "framed w idx (p # ps) bytes" and "wire_ok w"
  obtains rest where "next_frame w bytes = Some ((idx, p), rest)" "framed w idx ps rest"
  using assms next_frame_frame by (auto elim: framed.cases)

text \<open>When more bytes come, the first frame stays the first.\<close>

lemma framed_first_later:
  assumes "framed w idx (p # ps) (got @ x)" and "wire_ok w" and "next_frame w got = Some (f, rest)"
  shows "f = (idx, p) \<and> framed w idx ps (rest @ x)"
  using framed_first[OF assms(1,2)] next_frame_append[OF assms(3), of x] by auto

text \<open>A script for one channel of the client, \<open>own\<close> on its frames and \<open>other\<close> on those of the node.\<close>

fun on_channel :: "u16 \<Rightarrow> u16 \<Rightarrow> payload peer_step \<Rightarrow> (u16 \<times> payload) peer_step" where
  "on_channel own other (Expect p) = Expect (own, p)"
| "on_channel own other (Say p) = Say (other, p)"

section \<open>The program\<close>

text \<open>
  It shakes hands, and then makes its calls; \<open>Refused\<close> when the handshake or the construction of
  the client has failed.
\<close>

datatype ('q, 's, 'r) program =
    Shaking "byte list option" handshake
  | Refused "error failure"
  | Using "('q, 's, 'r) user"

fun begin_calls :: "(connection \<Rightarrow> (error, 's) result) \<Rightarrow> 'q list \<Rightarrow> (error, version \<times> u32) poll \<Rightarrow>
    handshake \<Rightarrow> ('q, 's, 'r) program" where
  "begin_calls start qs (Pending l) s = Shaking (Some l) s"
| "begin_calls start qs (Ready (Inl f)) s = Refused f"
| "begin_calls start qs (Ready (Inr _)) s = (case start (channel_drop (hs_channel s)) of
       Inl f \<Rightarrow> Refused f
     | Inr client \<Rightarrow> Using (Calling qs None [] client))"

text \<open>A poll, with the bytes that it writes.\<close>

fun program_poll :: "wire \<Rightarrow> cbor \<Rightarrow> ('q, 's, 'r) caller \<Rightarrow> ('s \<Rightarrow> channel) \<Rightarrow>
    (connection \<Rightarrow> (error, 's) result) \<Rightarrow> 'q list \<Rightarrow> ('q, 's, 'r) program \<Rightarrow>
    (('q, 's, 'r) program \<times> byte list) option" where
  "program_poll w c call chan start qs (Shaking a s) = map_option
     (\<lambda>(r, s'). (begin_calls start qs r s', drop (length (hs_sent s)) (hs_sent s'))) (hs_poll w c a s)"
| "program_poll w c call chan start qs (Using (Calling qs' a got s)) = map_option
     (\<lambda>(p, s'). (Using (user_after p s'),
        drop (length (cn_sent (ch_conn (chan s)))) (cn_sent (ch_conn (chan s')))))
     (run_calls call qs' a got s)"
| "program_poll w c call chan start qs program = Some (program, [])"

fun program_hears :: "('s \<Rightarrow> channel) \<Rightarrow> (channel \<Rightarrow> 's \<Rightarrow> 's) \<Rightarrow> byte list \<Rightarrow>
    ('q, 's, 'r) program \<Rightarrow> ('q, 's, 'r) program" where
  "program_hears chan with_chan bytes (Shaking a s) = Shaking a (hs_late bytes s)"
| "program_hears chan with_chan bytes (Using (Calling qs a got s)) =
     Using (Calling qs a got (with_chan (late bytes (chan s)) s))"
| "program_hears chan with_chan bytes program = program"

fun program_task :: "wire \<Rightarrow> ('s \<Rightarrow> channel) \<Rightarrow> (channel \<Rightarrow> 's \<Rightarrow> 's) \<Rightarrow>
    ('q, 's, 'r) program \<Rightarrow> ('q, 's, 'r) program" where
  "program_task w chan with_chan (Shaking a s) = Shaking a (hs_polled w s)"
| "program_task w chan with_chan (Using (Calling qs a got s)) = Using (Calling qs a got
     (with_chan ((chan s)\<lparr>ch_conn := demux_poll w (ch_conn (chan s))\<rparr>) s))"
| "program_task w chan with_chan program = program"

section \<open>A session\<close>

text \<open>
  The script is \<open>None\<close> once the node has received a frame that it does not expect; \<open>ss_clock\<close> gives
  the times on the frames it writes.
\<close>

record ('q, 's, 'r) session =
  ss_program :: "('q, 's, 'r) program"
  ss_script :: "(u16 \<times> payload) peer_step list option"
  ss_clock :: "nat \<Rightarrow> nat"
  ss_got :: "byte list"
  ss_to_program :: "byte list"
  ss_to_node :: "byte list"

inductive session_step :: "wire \<Rightarrow> cbor \<Rightarrow> ('q, 's, 'r) caller \<Rightarrow> ('s \<Rightarrow> channel) \<Rightarrow>
    (channel \<Rightarrow> 's \<Rightarrow> 's) \<Rightarrow> (connection \<Rightarrow> (error, 's) result) \<Rightarrow> 'q list \<Rightarrow>
    ('q, 's, 'r) session \<Rightarrow> ('q, 's, 'r) session \<Rightarrow> bool" for w c call chan with_chan start qs where
  program_polls: "program_poll w c call chan start qs (ss_program t) = Some (program, bytes) \<Longrightarrow>
    session_step w c call chan with_chan start qs t
      (t\<lparr>ss_program := program, ss_to_node := ss_to_node t @ bytes\<rparr>)"
| bytes_arrive: "ss_to_program t = bytes @ rest \<Longrightarrow>
    session_step w c call chan with_chan start qs t
      (t\<lparr>ss_program := program_hears chan with_chan bytes (ss_program t), ss_to_program := rest\<rparr>)"
| task_runs: "session_step w c call chan with_chan start qs t
    (t\<lparr>ss_program := program_task w chan with_chan (ss_program t)\<rparr>)"
| node_says: "ss_script t = Some (Say (idx, p) # script) \<Longrightarrow>
    session_step w c call chan with_chan start qs t
      (t\<lparr>ss_script := Some script, ss_clock := (\<lambda>k. ss_clock t (Suc k)),
         ss_to_program := ss_to_program t @ frame w (ss_clock t 0) idx p\<rparr>)"
| node_expects: "ss_script t = Some (Expect f # script) \<Longrightarrow>
    next_frame w (ss_got t) = Some (f', rest) \<Longrightarrow>
    session_step w c call chan with_chan start qs t
      (t\<lparr>ss_script := if f' = f then Some script else None, ss_got := rest\<rparr>)"
| node_hears: "ss_to_node t = bytes @ rest \<Longrightarrow>
    session_step w c call chan with_chan start qs t
      (t\<lparr>ss_got := ss_got t @ bytes, ss_to_node := rest\<rparr>)"

inductive session_reaches :: "wire \<Rightarrow> cbor \<Rightarrow> ('q, 's, 'r) caller \<Rightarrow> ('s \<Rightarrow> channel) \<Rightarrow>
    (channel \<Rightarrow> 's \<Rightarrow> 's) \<Rightarrow> (connection \<Rightarrow> (error, 's) result) \<Rightarrow> 'q list \<Rightarrow>
    ('q, 's, 'r) session \<Rightarrow> ('q, 's, 'r) session \<Rightarrow> bool" for w c call chan with_chan start qs where
  here: "session_reaches w c call chan with_chan start qs t t"
| there: "session_reaches w c call chan with_chan start qs t t' \<Longrightarrow>
    session_step w c call chan with_chan start qs t' t'' \<Longrightarrow>
    session_reaches w c call chan with_chan start qs t t''"

lemma session_reaches_trans:
  "session_reaches w c call chan with_chan start qs t' t'' \<Longrightarrow>
    session_reaches w c call chan with_chan start qs t t' \<Longrightarrow>
    session_reaches w c call chan with_chan start qs t t''"
  by (induction rule: session_reaches.induct) (auto intro: session_reaches.there)

definition session_opened :: "handshake \<Rightarrow> (u16 \<times> payload) peer_step list \<Rightarrow> (nat \<Rightarrow> nat) \<Rightarrow>
    ('q, 's, 'r) session" where
  "session_opened s script clock =
     \<lparr>ss_program = Shaking None s, ss_script = Some script, ss_clock = clock, ss_got = [],
      ss_to_program = [], ss_to_node = []\<rparr>"

text \<open>
  A session that passes: whatever the schedule, the node meets no frame it does not expect, the
  program no failure, and a program that is through has the results \<open>goal\<close>; and every schedule can
  be completed.
\<close>

definition session_passes :: "wire \<Rightarrow> cbor \<Rightarrow> ('q, 's, 'r) caller \<Rightarrow> ('s \<Rightarrow> channel) \<Rightarrow>
    (channel \<Rightarrow> 's \<Rightarrow> 's) \<Rightarrow> (connection \<Rightarrow> (error, 's) result) \<Rightarrow> 'q list \<Rightarrow>
    ('q, 's, 'r) session \<Rightarrow> 'r list \<Rightarrow> bool" where
  "session_passes w c call chan with_chan start qs opened goal \<longleftrightarrow>
     (\<forall>t. session_reaches w c call chan with_chan start qs opened t \<longrightarrow>
        ss_script t \<noteq> None \<and>
        (case ss_program t of
           Shaking a s \<Rightarrow> True
         | Refused f \<Rightarrow> False
         | Using (Calling qs' a got s) \<Rightarrow> True
         | Using (Finished got s) \<Rightarrow> got = goal
         | Using (Stopped f got s) \<Rightarrow> False) \<and>
        (\<exists>t' s. session_reaches w c call chan with_chan start qs t t' \<and> ss_script t' = Some [] \<and>
           ss_program t' = Using (Finished goal s)))"

section \<open>The calls of a program and the node\<close>

text \<open>
  A script on one channel that the user, whose future is \<open>future\<close>, and the node will go through:
  what the user writes are the frames that the script expects, each from no more than what it has
  said before.
\<close>

definition node_plays :: "wire \<Rightarrow> u16 \<Rightarrow> u16 \<Rightarrow> (byte list \<Rightarrow> byte list \<times> ('q, 'r) progress) \<Rightarrow>
    byte list \<Rightarrow> byte list \<Rightarrow> (nat \<Rightarrow> nat) \<Rightarrow> payload peer_step list \<Rightarrow> ('q, 'r) progress \<Rightarrow> bool" where
  "node_plays w own other future to_user away clock script goal \<longleftrightarrow>
     (\<forall>pre p post. script = pre @ Expect p # post \<longrightarrow> (\<exists>r. framed w own (asked pre @ p # r)
        (away @ fst (future (to_user @ said w other clock pre))))) \<and>
     snd (future (to_user @ said w other clock script)) = goal"

lemma node_playsD:
  assumes "node_plays w own other future to_user away clock script goal"
  shows "script = pre @ Expect p # post \<Longrightarrow> \<exists>r. framed w own (asked pre @ p # r)
      (away @ fst (future (to_user @ said w other clock pre)))"
    and "snd (future (to_user @ said w other clock script)) = goal"
  using assms unfolding node_plays_def by blast+

lemma node_plays_user:
  assumes "node_plays w own other future to_user away clock script goal"
    and "\<And>x. away' @ fst (future' (to_user' @ x)) = away @ fst (future (to_user @ x))"
    and "\<And>x. snd (future' (to_user' @ x)) = snd (future (to_user @ x))"
  shows "node_plays w own other future' to_user' away' clock script goal"
  using assms(1) unfolding node_plays_def assms(2,3) .

lemma node_plays_says:
  assumes "node_plays w own other future to_user away clock (Say p # script) goal"
  shows "node_plays w own other future (to_user @ frame w (clock 0) other p) away
    (\<lambda>k. clock (Suc k)) script goal"
  unfolding node_plays_def
proof (intro conjI allI impI)
  fix pre q post assume "script = pre @ Expect q # post"
  then have "Say p # script = (Say p # pre) @ Expect q # post" by simp
  from node_playsD(1)[OF assms this] show "\<exists>r. framed w own (asked pre @ q # r) (away @
      fst (future ((to_user @ frame w (clock 0) other p) @ said w other (\<lambda>k. clock (Suc k)) pre)))"
    by simp
qed (use node_playsD(2)[OF assms] in simp)

lemma node_plays_expects:
  assumes "node_plays w own other future to_user (got @ away) clock (Expect p # script) goal"
    and "wire_ok w" and "next_frame w got = Some (f, rest)"
  shows "f = (own, p) \<and> node_plays w own other future to_user (rest @ away) clock script goal"
proof -
  have first: "f = (own, p) \<and> framed w own (asked pre @ ps)
      (rest @ away @ fst (future (to_user @ said w other clock pre)))"
    if "framed w own (asked (Expect p # pre) @ ps)
      ((got @ away) @ fst (future (to_user @ said w other clock pre)))" for pre ps
    using framed_first_later[OF _ assms(2,3), of own p "asked pre @ ps"] that by simp
  obtain r where r: "framed w own (asked [] @ p # r)
      ((got @ away) @ fst (future (to_user @ said w other clock [])))"
    using node_playsD(1)[OF assms(1), of "[]" p script] by auto
  have "node_plays w own other future to_user (rest @ away) clock script goal"
    unfolding node_plays_def
  proof (intro conjI allI impI)
    fix pre q post assume "script = pre @ Expect q # post"
    then have "Expect p # script = (Expect p # pre) @ Expect q # post" by simp
    from node_playsD(1)[OF assms(1) this] obtain r where "framed w own
        (asked (Expect p # pre) @ q # r) ((got @ away) @ fst (future (to_user @ said w other clock pre)))"
      by auto
    from first[OF this] show "\<exists>r. framed w own (asked pre @ q # r)
        ((rest @ away) @ fst (future (to_user @ said w other clock pre)))" by auto
  qed (use node_playsD(2)[OF assms(1)] in simp)
  with first[of "[]" r] r show ?thesis by simp
qed

context resumable_calls
begin

abbreviation session_steps where
  "session_steps w c \<equiv> session_step w c (call w c) chan with_chan"

abbreviation session_runs where
  "session_runs w c \<equiv> session_reaches w c (call w c) chan with_chan"

definition serving :: "wire \<Rightarrow> cbor \<Rightarrow> u16 \<Rightarrow> u16 \<Rightarrow> 'r list \<Rightarrow> ('q, 's, 'r) session \<Rightarrow> bool" where
  "serving w c own other goal t \<longleftrightarrow> (\<exists>user script. ss_program t = Using user \<and> listening user \<and>
     ss_script t = Some (map (on_channel own other) script) \<and>
     node_plays w own other (future w c user) (ss_to_program t) (ss_got t @ ss_to_node t)
       (ss_clock t) script (Ends goal))"

lemma serving_user:
  assumes "serving w c own other goal t" and "ss_program t = Using user" and "listening user'"
    and "\<And>x. away' @ fst (future w c user' (to_user' @ x)) =
      ss_to_node t @ fst (future w c user (ss_to_program t @ x))"
    and "\<And>x. snd (future w c user' (to_user' @ x)) = snd (future w c user (ss_to_program t @ x))"
  shows "serving w c own other goal
    (t\<lparr>ss_program := Using user', ss_to_program := to_user', ss_to_node := away'\<rparr>)"
proof -
  from assms(1,2) obtain script where "ss_script t = Some (map (on_channel own other) script)"
      "node_plays w own other (future w c user) (ss_to_program t) (ss_got t @ ss_to_node t)
        (ss_clock t) script (Ends goal)"
    by (auto simp: serving_def)
  moreover from node_plays_user[OF this(2), where future' = "future w c user'" and to_user' = to_user'
      and away' = "ss_got t @ away'"] assms(4,5)
  have "node_plays w own other (future w c user') to_user' (ss_got t @ away')
      (ss_clock t) script (Ends goal)" by simp
  ultimately show ?thesis using assms(3) by (auto simp: serving_def)
qed

lemma serving_polls:
  assumes "cbor_progress c" and "serving w c own other goal t"
    and poll: "program_poll w c (call w c) chan start qs (ss_program t) = Some (program, bytes)"
  shows "serving w c own other goal (t\<lparr>ss_program := program, ss_to_node := ss_to_node t @ bytes\<rparr>)"
proof -
  from assms(2) obtain user where user: "ss_program t = Using user" "listening user"
    by (auto simp: serving_def)
  show ?thesis
  proof (cases user)
    case (Calling qs' a got s)
    with poll user(1) obtain p s' where p: "run w c qs' a got s = Some (p, s')"
        "program = Using (user_after p s')" "bytes = drop (length (written s)) (written s')"
      by (auto simp: written_def)
    obtain d where "written s' = written s @ d" by (rule run_sender[OF assms(1) p(1)])
    with p(3) have "written s' = written s @ bytes" by simp
    from future_after[OF assms(1) p(1) _ this] user(2) Calling p(2)
    have "serving w c own other goal (t\<lparr>ss_program := program, ss_to_program := ss_to_program t,
        ss_to_node := ss_to_node t @ bytes\<rparr>)"
      unfolding p(2) by (intro serving_user[OF assms(2) user(1)]) simp_all
    then show ?thesis by simp
  qed (use poll user assms(2) in \<open>auto simp: serving_def\<close>)
qed

lemma serving_hears:
  assumes "serving w c own other goal t" and "ss_to_program t = bytes @ rest"
  shows "serving w c own other goal
    (t\<lparr>ss_program := program_hears chan with_chan bytes (ss_program t), ss_to_program := rest\<rparr>)"
proof -
  from assms(1) obtain user script where user: "ss_program t = Using user" "listening user"
      "node_plays w own other (future w c user) (ss_to_program t) (ss_got t @ ss_to_node t)
        (ss_clock t) script (Ends goal)"
    by (auto simp: serving_def)
  note after = serving_user[OF assms(1) user(1)]
  show ?thesis
  proof (cases user)
    case (Calling qs' a got s)
    have "serving w c own other goal (t\<lparr>ss_program := Using (Calling qs' a got (heard bytes s)),
        ss_to_program := rest, ss_to_node := ss_to_node t\<rparr>)"
      using user(2) assms(2) Calling by (intro after) (simp_all add: run_on_heard)
    with user(1) Calling show ?thesis by (simp add: heard_def)
  next
    case (Finished got s)
    then have "serving w c own other goal (t\<lparr>ss_program := Using user,
        ss_to_program := rest, ss_to_node := ss_to_node t\<rparr>)"
      by (intro after) simp_all
    with user(1) Finished show ?thesis by simp
  next
    case (Stopped f got s)
    with user(3) show ?thesis by (simp add: node_plays_def)
  qed
qed

lemma serving_task:
  assumes "cbor_progress c" and "serving w c own other goal t"
  shows "serving w c own other goal (t\<lparr>ss_program := program_task w chan with_chan (ss_program t)\<rparr>)"
proof -
  from assms(2) obtain user where user: "ss_program t = Using user" "listening user"
    by (auto simp: serving_def)
  show ?thesis
  proof (cases user)
    case (Calling qs' a got s)
    let ?ch = "(chan s)\<lparr>ch_conn := demux_poll w (ch_conn (chan s))\<rparr>"
    have "caught_up w [] (chan s) ?ch" by (simp add: caught_up_def conn_arrive_def)
    from run_on_caught_up[OF assms(1) _ this] caught_up_chan(2)[OF this] user(2) Calling
    have "serving w c own other goal (t\<lparr>ss_program := Using (Calling qs' a got (with_chan ?ch s)),
        ss_to_program := ss_to_program t, ss_to_node := ss_to_node t\<rparr>)"
      by (intro serving_user[OF assms(2) user(1)]) simp_all
    with user(1) Calling show ?thesis by simp
  qed (use user(1) assms(2) in \<open>auto simp: serving_def\<close>)
qed

lemma serving_step:
  assumes "cbor_progress c" "wire_ok w" and "serving w c own other goal t"
    and "session_steps w c start qs t t'"
  shows "serving w c own other goal t'"
proof -
  from assms(3) obtain user script where inv: "ss_program t = Using user" "listening user"
      "ss_script t = Some (map (on_channel own other) script)"
      "node_plays w own other (future w c user) (ss_to_program t) (ss_got t @ ss_to_node t)
        (ss_clock t) script (Ends goal)"
    by (auto simp: serving_def)
  from assms(4) show ?thesis
  proof cases
    case (node_says idx p rest)
    with inv(3) obtain script' q where script: "script = Say q # script'" "idx = other" "q = p"
        "rest = map (on_channel own other) script'"
      by (cases script; cases "hd script") auto
    from node_plays_says[OF inv(4)[unfolded script(1)]] inv(1,2) node_says(1) script
    show ?thesis by (auto simp: serving_def)
  next
    case (node_expects f rest f' got')
    with inv(3) obtain script' q where script: "script = Expect q # script'" "f = (own, q)"
        "rest = map (on_channel own other) script'"
      by (cases script; cases "hd script") auto
    from node_plays_expects[OF inv(4)[unfolded script(1)] assms(2) node_expects(3)] inv(1,2)
      node_expects(1) script
    show ?thesis by (auto simp: serving_def)
  next
    case (node_hears bytes rest)
    with inv show ?thesis by (auto simp: serving_def)
  qed (use serving_polls[OF assms(1,3)] serving_hears[OF assms(3)] serving_task[OF assms(1,3)] in blast)+
qed

lemma serving_reaches:
  assumes "session_runs w c start qs t t'" and "cbor_progress c" "wire_ok w"
    and "serving w c own other goal t"
  shows "serving w c own other goal t'"
  using assms by (induction rule: session_reaches.induct) (auto intro: serving_step)

text \<open>From every state the program can be brought all bytes and polled.\<close>

lemma serving_serves_program:
  assumes "cbor_progress c" "wire_ok w" and "serving w c own other goal t"
  obtains t' user where "session_runs w c start qs t t'" "ss_script t' = ss_script t"
    "serving w c own other goal t'" "ss_program t' = Using user"
    "(\<exists>s. user = Finished goal s) \<or> ss_script t \<noteq> Some [] \<and>
      fst (future w c user (ss_to_program t')) = []"
proof -
  from assms(3) obtain user script where inv: "ss_program t = Using user" "listening user"
      "ss_script t = Some (map (on_channel own other) script)"
      "node_plays w own other (future w c user) (ss_to_program t) (ss_got t @ ss_to_node t)
        (ss_clock t) script (Ends goal)"
    by (auto simp: serving_def)
  show thesis
  proof (cases user)
    case (Calling qs' a got s)
    let ?s = "heard (ss_to_program t) s"
    obtain p s' where run: "run w c qs' a got ?s = Some (p, s')" using run_returns[OF assms(1)] by blast
    then obtain bytes where bytes: "written s' = written ?s @ bytes" by (rule run_sender[OF assms(1)])
    let ?t = "t\<lparr>ss_program := Using (Calling qs' a got ?s), ss_to_program := []\<rparr>"
    let ?t' = "?t\<lparr>ss_program := Using (user_after p s'), ss_to_node := ss_to_node t @ bytes\<rparr>"
    have "session_steps w c start qs t ?t"
      using session_step.bytes_arrive[of t "ss_to_program t" "[]"] inv(1) Calling
      by (simp add: heard_def)
    moreover have "session_steps w c start qs ?t ?t'"
      using session_step.program_polls[of w c "call w c" chan start qs ?t "Using (user_after p s')" bytes
          with_chan] run bytes
      by (simp add: written_def)
    ultimately have reach: "session_runs w c start qs t ?t'" by (blast intro: session_reaches.intros)
    have serving: "serving w c own other goal ?t'" by (rule serving_reaches[OF reach assms])
    have eof: "open_stream ?s" using inv(2) Calling by simp
    have "run_on w c qs' a got s (ss_to_program t) = run_on w c qs' a got ?s []"
      by (simp add: run_on_heard)
    also have "\<dots> = (bytes @ fst (future w c (user_after p s') []), snd (future w c (user_after p s') []))"
      by (rule future_after(1)[OF assms(1) run eof bytes])
    finally have now: "snd (future w c (user_after p s') []) = Ends goal" if "script = []"
      using node_playsD(2)[OF inv(4)] that by (simp add: Calling)
    have "(\<exists>s. user_after p s' = Finished goal s) \<or> ss_script t \<noteq> Some [] \<and>
        fst (future w c (user_after p s') []) = []"
    proof (cases p)
      case (Waits qs2 l got')
      have "run w c qs2 (Some l) got' s' = Some (Waits qs2 l got', s')"
        by (rule run_waits_again[OF assms(1) run[unfolded Waits] eof])
      then have "run_on w c qs2 (Some l) got' s' [] = ([], Waits qs2 l got')"
        by (intro run_onI) simp_all
      with now inv(3) Waits show ?thesis by auto
    qed (use serving in \<open>auto simp: serving_def node_plays_def\<close>)
    with that[OF reach _ serving] show thesis by simp
  next
    case (Finished got s)
    with inv(4) have "got = goal" by (simp add: node_plays_def)
    with that[OF session_reaches.here refl assms(3) inv(1)] Finished show thesis by simp
  next
    case (Stopped f got s)
    with inv(4) show thesis by (simp add: node_plays_def)
  qed
qed

text \<open>Then the node can go on in its script.\<close>

lemma serving_serves_node:
  assumes "wire_ok w" and "serving w c own other goal t" and "ss_program t = Using user"
    and "ss_script t = Some (st # script)" and "fst (future w c user (ss_to_program t)) = []"
  obtains t' where "session_runs w c start qs t t'" "ss_script t' = Some script"
proof -
  from assms(2-4) obtain st' script' where inv: "st = on_channel own other st'"
      "node_plays w own other (future w c user) (ss_to_program t) (ss_got t @ ss_to_node t)
        (ss_clock t) (st' # script') (Ends goal)"
    by (auto simp: serving_def)
  show thesis
  proof (cases st')
    case (Say p)
    with session_step.node_says[of t other p script] assms(4) inv(1) that show thesis
      by (fastforce intro: session_reaches.intros)
  next
    case (Expect p)
    let ?t = "t\<lparr>ss_got := ss_got t @ ss_to_node t, ss_to_node := []\<rparr>"
    obtain r where "framed w own (p # r) (ss_got t @ ss_to_node t)"
      using node_playsD(1)[OF inv(2), of "[]" p script'] Expect assms(5) by auto
    then obtain rest where rest: "next_frame w (ss_got t @ ss_to_node t) = Some ((own, p), rest)"
      using assms(1) by (rule framed_first)
    have "session_steps w c start qs t ?t" by (rule session_step.node_hears) simp
    moreover have "session_steps w c start qs ?t (?t\<lparr>ss_script := Some script, ss_got := rest\<rparr>)"
      using session_step.node_expects[of ?t "(own, p)" script w "(own, p)" rest] assms(4) inv(1) Expect rest
      by simp
    ultimately show thesis using that by (fastforce intro: session_reaches.intros)
  qed
qed

lemma serving_completes:
  assumes "cbor_progress c" "wire_ok w" and "serving w c own other goal t"
  shows "\<exists>t' s. session_runs w c start qs t t' \<and> ss_script t' = Some [] \<and>
    ss_program t' = Using (Finished goal s)"
proof -
  from assms(3) obtain script where "ss_script t = Some script" by (auto simp: serving_def)
  with assms(3) show ?thesis
  proof (induction script arbitrary: t)
    case Nil
    obtain t1 user where "session_runs w c start qs t t1" "ss_script t1 = ss_script t"
        "ss_program t1 = Using user" "\<exists>s. user = Finished goal s"
      by (rule serving_serves_program[OF assms(1,2) Nil.prems(1)]) (use Nil.prems(2) in auto)
    with Nil.prems(2) show ?case by auto
  next
    case (Cons st script)
    obtain t1 user where t1: "session_runs w c start qs t t1" "ss_script t1 = ss_script t"
      "serving w c own other goal t1" "ss_program t1 = Using user"
      "fst (future w c user (ss_to_program t1)) = []"
      by (rule serving_serves_program[OF assms(1,2) Cons.prems(1)]) auto
    obtain t2 where t2: "session_runs w c start qs t1 t2" "ss_script t2 = Some script"
      by (rule serving_serves_node[OF assms(2) t1(3,4) _ t1(5)]) (use t1(2) Cons.prems(2) in auto)
    from Cons.IH[OF serving_reaches[OF t2(1) assms(1,2) t1(3)] t2(2)] show ?case
      using session_reaches_trans[OF _ t1(1)] session_reaches_trans[OF _ t2(1)] by metis
  qed
qed

text \<open>What the node may see of a state in which the program makes its calls.\<close>

lemma serving_fine:
  assumes "serving w c own other goal t"
  shows "ss_script t \<noteq> None" and "case ss_program t of
      Shaking a s \<Rightarrow> True
    | Refused f \<Rightarrow> False
    | Using (Calling qs' a got s) \<Rightarrow> True
    | Using (Finished got s) \<Rightarrow> got = goal
    | Using (Stopped f got s) \<Rightarrow> False"
  using assms by (auto simp: serving_def node_plays_def split: user.split)

lemma serving_starts:
  assumes "follows w c own other (ss_clock t) qs [] s script goal"
    and "ss_program t = Using (Calling qs None [] s)"
    and "ss_script t = Some (map (on_channel own other) script)"
    and "ss_got t = []" "ss_to_program t = []" "ss_to_node t = []"
  shows "serving w c own other goal t"
proof -
  have "node_plays w own other (future w c (Calling qs None [] s)) [] [] (ss_clock t) script (Ends goal)"
    using assms(1) by (auto simp: follows_def node_plays_def)
  moreover have "open_stream s" using assms(1) by (simp add: follows_def)
  ultimately show ?thesis using assms(2-6) by (auto simp: serving_def)
qed

end

end
