(* ===== verification/Handshake_Plays.thy ===== *)
theory Handshake_Plays
  imports Play_Rounds Handshake_Link
begin

unbundle bit_operations_syntax

text \<open>
  A client or server of the handshake against a peer that follows a script, under every schedule.
\<close>

section \<open>The calls of a user\<close>

text \<open>A user of a handshake: its call, and an assertion on its state.\<close>

datatype hs_use = Negotiate | HsStateIs hs_state

datatype hs_used = Negotiated version u32 | HsStateSeen

definition hs_assert_state :: "hs_state \<Rightarrow> (handshake, error, hs_used) op" where
  "hs_assert_state q s = (if hs_state s = q then Inr HsStateSeen else Inl (Panic AssertPanic), s)"

fun hs_calling :: "wire \<Rightarrow> cbor \<Rightarrow> (hs_use, handshake, hs_used) caller" where
  "hs_calling w c Negotiate a =
     bind_t (hs_poll w c a) (\<lambda>(v, magic). sync_t (ret_s (Negotiated v magic)))"
| "hs_calling w c (HsStateIs q) a = sync_t (hs_assert_state q)"

interpretation hs_plays: resumable_calls hs_channel "\<lambda>ch s. s\<lparr>hs_channel := ch\<rparr>" hs_calling
proof (unfold_locales)
  fix w :: wire and c :: cbor and q :: hs_use
  assume progress: "cbor_progress c"
  let ?set = "\<lambda>ch s. s\<lparr>hs_channel := ch\<rparr>"
  have sel: "pr_channel (hs_protocol c) = hs_channel" "pr_set_channel (hs_protocol c) = ?set"
    by (simp_all add: hs_protocol_def)
  show "resumable w hs_channel ?set (hs_calling w c q)"
  proof (cases q)
    case Negotiate
    have "resumable w hs_channel ?set
        (\<lambda>a. bind_t (hs_poll w c a) (\<lambda>x. sync_t (ret_s (Negotiated (fst x) (snd x)))))"
      by (rule hs.resumable_bind[where c = c, unfolded sel, OF resumable_negotiate[OF progress]])
        (simp add: ret_s_def)
    moreover have "hs_calling w c q =
        (\<lambda>a. bind_t (hs_poll w c a) (\<lambda>x. sync_t (ret_s (Negotiated (fst x) (snd x)))))"
      by (simp add: Negotiate fun_eq_iff split_def)
    ultimately show ?thesis by simp
  next
    case (HsStateIs q')
    then have "hs_calling w c q = (\<lambda>a. sync_t (hs_assert_state q'))" by (simp add: fun_eq_iff)
    then show ?thesis
      using hs.resumable_sync[where c = c, unfolded sel, of "hs_assert_state q'" w]
      by (simp add: hs_assert_state_def)
  qed
qed simp_all

section \<open>Negotiating with a script\<close>

text \<open>Both sides check their state, negotiate and check it again.\<close>

abbreviation hs_uses :: "hs_use list" where
  "hs_uses \<equiv> [HsStateIs Propose, Negotiate, HsStateIs HsDone]"

abbreviation hs_seen :: "version \<Rightarrow> u32 \<Rightarrow> hs_used list" where
  "hs_seen v magic \<equiv> [HsStateSeen, Negotiated v magic, HsStateSeen]"

lemma hs_opened_ready:
  assumes "fresh conn" and "s = hs_with_channel b role (connection_channel idx conn)"
  shows "hs_ready role [] s" "hs_plays.open_stream s" "hs_state s = Propose"
  using assms(1) by (simp_all add: assms(2) fresh_def hs_ready_def hs_with_channel_def quiet_def writable_def
      connection_channel_def run_demux_def register_def hs_plays.open_stream_def)

lemma hs_use_returns:
  assumes "negotiate w c s = Some (Ready (Inr (v, magic)), t)" and "hs_state t = HsDone"
  shows "run_calls (hs_calling w c) [Negotiate, HsStateIs HsDone] None [HsStateSeen] s =
    Some (Ends (hs_seen v magic), t)"
  using assms by (simp add: hs_poll_def bind_t_def sync_t_def ret_s_def hs_assert_state_def)

lemma hs_sent_last:
  assumes "hs_channel t = feed [] ps (sent w data ch)" and "same_sender (ch_conn ch) conn"
    and "ch_idx ch = idx" and "roomy conn" and "length data < 65536"
  shows "hs_plays.written t = cn_sent conn @ frame w (cn_clock conn 0) idx data"
  using same_sender_sent[OF assms(2), of w idx data] roomy_sent[OF assms(4,5)]
  by (simp add: hs_plays.written_def assms(1,3))

text \<open>The client that is polled when its acceptance has arrived.\<close>

lemma hs_client_accepted:
  assumes "wire_ok w" "cbor_stream c" "cbor_order c" and "fresh conn" "roomy conn"
    and "hs_configured b" and "v \<in> set (hb_versions b)" and "hs_wf (AcceptVersion v (hb_magic b))"
    and "length (hs_bytes c (hb_proposal b)) < 65536"
    and "length (hs_bytes c (AcceptVersion v (hb_magic b))) < 65536"
    and s: "s = hs_with_channel b Client (connection_channel 0 conn)"
  obtains t data where "negotiate w c (hs_hear w
      [frame w time 0x8000 (hs_bytes c (AcceptVersion v (hb_magic b)))] s) =
        Some (Ready (Inr (v, hb_magic b)), t)" "hs_state t = HsDone"
    "hs_plays.written t = hs_plays.written s @
      frame w (cn_clock conn 0) 0 (hs_bytes c (hb_proposal b))"
    "tuned 0 data (hs_channel t)" "roomy (ch_conn (hs_channel t))"
proof -
  let ?ask = "hs_bytes c (hb_proposal b)" and ?answer = "hs_bytes c (AcceptVersion v (hb_magic b))"
  let ?says = "frame w time 0x8000 ?answer"
  have conn: "same_sender (ch_conn (hs_channel s)) conn" "ch_idx (hs_channel s) = 0"
    by (simp_all add: s hs_with_channel_def connection_channel_def run_demux_def same_sender_def)
  have says: "peer_writes w (map (Pair 0x8000) [?answer]) (concat [?says])"
    using said_peer_writes[of "[?answer]" w "0x8000" "\<lambda>k. time"] assms(10) by simp
  obtain ps where ps: "hs_ready Client ps (hs_hear w [?says] s)" "concat ps = ?answer"
      "hs_versions (hs_hear w [?says] s) = hb_versions b"
      "hs_network_magic (hs_hear w [?says] s) = hb_magic b"
      "hs_proposal (hs_hear w [?says] s) = hb_proposal b" "tuned 0 (concat ps) (hs_channel (hs_hear w [?says] s))"
    by (rule hs_open_hears[OF assms(1,4) says, of "hs_hear w [?says] s" b Client 0])
      (auto simp: s payloads_for_def)
  have "pr_to_bytes (hs_protocol c) (hb_proposal b) = Inr ?ask"
    by (rule hs_bytes_encodes(1)[OF assms(2,3) hb_wf(1)[OF assms(6)]])
  with hs_client_run[OF assms(2,3) ps(1) _ assms(8) ps(2), of ?ask w] ps(3-5) assms(7)
  obtain t ps' where t: "negotiate w c (hs_hear w [?says] s) = Some (Ready (Inr (v, hb_magic b)), t)"
      "hs_state t = HsDone" "hs_channel t = feed [] ps' (sent w ?ask (hear w [?says] (hs_channel s)))"
    by (auto simp: hs_verdict_def hs_hear_def)
  have sender: "same_sender (ch_conn (hear w [?says] (hs_channel s))) conn" using conn(1) by simp
  moreover have idx: "ch_idx (hear w [?says] (hs_channel s)) = 0" using conn(2) by (simp add: hear_def)
  ultimately have "hs_plays.written t = hs_plays.written s @ frame w (cn_clock conn 0) 0 ?ask"
    using hs_sent_last[OF t(3) _ _ assms(5,9)] conn(1)
    by (simp add: hs_plays.written_def same_sender_def)
  moreover have "tuned 0 (concat ps') (hs_channel t)"
    unfolding t(3) using tuned_feed[OF tuned_sent[OF ps(6)] refl] by (simp add: hs_hear_def)
  moreover have "roomy (ch_conn (hs_channel t))"
    using roomy_same_sender[OF sender] assms(5) by (simp add: t(3) feed_def)
  ultimately show thesis using that t(1,2) by blast
qed

lemma hs_client_follows:
  assumes "wire_ok w" "cbor_stream c" "cbor_order c" "cbor_progress c"
    and "fresh conn" "roomy conn" and "hs_configured b" and "v \<in> set (hb_versions b)"
    and "hs_wf (AcceptVersion v (hb_magic b))"
    and "length (hs_bytes c (hb_proposal b)) < 65536"
    and "length (hs_bytes c (AcceptVersion v (hb_magic b))) < 65536"
  shows "hs_plays.follows w c 0 0x8000 clock hs_uses []
    (hs_with_channel b Client (connection_channel 0 conn))
    [Expect (hs_bytes c (hb_proposal b)), Say (hs_bytes c (AcceptVersion v (hb_magic b)))]
    (hs_seen v (hb_magic b))"
proof -
  obtain s where s: "s = hs_with_channel b Client (connection_channel 0 conn)" by blast
  let ?ask = "hs_bytes c (hb_proposal b)" and ?answer = "hs_bytes c (AcceptVersion v (hb_magic b))"
  let ?says = "said w 0x8000 clock (map Say [?answer])"
  let ?frame = "frame w (cn_clock conn 0) 0 ?ask"
  note ready = hs_opened_ready[OF assms(5) s]
  have proposal: "hs_proposal s = hb_proposal b"
    by (simp add: s hs_with_channel_def hs_proposal_def hb_proposal_def)
  have conn: "same_sender (ch_conn (hs_channel s)) conn" "ch_idx (hs_channel s) = 0"
    by (simp_all add: s hs_with_channel_def connection_channel_def run_demux_def same_sender_def)
  then have before: "hs_plays.written s = cn_sent conn"
    by (simp add: hs_plays.written_def same_sender_def)
  have enc: "pr_to_bytes (hs_protocol c) (hs_proposal s) = Inr ?ask"
    using hs_bytes_encodes(1)[OF assms(2,3) hb_wf(1)[OF assms(7)]] by (simp add: proposal)
  let ?wait = "s\<lparr>hs_state := Confirm, hs_channel := feed [] [] (sent w ?ask (hs_channel s))\<rparr>"
  have waits: "negotiate w c s = Some (Pending [], ?wait)"
    by (rule hs_client_waits[OF ready(1) enc])
  have waiting: "hs_plays.written ?wait = hs_plays.written s @ ?frame"
    using hs_sent_last[OF _ conn assms(6,10), where t = ?wait] before by simp
  obtain t data where t: "negotiate w c (hs_hear w [?says] s) = Some (Ready (Inr (v, hb_magic b)), t)"
      "hs_state t = HsDone" "hs_plays.written t = hs_plays.written s @ ?frame"
      "tuned 0 data (hs_channel t)"
    by (rule hs_client_accepted[OF assms(1-3,5-11) s, of "clock 0"]) simp
  have stream: "hs_plays.open_stream t"
    using t(4) by (simp add: hs_plays.open_stream_def tuned_def)
  have "hs_plays.follows w c 0 0x8000 clock ([Negotiate, HsStateIs HsDone] @ []) [HsStateSeen] s
      (Expect ?ask # map Say [?answer] @ []) (hs_seen v (hb_magic b))"
  proof (rule hs_plays.follows_round[OF assms(4) ready(2) assms(10) _ _ waiting caught_up_hear _ t(3)])
    show "run_calls (hs_calling w c) [Negotiate, HsStateIs HsDone] None [HsStateSeen] s =
        Some (Waits [Negotiate, HsStateIs HsDone] [] [HsStateSeen], ?wait)"
      using waits by (simp add: hs_poll_def bind_t_def)
    show "run_calls (hs_calling w c) [Negotiate, HsStateIs HsDone] None [HsStateSeen]
        (s\<lparr>hs_channel := hear w [?says] (hs_channel s)\<rparr>) = Some (Ends (hs_seen v (hb_magic b)), t)"
      using hs_use_returns[OF t(1,2)] by (simp add: hs_hear_def)
    show "hs_plays.follows w c 0 0x8000 (\<lambda>k. clock (k + length [?answer])) [] (hs_seen v (hb_magic b)) t []
        (hs_seen v (hb_magic b))"
      by (rule hs_plays.follows_done[OF stream])
  qed simp
  then show ?thesis
    unfolding s[symmetric] using ready(3)
    by (intro hs_plays.follows_instant[where r = HsStateSeen and q = "HsStateIs Propose"])
      (simp_all add: hs_assert_state_def sync_t_def)
qed

lemma hs_server_follows:
  assumes "wire_ok w" "cbor_stream c" "cbor_order c" "cbor_progress c"
    and "fresh conn" "roomy conn" and "hs_configured b" and "hs_wf proposal"
    and "length (hs_bytes c proposal) < 65536" and "length (hs_bytes c (hb_acceptance b)) < 65536"
  shows "hs_plays.follows w c 0x8000 0 clock hs_uses []
    (hs_with_channel b Server (connection_channel 0x8000 conn))
    [Say (hs_bytes c proposal), Expect (hs_bytes c (hb_acceptance b))]
    (hs_seen (last (hb_versions b)) (hb_magic b))"
proof -
  obtain s where s: "s = hs_with_channel b Server (connection_channel 0x8000 conn)" by blast
  let ?ask = "hs_bytes c proposal" and ?answer = "hs_bytes c (hb_acceptance b)"
  let ?goal = "hs_seen (last (hb_versions b)) (hb_magic b)"
  let ?says = "said w 0 clock (map Say [?ask])"
  note ready = hs_opened_ready[OF assms(5) s]
  have conn: "same_sender (ch_conn (hs_channel s)) conn" "ch_idx (hs_channel s) = 0x8000"
    by (simp_all add: s hs_with_channel_def connection_channel_def run_demux_def same_sender_def)
  have says: "peer_writes w (map (Pair 0) [?ask]) (concat [?says])"
    using said_peer_writes[of "[?ask]"] assms(9) by simp
  obtain ps where ps: "hs_ready Server ps (hs_hear w [?says] s)" "concat ps = ?ask"
      "hs_versions (hs_hear w [?says] s) = hb_versions b"
      "hs_network_magic (hs_hear w [?says] s) = hb_magic b"
    by (rule hs_open_hears[OF assms(1,5) says, of "hs_hear w [?says] s" b Server "0x8000"])
      (auto simp: s payloads_for_def)
  have "hs_versions (hs_hear w [?says] s) \<noteq> []"
    "hs_wf (AcceptVersion (last (hs_versions (hs_hear w [?says] s)))
      (hs_network_magic (hs_hear w [?says] s)))"
    unfolding ps(3,4) using hb_wf[OF assms(7)] by (simp_all add: hb_acceptance_def)
  from hs_server_run[OF assms(2,3) ps(1) assms(8) ps(2) this, of w, unfolded ps(3,4)]
  obtain t ps' where
    t: "negotiate w c (hs_hear w [?says] s) = Some (Ready (Inr (last (hb_versions b), hb_magic b)), t)"
      "hs_state t = HsDone" "hs_channel t = feed [] ps' (sent w ?answer (hear w [?says] (hs_channel s)))"
    by (auto simp: hb_acceptance_def hs_hear_def)
  have "same_sender (ch_conn (hear w [?says] (hs_channel s))) conn" using conn(1) by simp
  moreover have "ch_idx (hear w [?says] (hs_channel s)) = 0x8000" using conn(2) by (simp add: hear_def)
  ultimately have written: "hs_plays.written t =
      hs_plays.written s @ frame w (cn_clock conn 0) 0x8000 ?answer"
    using hs_sent_last[OF t(3) _ _ assms(6,10)] conn(1) by (simp add: hs_plays.written_def same_sender_def)
  have "hs_plays.follows w c 0x8000 0 clock [Negotiate, HsStateIs HsDone] [HsStateSeen] s
      (map Say [?ask] @ [Expect ?answer]) ?goal"
  proof (rule hs_plays.follows_last[OF assms(4) ready(2) assms(10) _ caught_up_hear _ written])
    show "run_calls (hs_calling w c) [Negotiate, HsStateIs HsDone] None [HsStateSeen]
        (s\<lparr>hs_channel := hear w [?says] (hs_channel s)\<rparr>) = Some (Ends ?goal, t)"
      using hs_use_returns[OF t(1,2)] by (simp add: hs_hear_def)
  qed simp
  then show ?thesis
    unfolding s[symmetric] using ready(3)
    by (intro hs_plays.follows_instant[where r = HsStateSeen and q = "HsStateIs Propose"])
      (simp_all add: hs_assert_state_def sync_t_def)
qed

end
