(* ===== verification/Program_Plays.thy ===== *)
theory Program_Plays
  imports Node_Sessions Handshake_Plays
begin

unbundle bit_operations_syntax

text \<open>
  Programs that shake hands and then use a client, under every schedule: the session of the
  handshake, its hand-over of the connection, and the two programs that follow the chain and fetch
  blocks.
\<close>

section \<open>The handshake of a program\<close>

text \<open>Of a frame that has arrived in part nothing is delivered.\<close>

lemma demux_part_of_frame:
  assumes "wire_ok w" and "y @ z = frame w t idx p" and "z \<noteq> []" and "length p < 65536"
  obtains task where "demux_run w False chs (AtHeader []) y = (chs, task, [])"
    "waiting False task []"
proof (cases "length y < 8")
  case True
  then show thesis
    by (intro that[of "AtHeader y"]) (simp_all add: demux_run.simps(1) read_exact_def)
next
  case False
  have "length (frame_header w t idx (length p)) = 8" using assms(1) by simp
  with False arg_cong[OF assms(2), of "take 8"] arg_cong[OF assms(2), of "drop 8"]
  have "take 8 y = frame_header w t idx (length p)" and q: "drop 8 y @ z = p"
    by (simp_all add: frame_def)
  then have "y = frame_header w t idx (length p) @ drop 8 y" by (metis append_take_drop_id)
  moreover from q assms(3) have "length (drop 8 y) < length p" by auto
  ultimately show thesis
    using assms(4) that[of "AtPayload (idx XOR 0x8000) (length p) (drop 8 y)"]
      demux_header[OF assms(1), of False chs t idx "length p" "drop 8 y"]
    by (simp add: demux_run.simps(2) read_exact_def)
qed

text \<open>
  What a client who has just been opened does when it is polled with a part of the frame that accepts
  its proposal, and when it is polled with all of it.
\<close>

lemma hs_part_waits:
  assumes "wire_ok w" "cbor_stream c" "cbor_order c" and "fresh conn" "roomy conn"
    and "hs_configured b" and "length (hs_bytes c (hb_proposal b)) < 65536"
    and "y @ z = frame w t 0x8000 p" "z \<noteq> []" "length p < 65536"
    and "s = hs_with_channel b Client (connection_channel 0 conn)"
  shows "\<exists>s'. hs_poll w c None (hs_hear w [y] s) = Some (Pending [], s') \<and>
    hs_sent s' = hs_sent s @ frame w (cn_clock conn 0) 0 (hs_bytes c (hb_proposal b))"
proof -
  let ?s = "hs_hear w [y] s" and ?ask = "hs_bytes c (hb_proposal b)"
  let ?conn = "ch_conn (hs_channel s)"
  have tuned: "tuned 0 [] (hs_channel s)" using tuned_open[OF assms(4)] by (simp add: assms(11) hs_with_channel_def)
  obtain task where task: "demux_run w False (cn_channels ?conn) (AtHeader []) y =
      (cn_channels ?conn, task, [])" "waiting False task []"
    by (rule demux_part_of_frame[OF assms(1,8-10)])
  have heard: "ch_conn (hs_channel ?s) = ?conn\<lparr>cn_demux := Some (1, task), cn_input := []\<rparr>"
    using tuned task(1) by (simp add: hs_hear_def hear_def arrivals_def conn_arrive_def demux_poll_def tuned_def)
  have "hs_ready Client [] ?s"
    using task(2) hs_opened_ready(1)[OF assms(4,11)] tuned
    by (simp add: hs_ready_def heard quiet_def writable_def tuned_def) (simp add: hs_hear_def hear_def)
  moreover have "hs_proposal ?s = hb_proposal b"
    by (simp add: assms(11) hs_hear_def hs_with_channel_def hs_proposal_def hb_proposal_def)
  ultimately have "negotiate w c ?s = Some (Pending [],
      ?s\<lparr>hs_state := Confirm, hs_channel := feed [] [] (sent w ?ask (hs_channel ?s))\<rparr>)"
    using hs_client_waits[of ?s c ?ask w] hs_bytes_encodes(1)[OF assms(2,3) hb_wf(1)[OF assms(6)]]
    by simp
  moreover have "same_sender (ch_conn (hs_channel ?s)) conn"
    by (simp add: assms(11) hs_hear_def hs_with_channel_def)
  moreover have "ch_idx (hs_channel ?s) = 0"
    by (simp add: assms(11) hs_hear_def hs_with_channel_def hear_def connection_channel_def)
  ultimately show ?thesis
    using same_sender_sent[of "ch_conn (hs_channel ?s)" conn w 0 ?ask] roomy_sent[OF assms(5,7)]
    by (simp add: hs_poll_def hs_sent_def)
      (simp add: assms(11) hs_with_channel_def connection_channel_def run_demux_def)
qed

text \<open>
  Polled again, a client that has waited does what it would have done in its first poll, had all the
  bytes been there.
\<close>

lemma hs_waiting_poll:
  assumes "cbor_progress c" and "\<not> cn_eof (ch_conn (hs_channel s))"
    and waits: "hs_poll w c None (hs_hear w [y] s) = Some (Pending l, s')"
    and "caught_up w x (hs_channel s') ch"
  shows "hs_poll w c (Some l) (s'\<lparr>hs_channel := ch\<rparr>) = hs_poll w c None (hs_hear w [y @ x] s)"
proof -
  let ?s = "hs_hear w [y] s"
  have eof: "\<not> cn_eof (ch_conn (hs_channel ?s))"
    using assms(2) by (simp add: hs_hear_def hear_def arrivals_def)
  have eof': "\<not> cn_eof (ch_conn (hs_channel s'))" using hs_poll_sender[OF assms(1) waits] eof by metis
  have "caught_up w [] (hs_channel ?s) (hs_channel ?s)" by (simp add: caught_up_def conn_arrive_def)
  from hs_poll_late_waits[OF assms(1) waits eof this]
  have again: "hs_poll w c (Some l) s' = Some (Pending l, s')"
    using waits by (simp add: hs_late_def late_def conn_arrive_def)
  have "caught_up w x (hs_channel ?s) (hs_channel (hs_hear w [y @ x] s))"
    using demux_poll_arrive[of "conn_arrive y (ch_conn (hs_channel s))" w x] assms(2)
    by (simp add: caught_up_def hs_hear_def hear_def arrivals_def conn_arrive_append)
  from hs_poll_late_waits[OF assms(1) waits eof this]
  have "hs_poll w c None (hs_hear w [y @ x] s) = hs_poll w c (Some l) (hs_late x s')"
    by (simp add: hs_hear_def)
  with hs_poll_late_waits[OF assms(1) again eof' assms(4)] show ?thesis by simp
qed

section \<open>From the handshake to the calls\<close>

text \<open>
  A client just opened that will write \<open>ask\<close> and wait until the frame with \<open>answer\<close> is there, and
  that leaves a free connection then.
\<close>

definition shakes_hands :: "wire \<Rightarrow> cbor \<Rightarrow> payload \<Rightarrow> payload \<Rightarrow> handshake \<Rightarrow> bool" where
  "shakes_hands w c ask answer s \<longleftrightarrow> hs_hear w [[]] s = s \<and> hs_polled w s = s \<and>
     \<not> cn_eof (ch_conn (hs_channel s)) \<and> (\<exists>asked. framed w 0 [ask] asked \<and>
       (\<forall>time y z. y @ z = frame w time 0x8000 answer \<longrightarrow> z \<noteq> [] \<longrightarrow>
         (\<exists>s'. hs_poll w c None (hs_hear w [y] s) = Some (Pending [], s') \<and>
           hs_sent s' = hs_sent s @ asked)) \<and>
       (\<forall>time. \<exists>r s'. hs_poll w c None (hs_hear w [frame w time 0x8000 answer] s) =
           Some (Ready (Inr r), s') \<and> hs_sent s' = hs_sent s @ asked \<and>
         fresh (channel_drop (hs_channel s')) \<and> roomy (channel_drop (hs_channel s'))))"

lemma hs_client_shakes_hands:
  assumes "wire_ok w" "cbor_stream c" "cbor_order c" and "fresh conn" "roomy conn"
    and "hs_configured b" and "v \<in> set (hb_versions b)" and "hs_wf (AcceptVersion v (hb_magic b))"
    and "length (hs_bytes c (hb_proposal b)) < 65536"
    and "length (hs_bytes c (AcceptVersion v (hb_magic b))) < 65536"
    and "hs_client b conn = Inr s"
  shows "shakes_hands w c (hs_bytes c (hb_proposal b)) (hs_bytes c (AcceptVersion v (hb_magic b))) s"
proof -
  let ?ask = "hs_bytes c (hb_proposal b)" and ?answer = "hs_bytes c (AcceptVersion v (hb_magic b))"
  let ?asked = "frame w (cn_clock conn 0) 0 ?ask"
  have s: "s = hs_with_channel b Client (connection_channel 0 conn)"
    using assms(11) by (simp add: hs_client_def hs_build_def)
  have tuned: "tuned 0 [] (hs_channel s)" using tuned_open[OF assms(4)] by (simp add: s hs_with_channel_def)
  then have quiet: "demux_poll w (ch_conn (hs_channel s)) = ch_conn (hs_channel s)"
    by (intro quiet_demux_poll) (rule tuned_quiet)
  have "\<exists>r s'. hs_poll w c None (hs_hear w [frame w time 0x8000 ?answer] s) =
      Some (Ready (Inr r), s') \<and> hs_sent s' = hs_sent s @ ?asked \<and>
      fresh (channel_drop (hs_channel s')) \<and> roomy (channel_drop (hs_channel s'))" for time
  proof -
    obtain t data where "negotiate w c (hs_hear w [frame w time 0x8000 ?answer] s) =
          Some (Ready (Inr (v, hb_magic b)), t)"
        "hs_plays.written t = hs_plays.written s @ ?asked" "tuned 0 data (hs_channel t)"
        "roomy (ch_conn (hs_channel t))"
      by (rule hs_client_accepted[OF assms(1-10) s, of time])
    with tuned_drop[OF this(3)] show ?thesis
      by (simp add: hs_poll_def hs_plays.written_def hs_sent_def channel_drop_def demux_drop_def roomy_def)
  qed
  moreover have "framed w 0 [?ask] ?asked"
    using framed.more_frames[OF assms(9) framed.nothing, of w 0 "cn_clock conn 0"] by simp
  moreover have "\<exists>s'. hs_poll w c None (hs_hear w [y] s) = Some (Pending [], s') \<and>
      hs_sent s' = hs_sent s @ ?asked" if "y @ z = frame w time 0x8000 ?answer" "z \<noteq> []" for time y z
    by (rule hs_part_waits[OF assms(1-6,9) that assms(10) s])
  ultimately show ?thesis
    using quiet tuned unfolding shakes_hands_def
    by (simp add: hs_hear_def hear_def arrivals_def conn_arrive_def hs_polled_def tuned_def) blast
qed

text \<open>What is on its way while a client waits, and which bytes it has been sent in all.\<close>

definition awaits :: "wire \<Rightarrow> payload \<Rightarrow> payload \<Rightarrow> (u16 \<times> payload) peer_step list \<Rightarrow>
    ('q, 's, 'r) session \<Rightarrow> byte list \<Rightarrow> bool" where
  "awaits w ask answer script t x \<longleftrightarrow>
     ss_script t = Some (Expect (0, ask) # Say (0x8000, answer) # script) \<and>
       framed w 0 [ask] (ss_got t @ ss_to_node t) \<and> x = [] \<or>
     ss_script t = Some (Say (0x8000, answer) # script) \<and> ss_got t @ ss_to_node t = [] \<and> x = [] \<or>
     ss_script t = Some script \<and> ss_got t @ ss_to_node t = [] \<and>
       (\<exists>time. x = frame w time 0x8000 answer)"

inductive shaking :: "wire \<Rightarrow> cbor \<Rightarrow> handshake \<Rightarrow> payload \<Rightarrow> payload \<Rightarrow>
    (u16 \<times> payload) peer_step list \<Rightarrow> ('q, 's, 'r) session \<Rightarrow> bool" for w c s0 ask answer script t where
  unpolled: "ss_program t = Shaking None s0 \<Longrightarrow>
    ss_script t = Some (Expect (0, ask) # Say (0x8000, answer) # script) \<Longrightarrow>
    ss_got t = [] \<Longrightarrow> ss_to_node t = [] \<Longrightarrow> ss_to_program t = [] \<Longrightarrow>
    shaking w c s0 ask answer script t"
| polled: "ss_program t = Shaking (Some l) (s\<lparr>hs_channel := ch\<rparr>) \<Longrightarrow>
    hs_poll w c None (hs_hear w [y] s0) = Some (Pending l, s) \<Longrightarrow>
    caught_up w x (hs_channel s) ch \<Longrightarrow> awaits w ask answer script t (y @ x @ ss_to_program t) \<Longrightarrow>
    shaking w c s0 ask answer script t"

lemma framed_one:
  assumes "framed w idx [p] bytes"
  obtains time where "bytes = frame w time idx p" "length p < 65536"
  using assms by (auto elim!: framed.cases)

text \<open>The state in which the calls begin, on a connection that the handshake has left.\<close>

definition hands_over :: "(connection \<Rightarrow> (error, 's) result) \<Rightarrow> 'q list \<Rightarrow>
    (u16 \<times> payload) peer_step list \<Rightarrow> ('q, 's, 'r) session \<Rightarrow> bool" where
  "hands_over start qs script t \<longleftrightarrow> (\<exists>conn. fresh conn \<and> roomy conn \<and>
     ss_program t = (case start conn of Inl f \<Rightarrow> Refused f
       | Inr client \<Rightarrow> Using (Calling qs None [] client))) \<and>
     ss_script t = Some script \<and> ss_got t = [] \<and> ss_to_node t = [] \<and> ss_to_program t = []"

text \<open>A poll of a client that waits.\<close>

lemma shaking_polls:
  assumes "cbor_progress c" "wire_ok w" and shakes: "shakes_hands w c ask answer s0"
    and prog: "ss_program t = Shaking (Some l) (s\<lparr>hs_channel := ch\<rparr>)"
    and waits: "hs_poll w c None (hs_hear w [y] s0) = Some (Pending l, s)"
    and caught: "caught_up w x (hs_channel s) ch"
    and awaits: "awaits w ask answer script t (y @ x @ ss_to_program t)"
    and poll: "program_poll w c call chan start qs (ss_program t) = Some (program, bytes)"
    and t': "t' = t\<lparr>ss_program := program, ss_to_node := ss_to_node t @ bytes\<rparr>"
  shows "shaking w c s0 ask answer script t' \<and>
      (ss_script t = Some script \<longrightarrow> ss_to_program t \<noteq> []) \<or> hands_over start qs script t'"
proof -
  from shakes obtain asked where open_s0: "\<not> cn_eof (ch_conn (hs_channel s0))"
    and part: "\<And>time y z. y @ z = frame w time 0x8000 answer \<Longrightarrow> z \<noteq> [] \<Longrightarrow>
      \<exists>s'. hs_poll w c None (hs_hear w [y] s0) = Some (Pending [], s') \<and> hs_sent s' = hs_sent s0 @ asked"
    and whole: "\<And>time. \<exists>r s'. hs_poll w c None (hs_hear w [frame w time 0x8000 answer] s0) =
        Some (Ready (Inr r), s') \<and> hs_sent s' = hs_sent s0 @ asked \<and>
        fresh (channel_drop (hs_channel s')) \<and> roomy (channel_drop (hs_channel s'))"
    unfolding shakes_hands_def by blast
  have again: "hs_poll w c (Some l) (s\<lparr>hs_channel := ch\<rparr>) = hs_poll w c None (hs_hear w [y @ x] s0)"
    by (rule hs_waiting_poll[OF assms(1) open_s0 waits caught])
  have nonempty: "frame w time 0x8000 answer \<noteq> []" for time
    using arg_cong[of "frame w time 0x8000 answer" "[]" length] assms(2) by (auto simp: frame_def)
  obtain time z where z: "(y @ x @ ss_to_program t) @ z = frame w time 0x8000 answer"
  proof -
    from awaits consider "y @ x @ ss_to_program t = []"
      | time where "y @ x @ ss_to_program t = frame w time 0x8000 answer"
      unfolding awaits_def by blast
    then show thesis using that[of "frame w 0 0x8000 answer" 0] that[of "[]"] by cases auto
  qed
  have "hs_sent s = hs_sent s0 @ asked"
  proof (cases "x @ ss_to_program t @ z = []")
    case True
    with z whole[of time] waits show ?thesis by auto
  next
    case False
    with z part[of y "x @ ss_to_program t @ z" time] waits show ?thesis by auto
  qed
  then have sent: "hs_sent (s\<lparr>hs_channel := ch\<rparr>) = hs_sent s0 @ asked"
    using caught_up_sender(1)[OF caught] by (simp add: hs_sent_def)
  show ?thesis
  proof (cases "ss_to_program t @ z = []")
    case True
    with z have yx: "y @ x = frame w time 0x8000 answer" by simp
    obtain r s' where s': "hs_poll w c None (hs_hear w [y @ x] s0) = Some (Ready (Inr r), s')"
        "hs_sent s' = hs_sent s0 @ asked" "fresh (channel_drop (hs_channel s'))"
        "roomy (channel_drop (hs_channel s'))"
      using whole[of time] yx by auto
    have "bytes = []" "program = (case start (channel_drop (hs_channel s')) of Inl f \<Rightarrow> Refused f
        | Inr client \<Rightarrow> Using (Calling qs None [] client))"
      using poll again s'(1,2) sent by (auto simp: prog)
    moreover have "ss_script t = Some script" "ss_got t = []" "ss_to_node t = []"
      using awaits yx nonempty[of time] by (auto simp: awaits_def)
    ultimately have "hands_over start qs script t'"
      using s'(3,4) True by (auto simp: hands_over_def t')
    then show ?thesis ..
  next
    case False
    with z part[of "y @ x" "ss_to_program t @ z" time] obtain s' where
      s': "hs_poll w c None (hs_hear w [y @ x] s0) = Some (Pending [], s')"
        "hs_sent s' = hs_sent s0 @ asked" by auto
    have prog': "bytes = []" "program = Shaking (Some []) s'"
      using poll again s' sent by (auto simp: prog)
    have "shaking w c s0 ask answer script t'"
    proof (rule shaking.polled[OF _ s'(1)])
      show "ss_program t' = Shaking (Some []) (s'\<lparr>hs_channel := hs_channel s'\<rparr>)"
        by (simp add: t' prog'(2))
      show "caught_up w [] (hs_channel s') (hs_channel s')"
        by (simp add: caught_up_def conn_arrive_def)
      show "awaits w ask answer script t' ((y @ x) @ [] @ ss_to_program t')"
        using awaits by (simp add: awaits_def t' prog'(1))
    qed
    moreover have "ss_to_program t \<noteq> []" if "ss_script t = Some script"
    proof
      assume "ss_to_program t = []"
      with awaits that False obtain time' where "y @ x = frame w time' 0x8000 answer"
        by (auto simp: awaits_def)
      then have "length (y @ x) = length (frame w time 0x8000 answer)"
        using assms(2) by (simp add: frame_def)
      with arg_cong[OF z, of length] \<open>ss_to_program t = []\<close> False show False
        by (cases z) simp_all
    qed
    ultimately show ?thesis by blast
  qed
qed

lemma shaking_first_step:
  assumes "cbor_progress c" "wire_ok w" and shakes: "shakes_hands w c ask answer s0"
    and unpolled: "ss_program t = Shaking None s0"
      "ss_script t = Some (Expect (0, ask) # Say (0x8000, answer) # Expect f # script)"
      "ss_got t = []" "ss_to_node t = []" "ss_to_program t = []"
    and step: "session_step w c call chan with_chan start qs t t'"
  shows "shaking w c s0 ask answer (Expect f # script) t'"
proof -
  from shakes have calm: "hs_hear w [[]] s0 = s0" "hs_polled w s0 = s0" "hs_late [] s0 = s0"
    unfolding shakes_hands_def by (simp_all add: hs_late_def late_def conn_arrive_def)
  have none: "next_frame w [] = None" by (simp add: next_frame_def)
  from step show ?thesis
  proof cases
    case (program_polls program bytes)
    have "frame w 0 0x8000 answer \<noteq> []"
      using arg_cong[of "frame w 0 0x8000 answer" "[]" length] assms(2) by (auto simp: frame_def)
    with shakes obtain asked s' where s': "framed w 0 [ask] asked"
        "hs_poll w c None (hs_hear w [[]] s0) = Some (Pending [], s')" "hs_sent s' = hs_sent s0 @ asked"
      unfolding shakes_hands_def by (metis append_Nil)
    have prog': "program = Shaking (Some []) s'" "bytes = asked"
      using program_polls(2) s'(2,3) by (auto simp: unpolled(1) calm(1))
    show ?thesis
    proof (rule shaking.polled[OF _ s'(2)])
      show "ss_program t' = Shaking (Some []) (s'\<lparr>hs_channel := hs_channel s'\<rparr>)"
        by (simp add: program_polls(1) prog'(1))
      show "caught_up w [] (hs_channel s') (hs_channel s')"
        by (simp add: caught_up_def conn_arrive_def)
      show "awaits w ask answer (Expect f # script) t' ([] @ [] @ ss_to_program t')"
        using unpolled s'(1) by (simp add: awaits_def program_polls(1) prog'(2))
    qed
  qed (use unpolled calm none in \<open>auto intro: shaking.unpolled\<close>)
qed

lemma shaking_next_step:
  assumes "cbor_progress c" "wire_ok w" and shakes: "shakes_hands w c ask answer s0"
    and polled: "ss_program t = Shaking (Some l) (s\<lparr>hs_channel := ch\<rparr>)"
      "hs_poll w c None (hs_hear w [y] s0) = Some (Pending l, s)"
      "caught_up w x (hs_channel s) ch" "awaits w ask answer (Expect f # script) t (y @ x @ ss_to_program t)"
    and step: "session_step w c call chan with_chan start qs t t'"
  shows "shaking w c s0 ask answer (Expect f # script) t' \<or> hands_over start qs (Expect f # script) t'"
proof -
  have "\<not> cn_eof (ch_conn (hs_channel (hs_hear w [y] s0)))"
    using shakes by (simp add: shakes_hands_def hs_hear_def hear_def arrivals_def)
  then have open_s: "\<not> cn_eof (ch_conn (hs_channel s))"
    using hs_poll_sender[OF assms(1) polled(2)] by metis
  from step show ?thesis
  proof cases
    case (program_polls program bytes)
    from shaking_polls[OF assms(1-3) polled program_polls(2,1)] show ?thesis by blast
  next
    case (bytes_arrive bytes rest)
    have "shaking w c s0 ask answer (Expect f # script) t'"
    proof (rule shaking.polled[OF _ polled(2)])
      show "ss_program t' = Shaking (Some l) (s\<lparr>hs_channel := late bytes ch\<rparr>)"
        by (simp add: bytes_arrive(1) polled(1) hs_late_def)
      show "caught_up w (x @ bytes) (hs_channel s) (late bytes ch)"
        by (rule caught_up_further(1)[OF polled(3) open_s])
      show "awaits w ask answer (Expect f # script) t' (y @ (x @ bytes) @ ss_to_program t')"
        using polled(4) bytes_arrive by (simp add: awaits_def)
    qed
    then show ?thesis ..
  next
    case task_runs
    have "shaking w c s0 ask answer (Expect f # script) t'"
    proof (rule shaking.polled[OF _ polled(2)])
      show "ss_program t' = Shaking (Some l)
          (s\<lparr>hs_channel := ch\<lparr>ch_conn := demux_poll w (ch_conn ch)\<rparr>\<rparr>)"
        by (simp add: task_runs polled(1) hs_polled_def)
      show "caught_up w x (hs_channel s) (ch\<lparr>ch_conn := demux_poll w (ch_conn ch)\<rparr>)"
        by (rule caught_up_further(2)[OF polled(3) open_s])
      show "awaits w ask answer (Expect f # script) t' (y @ x @ ss_to_program t')"
        using polled(4) by (simp add: awaits_def task_runs)
    qed
    then show ?thesis ..
  next
    case (node_says idx p rest)
    have "awaits w ask answer (Expect f # script) t' (y @ x @ ss_to_program t')"
      using polled(4) node_says by (auto simp: awaits_def)
    with polled(1-3) node_says(1) show ?thesis by (auto intro!: shaking.polled)
  next
    case (node_expects g rest f' got)
    then have "awaits w ask answer (Expect f # script) t' (y @ x @ ss_to_program t')"
      using polled(4) framed_first_later[OF _ assms(2) node_expects(3), of 0 ask "[]" "ss_to_node t"]
      by (auto simp: awaits_def next_frame_def elim: framed.cases)
    with polled(1-3) node_expects(1) show ?thesis by (auto intro!: shaking.polled)
  next
    case (node_hears bytes rest)
    then have "awaits w ask answer (Expect f # script) t' (y @ x @ ss_to_program t')"
      using polled(4) by (auto simp: awaits_def)
    with polled(1-3) node_hears(1) show ?thesis by (auto intro!: shaking.polled)
  qed
qed

lemma shaking_step:
  assumes "cbor_progress c" "wire_ok w" "shakes_hands w c ask answer s0"
    and "shaking w c s0 ask answer (Expect f # script) t"
    and "session_step w c call chan with_chan start qs t t'"
  shows "shaking w c s0 ask answer (Expect f # script) t' \<or> hands_over start qs (Expect f # script) t'"
  using assms(4)
proof cases
  case unpolled
  from shaking_first_step[OF assms(1-3) this assms(5)] show ?thesis ..
next
  case (polled l ch s y x)
  from shaking_next_step[OF assms(1-3) this assms(5)] show ?thesis .
qed

text \<open>From every state of the handshake the two can go on to the calls.\<close>

lemma shaking_poll:
  assumes "cbor_progress c" and "ss_program t = Shaking a s"
  obtains program bytes where
    "program_poll w c call chan start qs (ss_program t) = Some (program, bytes)"
    "\<And>u. program \<noteq> Shaking None u"
    "session_step w c call chan with_chan start qs t
      (t\<lparr>ss_program := program, ss_to_node := ss_to_node t @ bytes\<rparr>)"
proof -
  obtain r s' where "hs_poll w c a s = Some (r, s')" using hs_poll_returns[OF assms(1)] by blast
  then have poll: "program_poll w c call chan start qs (ss_program t) =
      Some (begin_calls start qs r s', drop (length (hs_sent s)) (hs_sent s'))"
    by (simp add: assms(2))
  have "begin_calls start qs r s' \<noteq> Shaking None u" for u
    by (cases r; cases "case r of Ready v \<Rightarrow> v | Pending l \<Rightarrow> undefined") (auto split: sum.splits)
  with that[OF poll] session_step.program_polls[OF poll, of with_chan] show thesis by blast
qed

lemma answered_completes:
  assumes "cbor_progress c" "wire_ok w" and shakes: "shakes_hands w c ask answer s0"
    and "shaking w c s0 ask answer script t" and "ss_script t = Some script"
  shows "\<exists>t'. session_reaches w c call chan with_chan start qs t t' \<and> hands_over start qs script t'"
  using assms(4)
proof cases
  case unpolled
  with assms(5) show ?thesis using arg_cong[of _ script length] by auto
next
  case (polled l ch s y x)
  have "\<not> cn_eof (ch_conn (hs_channel (hs_hear w [y] s0)))"
    using shakes by (simp add: shakes_hands_def hs_hear_def hear_def arrivals_def)
  then have open_s: "\<not> cn_eof (ch_conn (hs_channel s))"
    using hs_poll_sender[OF assms(1) polled(2)] by metis
  let ?ch = "late (ss_to_program t) ch"
  let ?t = "t\<lparr>ss_program := Shaking (Some l) (s\<lparr>hs_channel := ?ch\<rparr>), ss_to_program := []\<rparr>"
  have arrives: "session_step w c call chan with_chan start qs t ?t"
    using session_step.bytes_arrive[of t "ss_to_program t" "[]" w c call chan with_chan start qs] polled(1)
    by (simp add: hs_late_def)
  obtain program bytes where poll:
    "program_poll w c call chan start qs (ss_program ?t) = Some (program, bytes)"
    "session_step w c call chan with_chan start qs ?t
      (?t\<lparr>ss_program := program, ss_to_node := ss_to_node ?t @ bytes\<rparr>)"
    by (rule shaking_poll[OF assms(1), of ?t]) simp
  have "awaits w ask answer script ?t (y @ (x @ ss_to_program t) @ ss_to_program ?t)"
    using polled(4) by (simp add: awaits_def)
  from shaking_polls[OF assms(1-3) _ polled(2) caught_up_further(1)[OF polled(3) open_s] this poll(1) refl]
    assms(5)
  have "hands_over start qs script (?t\<lparr>ss_program := program, ss_to_node := ss_to_node ?t @ bytes\<rparr>)"
    by simp
  then show ?thesis using arrives poll(2) by (blast intro: session_reaches.intros)
qed

lemma shaking_completes:
  assumes "cbor_progress c" "wire_ok w" and shakes: "shakes_hands w c ask answer s0"
    and "shaking w c s0 ask answer (Expect f # script) t"
  shows "\<exists>t'. session_reaches w c call chan with_chan start qs t t' \<and>
    hands_over start qs (Expect f # script) t'"
proof -
  let ?shaking = "shaking w c s0 ask answer (Expect f # script)"
  let ?over = "hands_over start qs (Expect f # script)"
  let ?step = "session_step w c call chan with_chan start qs"
  let ?reaches = "session_reaches w c call chan with_chan start qs"
  have on: "\<exists>t2. ?reaches t t2 \<and> ?over t2"
    if "?shaking t" "?step t t1" "?shaking t1 \<Longrightarrow> \<exists>t2. ?reaches t1 t2 \<and> ?over t2" for t t1
    using shaking_step[OF assms(1-3) that(1,2)] that(2,3)
    by (meson session_reaches.intros session_reaches_trans)
  have said: "\<exists>t2. ?reaches t t2 \<and> ?over t2"
    if "?shaking t" "ss_script t = Some (Say (0x8000, answer) # Expect f # script)" for t
    by (rule on[OF that(1) session_step.node_says[OF that(2)]], rule answered_completes[OF assms(1-3)])
      simp_all
  have asked: "\<exists>t2. ?reaches t t2 \<and> ?over t2"
    if "?shaking t" "ss_script t = Some (Expect (0, ask) # Say (0x8000, answer) # Expect f # script)"
      "\<And>s. ss_program t \<noteq> Shaking None s" for t
  proof -
    let ?t = "t\<lparr>ss_got := ss_got t @ ss_to_node t, ss_to_node := []\<rparr>"
    have "framed w 0 [ask] (ss_got t @ ss_to_node t)"
      using that(1)
    proof cases
      case unpolled
      with that(3)[of s0] show ?thesis by simp
    next
      case (polled l ch s y x)
      with that(2) show ?thesis by (auto simp: awaits_def)
    qed
    then obtain rest where rest: "next_frame w (ss_got ?t) = Some ((0, ask), rest)"
      using assms(2) by (auto elim: framed_first)
    have hears: "?step t ?t" by (rule session_step.node_hears) simp
    have "ss_script ?t = Some (Expect (0, ask) # Say (0x8000, answer) # Expect f # script)"
      using that(2) by simp
    note expects = session_step.node_expects[OF this rest, of c call chan with_chan start qs]
    show ?thesis by (rule on[OF that(1) hears], rule on[OF _ expects]) (auto intro: said)
  qed
  from assms(4) show ?thesis
  proof cases
    case unpolled
    obtain program bytes where "\<And>u. program \<noteq> Shaking None u"
        "?step t (t\<lparr>ss_program := program, ss_to_node := ss_to_node t @ bytes\<rparr>)"
      by (rule shaking_poll[OF assms(1) unpolled(1)]) blast
    with unpolled(2) show ?thesis by (intro on[OF assms(4)]) (auto intro: asked)
  next
    case (polled l ch s y x)
    then show ?thesis
      using answered_completes[OF assms(1-3,4)] said[OF assms(4)] asked[OF assms(4)]
      by (auto simp: awaits_def)
  qed
qed

section \<open>Whole programs\<close>

context resumable_calls
begin

lemma hands_over_serves:
  assumes "hands_over start qs (map (on_channel own other) script) t"
    and start: "\<And>conn. fresh conn \<Longrightarrow> roomy conn \<Longrightarrow> \<exists>client. start conn = Inr client \<and>
      (\<forall>clock. follows w c own other clock qs [] client script goal)"
  shows "serving w c own other goal t"
proof -
  from assms(1) obtain conn where conn: "fresh conn" "roomy conn"
    "ss_program t = (case start conn of Inl f \<Rightarrow> Refused f
      | Inr client \<Rightarrow> Using (Calling qs None [] client))"
    "ss_script t = Some (map (on_channel own other) script)"
    "ss_got t = []" "ss_to_node t = []" "ss_to_program t = []"
    by (auto simp: hands_over_def)
  from start[OF conn(1,2)] obtain client where client: "start conn = Inr client"
    "follows w c own other (ss_clock t) qs [] client script goal" by blast
  show ?thesis by (rule serving_starts[OF client(2)]) (use conn client(1) in simp_all)
qed

lemma program_passes:
  assumes "cbor_progress c" "wire_ok w" and shakes: "shakes_hands w c ask answer s"
    and start: "\<And>conn. fresh conn \<Longrightarrow> roomy conn \<Longrightarrow> \<exists>client. start conn = Inr client \<and>
      (\<forall>clock. follows w c own other clock qs [] client (Expect p # script) goal)"
  shows "session_passes w c (call w c) chan with_chan start qs
    (session_opened s (Expect (0, ask) # Say (0x8000, answer) #
      map (on_channel own other) (Expect p # script)) clock) goal"
    (is "session_passes w c ?call chan with_chan start qs ?opened goal")
proof -
  let ?script = "Expect (own, p) # map (on_channel own other) script"
  let ?shaking = "shaking w c s ask answer ?script" and ?serving = "serving w c own other goal"
  have over: "?serving t" if "hands_over start qs ?script t" for t
    by (rule hands_over_serves[OF _ start]) (use that in simp_all)
  have keeps: "?shaking t \<or> ?serving t" if "session_runs w c start qs t0 t" "?shaking t0" for t0 t
    using that
  proof (induction rule: session_reaches.induct)
    case (there t t' t'')
    then show ?case using shaking_step[OF assms(1-3)] over serving_step[OF assms(1,2)] by blast
  qed blast
  have "?shaking ?opened" by (rule shaking.unpolled) (simp_all add: session_opened_def)
  note reached = keeps[OF _ this]
  show ?thesis
    unfolding session_passes_def
  proof (intro allI impI conjI)
    fix t assume "session_runs w c start qs ?opened t"
    from reached[OF this] consider "?shaking t" | "?serving t" by blast
    note state = this
    from state show "ss_script t \<noteq> None"
    proof cases
      case 1
      then show ?thesis by cases (auto simp: awaits_def)
    qed (rule serving_fine(1))
    from state show "case ss_program t of
        Shaking a s \<Rightarrow> True
      | Refused f \<Rightarrow> False
      | Using (Calling qs' a got s) \<Rightarrow> True
      | Using (Finished got s) \<Rightarrow> got = goal
      | Using (Stopped f got s) \<Rightarrow> False"
    proof cases
      case 1
      then show ?thesis by cases auto
    qed (rule serving_fine(2))
    from state obtain t1 where t1: "session_runs w c start qs t t1" "?serving t1"
      using shaking_completes[OF assms(1-3)] over session_reaches.here by metis
    from serving_completes[OF assms(1,2) t1(2)] show "\<exists>t' s. session_runs w c start qs t t' \<and>
        ss_script t' = Some [] \<and> ss_program t' = Using (Finished goal s)"
      using session_reaches_trans[OF _ t1(1)] by blast
  qed
qed

end

end
