(* ===== verification/Fetch_Sessions.thy ===== *)
theory Fetch_Sessions
  imports Wire_Sessions
begin

unbundle bit_operations_syntax

text \<open>
  The whole use of a block fetch client over the wire, from its construction on a free
  connection to the connection it gives back: any number of requests, each answered with a
  batch or with nothing, and then \<open>done\<close>.
\<close>

section \<open>A session\<close>

datatype bf_reply = HasBlocks "byte list list" | HasNone

fun reply_messages :: "bf_reply \<Rightarrow> bf_message list" where
  "reply_messages (HasBlocks bs) = StartBatch # batch bs"
| "reply_messages HasNone = [NoBlocks]"

fun reply_blocks :: "bf_reply \<Rightarrow> byte list list" where
  "reply_blocks (HasBlocks bs) = bs"
| "reply_blocks HasNone = []"

text \<open>
  The calls of a user: \<open>run\<close> and its stream to the end, once for every element of the list,
  which holds the chunks that arrive meanwhile. \<open>got\<close> are the blocks of the streams so far.
\<close>

fun bf_session :: "wire \<Rightarrow> cbor \<Rightarrow> byte list list list \<Rightarrow> byte list list list \<Rightarrow> block_fetch \<Rightarrow>
    ((error, byte list list list) poll \<times> block_fetch) option" where
  "bf_session w c [] got s = Some (Ready (Inr got), s)"
| "bf_session w c (chunks # rounds) got s = (case bf_run w c (bf_hear w chunks s) of
       None \<Rightarrow> None
     | Some (Pending l, t) \<Rightarrow> Some (Pending l, t)
     | Some (Ready (Inl f), t) \<Rightarrow> Some (Ready (Inl f), t)
     | Some (Ready (Inr _), t) \<Rightarrow>
        (case bf_collect w c [] t of
           None \<Rightarrow> None
         | Some (Pending l, u) \<Rightarrow> Some (Pending l, u)
         | Some (Ready (Inl f), u) \<Rightarrow> Some (Ready (Inl f), u)
         | Some (Ready (Inr blocks), u) \<Rightarrow> bf_session w c rounds (got @ [blocks]) u))"

text \<open>The node sends the reply, among frames for any channels and cut into any chunks.\<close>

definition node_replies :: "wire \<Rightarrow> cbor \<Rightarrow> bf_reply \<Rightarrow> byte list list \<Rightarrow> bool" where
  "node_replies w c reply chunks \<longleftrightarrow> (\<exists>fs. peer_writes w fs (concat chunks) \<and>
     concat (payloads_for 0x0003 fs) = concat (map (bf_bytes c) (reply_messages reply)))"

text \<open>A client between two requests whose channel holds nothing to read.\<close>

definition bf_calm :: "block_fetch \<Rightarrow> bool" where
  "bf_calm s \<longleftrightarrow> bf_state s = BfIdle \<and> bf_result s = [] \<and> \<not> bf_done s \<and>
     tuned 0x0003 [] (bf_channel s)"

lemma bf_round:
  assumes "wire_ok w" "cbor_stream c" and "bf_calm s" and "node_replies w c reply chunks"
  shows "\<exists>t u. bf_run w c (bf_hear w chunks s) = Some (Ready (Inr ()), t) \<and>
    bf_collect w c [] t = Some (Ready (Inr (reply_blocks reply)), u) \<and>
    bf_calm u \<and> bf_config u = bf_config s \<and>
    same_sender (ch_conn (bf_channel u))
      (after_send w 0x0003 (bf_bytes c (bf_request s)) (ch_conn (bf_channel s)))"
proof -
  let ?s = "bf_hear w chunks s"
  from assms(4) obtain fs where fs: "peer_writes w fs (concat chunks)"
      "concat (payloads_for 0x0003 fs) = concat (map (bf_bytes c) (reply_messages reply))"
    by (auto simp: node_replies_def)
  have heard: "tuned 0x0003 (concat (payloads_for 0x0003 fs)) (bf_channel ?s)"
    using tuned_hear[OF assms(1) fs(1), of "0x0003" "[]" "bf_channel s"] assms(3)
    by (simp add: bf_hear_def bf_calm_def)
  then obtain ps where ps: "cn_channels (ch_conn (bf_channel ?s)) 0x0003 = Some ps"
      "concat ps = concat (map (bf_bytes c) (reply_messages reply))"
    by (rule tuned_queue) (simp add: fs(2))
  have ready: "bf_ready ps ?s"
    using heard tuned_quiet[OF heard] assms(3) ps(1)
    by (simp add: bf_ready_def tuned_def bf_hear_def bf_calm_def)
  have req: "bf_request ?s = bf_request s" "bf_config ?s = bf_config s"
    by (simp_all add: bf_request_def bf_hear_def)
  have idx: "ch_idx (bf_channel ?s) = 0x0003" using heard by (simp add: tuned_def)
  have served: "bf_calm (bf_served w c ps' ?s) \<and> bf_config (bf_served w c ps' ?s) = bf_config s \<and>
      same_sender (ch_conn (bf_channel (bf_served w c ps' ?s)))
        (after_send w 0x0003 (bf_bytes c (bf_request s)) (ch_conn (bf_channel s)))"
    if "concat ps' = []" for ps'
  proof -
    have "tuned 0x0003 [] (bf_channel (bf_served w c ps' ?s))"
      using tuned_feed[OF tuned_sent[OF heard] that] by (simp add: bf_served_def)
    moreover have "same_sender (ch_conn (bf_channel ?s)) (ch_conn (bf_channel s))"
      by (simp add: bf_hear_def)
    ultimately show ?thesis
      using ready idx by (simp add: bf_calm_def bf_served_def bf_ready_def req same_sender_after)
  qed
  show ?thesis
  proof (cases reply)
    case (HasBlocks bs)
    with ps(2) block_fetch_served[OF assms(2) ready, of bs w] obtain t ps' where
      "bf_run w c ?s = Some (Ready (Inr ()), t)" "concat ps' = []"
      "bf_collect w c [] t = Some (Ready (Inr bs), bf_served w c ps' ?s)" by auto
    with served[of ps'] HasBlocks show ?thesis by auto
  next
    case HasNone
    with ps(2) block_fetch_none_served[OF assms(2) ready, of w] obtain ps' where
      run: "bf_run w c ?s = Some (Ready (Inr ()), bf_served w c ps' ?s)" "concat ps' = []" by auto
    have "bf_collect w c [] (bf_served w c ps' ?s) = Some (Ready (Inr []), bf_served w c ps' ?s)"
      using served[OF run(2)] bf_collect_idle[of "bf_served w c ps' ?s" w c "[]"]
      by (simp add: bf_calm_def)
    with run served[OF run(2)] HasNone show ?thesis by auto
  qed
qed

lemma bf_session_rounds:
  assumes "wire_ok w" "cbor_stream c" and "list_all2 (node_replies w c) replies rounds"
    and "bf_calm s"
  shows "\<exists>t. bf_session w c rounds got s =
      Some (Ready (Inr (got @ map reply_blocks replies)), t) \<and> bf_calm t \<and>
    same_sender (ch_conn (bf_channel t)) (send_all w (replicate (length replies)
      (0x0003, bf_bytes c (bf_request s))) (ch_conn (bf_channel s)))"
  using assms(3,4)
proof (induction replies rounds arbitrary: got s rule: list_all2_induct)
  case Nil
  then show ?case by (auto simp: send_all_def)
next
  case (Cons reply replies chunks rounds)
  from bf_round[OF assms(1,2) Cons.prems Cons.hyps(1)] obtain t u where round:
    "bf_run w c (bf_hear w chunks s) = Some (Ready (Inr ()), t)"
    "bf_collect w c [] t = Some (Ready (Inr (reply_blocks reply)), u)"
    "bf_calm u" "bf_config u = bf_config s" "same_sender (ch_conn (bf_channel u))
      (after_send w 0x0003 (bf_bytes c (bf_request s)) (ch_conn (bf_channel s)))"
    by blast
  from Cons.IH[OF round(3), of "got @ [reply_blocks reply]"] obtain v where v:
    "bf_session w c rounds (got @ [reply_blocks reply]) u =
      Some (Ready (Inr (got @ map reply_blocks (reply # replies))), v)"
    "bf_calm v" "same_sender (ch_conn (bf_channel v)) (send_all w (replicate (length replies)
      (0x0003, bf_bytes c (bf_request u))) (ch_conn (bf_channel u)))"
    by auto
  have "bf_request u = bf_request s" by (simp add: bf_request_def round(4))
  with v(3) same_sender_send_all[OF round(5), of w "replicate (length replies)
      (0x0003, bf_bytes c (bf_request s))"]
  have "same_sender (ch_conn (bf_channel v)) (send_all w (replicate (length (reply # replies))
      (0x0003, bf_bytes c (bf_request s))) (ch_conn (bf_channel s)))"
    by (auto simp: send_all_def intro: same_sender_trans)
  with v(1,2) round(1,2) show ?case by auto
qed

text \<open>
  C9. The whole life of a block fetch client on a free connection, against a node that answers
  each of its requests with a batch or with nothing: its streams hand out exactly the blocks of
  the batches, request by request and in order; it has sent one request for its range each
  time and at the end one \<open>ClientDone\<close>, and nothing else; and the connection that \<open>done\<close> gives
  back is free again.
\<close>

theorem block_fetch_session:
  assumes "wire_ok w" "cbor_stream c" and "fresh conn"
    and "bf_client builder conn = (Inr s, conn')"
    and "list_all2 (node_replies w c) replies rounds"
  shows "\<exists>t u conn''. bf_session w c rounds [] s = Some (Ready (Inr (map reply_blocks replies)), t) \<and>
    bf_finish w c t = Some (Ready (Inr conn''), u) \<and> fresh conn'' \<and>
    cn_sent conn'' = cn_sent (send_all w (replicate (length replies)
      (0x0003, bf_bytes c (bf_request s)) @ [(0x0003, bf_bytes c ClientDone)]) conn)"
proof -
  have s: "bf_state s = BfIdle" "bf_result s = []" "\<not> bf_done s"
      "bf_channel s = connection_channel 0x0003 conn"
    using assms(4) by (auto simp: bf_client_def Let_def split: sum.splits)
  then have "bf_calm s" using tuned_open[OF assms(3)] by (simp add: bf_calm_def)
  from bf_session_rounds[OF assms(1,2,5) this, of "[]"] obtain t where t:
    "bf_session w c rounds [] s = Some (Ready (Inr (map reply_blocks replies)), t)" "bf_calm t"
    "same_sender (ch_conn (bf_channel t)) (send_all w (replicate (length replies)
      (0x0003, bf_bytes c (bf_request s))) (ch_conn (bf_channel s)))"
    by auto
  let ?ch = "sent w (bf_bytes c ClientDone) (bf_channel t)"
  have ch: "tuned 0x0003 [] (bf_channel t)" using t(2) by (simp add: bf_calm_def)
  then have "fresh (channel_drop ?ch)" by (rule tuned_drop[OF tuned_sent])
  moreover have "same_sender (ch_conn (bf_channel t)) (send_all w (replicate (length replies)
      (0x0003, bf_bytes c (bf_request s))) conn)"
    using t(3) by (rule same_sender_trans[OF _ same_sender_send_all]) (simp add: s(4))
  from same_sender_sent[OF this, of w "0x0003" "bf_bytes c ClientDone"]
  have "cn_sent (channel_drop ?ch) = cn_sent (send_all w (replicate (length replies)
      (0x0003, bf_bytes c (bf_request s)) @ [(0x0003, bf_bytes c ClientDone)]) conn)"
    using ch by (simp add: send_all_def tuned_def)
  moreover have "bf_finish w c t = Some (Ready (Inr (channel_drop ?ch)), t\<lparr>bf_running := True,
      bf_done := True, bf_state := BfDone, bf_channel := ?ch\<rparr>)"
    using t(2) ch by (intro bf_finish_run[OF assms(2)]) (simp_all add: bf_calm_def tuned_def)
  ultimately show ?thesis using t(1) by blast
qed

text \<open>A batch of two blocks, an empty reply and an empty batch.\<close>

definition sample_round :: "bf_reply \<Rightarrow> byte list list" where
  "sample_round reply = cut_at [9] (cn_sent (send_all sample_wire
     [(0x8003, concat (map (bf_bytes sample_cbor) (reply_messages reply)))] sample_connection))"

lemma sample_round_replies:
  assumes "length (concat (map (bf_bytes sample_cbor) (reply_messages reply))) < 65536"
  shows "node_replies sample_wire sample_cbor reply (sample_round reply)"
  unfolding node_replies_def
proof (intro exI conjI)
  show "peer_writes sample_wire [(0x8003, concat (map (bf_bytes sample_cbor) (reply_messages reply)))]
      (concat (sample_round reply))"
    unfolding peer_writes_def using assms
    by (intro exI[of _ sample_connection])
      (simp add: sample_round_def sample_connection_def connection_new_def)
qed (simp add: payloads_for_def)

theorem block_fetch_session_witness:
  "\<exists>s conn' t. bf_client (bf_last 44 [2] (bf_first 42 [1] bf_builder_new)) sample_connection =
      (Inr s, conn') \<and>
    bf_session sample_wire sample_cbor (map sample_round [HasBlocks [[1], [2]], HasNone, HasBlocks []])
      [] s = Some (Ready (Inr [[[1], [2]], [], []]), t)"
proof -
  let ?replies = "[HasBlocks [[1], [2]], HasNone, HasBlocks []]"
  obtain s conn' where s:
    "bf_client (bf_last 44 [2] (bf_first 42 [1] bf_builder_new)) sample_connection = (Inr s, conn')"
    by (simp add: bf_client_def bf_first_def bf_last_def bf_builder_new_def Let_def)
  have "list_all2 (node_replies sample_wire sample_cbor) ?replies (map sample_round ?replies)"
  proof -
    have "\<forall>reply \<in> set ?replies.
        length (concat (map (bf_bytes sample_cbor) (reply_messages reply))) < 65536"
      by (simp add: bf_bytes_def message_to_bytes_def sample_cbor_def batch_def)
    then show ?thesis by (simp add: sample_round_replies)
  qed
  moreover have "fresh sample_connection"
    unfolding sample_connection_def by (rule connection_new_fresh) simp
  ultimately obtain t where "bf_session sample_wire sample_cbor (map sample_round ?replies) [] s =
      Some (Ready (Inr (map reply_blocks ?replies)), t)"
    using block_fetch_session[OF sample_wire_ok sample_cbor_stream _ s] by blast
  then have "bf_session sample_wire sample_cbor (map sample_round ?replies) [] s =
      Some (Ready (Inr [[[1], [2]], [], []]), t)"
    by (simp only: list.map reply_blocks.simps)
  with s show ?thesis by blast
qed

end
