(* ===== verification/Fetch_Plays.thy ===== *)
theory Fetch_Plays
  imports Program_Plays Fetch_Sessions
begin

unbundle bit_operations_syntax

text \<open>
  The block fetch client against a node that follows a script, under every schedule.
\<close>

section \<open>The calls of a user\<close>

text \<open>
  \<open>BfStateIs\<close> is the assertion of a test on the state of the client. A play ends when \<open>done\<close>
  returns; the drop of the client after that sends nothing.
\<close>

datatype bf_call = RunCall | NextCall | DoneCall | BfStateIs bf_state

datatype bf_returned = RunReturned | NextReturned "byte list option" | DoneReturned | BfStateSeen

definition bf_closing_resume :: "wire \<Rightarrow> cbor \<Rightarrow> byte list \<Rightarrow> (block_fetch, error, unit) task" where
  "bf_closing_resume w c l = execute_from w c (bf_protocol c) (Some l)"

definition bf_assert_state :: "bf_state \<Rightarrow> (block_fetch, error, bf_returned) op" where
  "bf_assert_state q s = (if bf_state s = q then Inr BfStateSeen else Inl (Panic AssertPanic), s)"

fun bf_calling :: "wire \<Rightarrow> cbor \<Rightarrow> (bf_call, block_fetch, bf_returned) caller" where
  "bf_calling w c RunCall a = bind_t (case a of None \<Rightarrow> bf_run w c | Some l \<Rightarrow> bf_run_resume w c l)
     (\<lambda>_. sync_t (ret_s RunReturned))"
| "bf_calling w c NextCall a = bind_t (case a of None \<Rightarrow> bf_next w c | Some l \<Rightarrow> bf_next_resume w c l)
     (\<lambda>block. sync_t (ret_s (NextReturned block)))"
| "bf_calling w c DoneCall a =
     bind_t (case a of None \<Rightarrow> bf_closing w c | Some l \<Rightarrow> bf_closing_resume w c l)
       (\<lambda>_. sync_t (ret_s DoneReturned))"
| "bf_calling w c (BfStateIs q) a = sync_t (bf_assert_state q)"

interpretation bf_plays: resumable_calls bf_channel "\<lambda>ch s. s\<lparr>bf_channel := ch\<rparr>" bf_calling
proof (unfold_locales)
  fix w :: wire and c :: cbor and q :: bf_call
  assume progress: "cbor_progress c"
  let ?ex = "execute_from w c (bf_protocol c)"
  let ?set = "\<lambda>ch s. s\<lparr>bf_channel := ch\<rparr>"
  have sel: "pr_channel (bf_protocol c) = bf_channel" "pr_set_channel (bf_protocol c) = ?set"
    by (simp_all add: bf_protocol_def)
  note execute = bf.resumable_execute[OF progress, where ca = c and w = w, unfolded sel]
  note closure = bf.resumable_bind[where c = c, unfolded sel, OF execute]
    bf.resumable_start[where c = c, unfolded sel] bf.resumable_guard[where c = c, unfolded sel]
    bf.resumable_sync[where c = c, unfolded sel]
  show "resumable w bf_channel ?set (bf_calling w c q)"
  proof (cases q)
    case RunCall
    have "resumable w bf_channel ?set (\<lambda>a. bind_t (?ex a) (\<lambda>_. sync_t (ret_s RunReturned)))"
      by (rule closure(1)) (simp add: ret_s_def)
    then show ?thesis
      by (rule closure(2)[where f = "\<lambda>s. s\<lparr>bf_running := True\<rparr>"])
        (simp_all add: RunCall bind_t_def bf_run_def bf_run_resume_def execute_def)
  next
    case NextCall
    let ?take = "\<lambda>s. case bf_take s of (r, t) \<Rightarrow> (bind_r r (\<lambda>b. Inr (NextReturned b)), t)"
    let ?m = "\<lambda>a. bind_t (?ex a) (\<lambda>_. sync_t ?take)"
    have "resumable w bf_channel ?set ?m"
      by (rule closure(1)) (simp add: bf_take_def split: list.split)
    then have start: "resumable w bf_channel ?set (\<lambda>a. case a of
        None \<Rightarrow> (\<lambda>s. ?m None (s\<lparr>bf_running := True\<rparr>)) | Some l \<Rightarrow> ?m (Some l))"
      by (rule closure(2)[where f = "\<lambda>s. s\<lparr>bf_running := True\<rparr>"]) simp_all
    show ?thesis
      by (rule closure(3)[OF start, where g = "\<lambda>s. bf_result s = [] \<and> bf_state s = BfStreaming"
            and k = "\<lambda>s. if bf_result s \<noteq> [] then ?take s
              else if bf_state s = BfIdle then (Inr (NextReturned None), s)
              else (Inl (Panic ExplicitPanic), s)"])
        (auto simp: NextCall bf_next_def bf_next_resume_def bf_take_def bind_t_def sync_t_def ret_s_def
          execute_def fun_eq_iff split: list.splits bf_state.splits option.splits prod.splits poll.splits sum.splits)
  next
    case DoneCall
    have "resumable w bf_channel ?set (\<lambda>a. bind_t (?ex a) (\<lambda>_. sync_t (ret_s DoneReturned)))"
      by (rule closure(1)) (simp add: ret_s_def)
    then show ?thesis
      by (rule closure(2)[where f = "\<lambda>s. s\<lparr>bf_running := True, bf_done := True\<rparr>"])
        (simp_all add: DoneCall bind_t_def bf_closing_def bf_closing_resume_def execute_def)
  next
    case (BfStateIs q')
    then have "bf_calling w c q = (\<lambda>a. sync_t (bf_assert_state q'))" by (simp add: fun_eq_iff)
    then show ?thesis using closure(4)[of "bf_assert_state q'" w] by (simp add: bf_assert_state_def)
  qed
qed simp_all

section \<open>A session\<close>

text \<open>
  The user asks for the range once for every reply, reads the stream to its end and asserts that
  the client is idle again; at last it calls \<open>done\<close>.
\<close>

definition read_calls :: "bf_reply \<Rightarrow> bf_call list" where
  "read_calls reply = RunCall # replicate (Suc (length (reply_blocks reply))) NextCall"

definition read_returned :: "bf_reply \<Rightarrow> bf_returned list" where
  "read_returned reply = RunReturned #
     map (\<lambda>b. NextReturned (Some b)) (reply_blocks reply) @ [NextReturned None]"

definition round_calls :: "bf_reply \<Rightarrow> bf_call list" where
  "round_calls reply = read_calls reply @ [BfStateIs BfIdle]"

definition round_returned :: "bf_reply \<Rightarrow> bf_returned list" where
  "round_returned reply = read_returned reply @ [BfStateSeen]"

definition fetch_calls :: "bf_reply list \<Rightarrow> bf_call list" where
  "fetch_calls replies = concat (map round_calls replies) @ [DoneCall]"

definition fetch_returned :: "bf_reply list \<Rightarrow> bf_returned list" where
  "fetch_returned replies = concat (map round_returned replies) @ [DoneReturned]"

text \<open>The peer expects the request each time and sends the payloads of a reply.\<close>

fun fetch_script :: "cbor \<Rightarrow> bf_message \<Rightarrow> payload list list \<Rightarrow> payload peer_step list" where
  "fetch_script c request [] = [Expect (bf_bytes c ClientDone)]"
| "fetch_script c request (ps # pss) =
     Expect (bf_bytes c request) # map Say ps @ fetch_script c request pss"

definition carries_reply :: "cbor \<Rightarrow> bf_reply \<Rightarrow> payload list \<Rightarrow> bool" where
  "carries_reply c reply ps \<longleftrightarrow> (\<forall>p \<in> set ps. length p < 65536) \<and>
     concat ps = concat (map (bf_bytes c) (reply_messages reply))"

text \<open>The blocks that are handed out to a user who reads the stream to its end.\<close>

inductive hands_out :: "wire \<Rightarrow> cbor \<Rightarrow> block_fetch \<Rightarrow> byte list list \<Rightarrow> block_fetch \<Rightarrow> bool" for w c where
  stream_over: "bf_next w c s = Some (Ready (Inr None), u) \<Longrightarrow> hands_out w c s [] u"
| next_block: "bf_next w c s = Some (Ready (Inr (Some b)), t) \<Longrightarrow> hands_out w c t bs u \<Longrightarrow>
    hands_out w c s (b # bs) u"

lemma bf_collect_hands_out:
  assumes "bf_collect w c acc s = Some res"
  shows "res = (Ready (Inr r), u) \<longrightarrow> (\<exists>bs. r = acc @ bs \<and> hands_out w c s bs u)"
proof (rule bf_collect.raw_induct[where P = "\<lambda>w c acc s res. res = (Ready (Inr r), u) \<longrightarrow>
    (\<exists>bs. r = acc @ bs \<and> hands_out w c s bs u)", OF _ assms], rule impI)
  fix f w c acc s res
  assume IH: "\<And>c acc s b y. f c acc s b = Some y \<Longrightarrow> y = (Ready (Inr r), u) \<longrightarrow>
      (\<exists>bs. r = s @ bs \<and> hands_out c acc b bs u)"
    and eq: "(case bf_next w c s of None \<Rightarrow> None
     | Some (Ready (Inl f), s') \<Rightarrow> Some (Ready (Inl f), s')
     | Some (Ready (Inr None), s') \<Rightarrow> Some (Ready (Inr acc), s')
     | Some (Ready (Inr (Some block)), s') \<Rightarrow> f w c (acc @ [block]) s'
     | Some (Pending l, s') \<Rightarrow> Some (Pending l, s')) = Some res"
    and res: "res = (Ready (Inr r), u)"
  from eq res obtain x t where t: "bf_next w c s = Some (Ready (Inr x), t)"
    by (auto split: option.splits prod.splits poll.splits sum.splits)
  show "\<exists>bs. r = acc @ bs \<and> hands_out w c s bs u"
  proof (cases x)
    case None
    with eq res t show ?thesis by (auto intro: hands_out.stream_over)
  next
    case (Some b)
    with eq t have "f w c (acc @ [b]) t = Some res" by simp
    with IH res obtain bs where "r = (acc @ [b]) @ bs" "hands_out w c t bs u" by blast
    with t Some show ?thesis
      by (intro exI[of _ "b # bs"]) (simp add: hands_out.next_block)
  qed
qed

lemma hands_out_calls:
  "hands_out w c s bs u \<Longrightarrow> run_calls (bf_calling w c) (replicate (Suc (length bs)) NextCall) None got s =
    Some (Ends (got @ map (\<lambda>b. NextReturned (Some b)) bs @ [NextReturned None]), u)"
  by (induction arbitrary: got rule: hands_out.induct) (simp_all add: bind_t_def sync_t_def ret_s_def)

text \<open>A request on a channel with nothing to read waits, once it is written.\<close>

lemma bf_calm_ready:
  assumes "bf_calm s"
  obtains q where "bf_ready q s" "concat q = []"
proof -
  from assms have ch: "tuned 0x0003 [] (bf_channel s)" by (simp add: bf_calm_def)
  then obtain q where "cn_channels (ch_conn (bf_channel s)) 0x0003 = Some q" "concat q = []"
    by (rule tuned_queue)
  with that assms ch tuned_quiet[OF ch] show thesis
    by (auto simp: bf_ready_def bf_calm_def tuned_def)
qed

lemma bf_run_waits:
  assumes "cbor_stream c" and "bf_calm s"
  shows "\<exists>t. bf_run w c s = Some (Pending [], t) \<and> cn_sent (ch_conn (bf_channel t)) =
    cn_sent (after_send w 0x0003 (bf_bytes c (bf_request s)) (ch_conn (bf_channel s)))"
proof -
  obtain q where q: "bf_ready q s" "concat q = []" by (rule bf_calm_ready[OF assms(2)])
  let ?ch = "sent w (bf_bytes c (bf_request s)) (bf_channel s)"
  let ?s = "s\<lparr>bf_running := True, bf_state := BfBusy\<rparr>"
  have "bf_run w c s = execute w c (bf_protocol c) (?s\<lparr>bf_channel := feed [] q ?ch\<rparr>)"
    using bf_run_sends[OF assms(1) q(1), of w] by simp
  also have "\<dots> = Some (Pending [], ?s\<lparr>bf_channel := feed [] [] ?ch\<rparr>)"
    using bf.execute_idles[where ca = c and c = c and w = w and s = ?s and ch = ?ch and ps = q] q
    by (simp add: bf_ready_def bf_agency_def)
  moreover have "ch_idx (bf_channel s) = 0x0003" using assms(2) by (simp add: bf_calm_def tuned_def)
  ultimately show ?thesis by simp
qed

text \<open>One round: the request is written and the reply awaited; once it is there it is read.\<close>

lemma bf_round_heard:
  assumes "wire_ok w" "cbor_stream c" and "bf_calm s" "roomy (ch_conn (bf_channel s))"
    and "length (bf_bytes c (bf_request s)) < 65536" and "carries_reply c reply ps"
  obtains t v u where "bf_run w c s = Some (Pending [], t)"
    "cn_sent (ch_conn (bf_channel t)) = cn_sent (ch_conn (bf_channel s)) @
      frame w (cn_clock (ch_conn (bf_channel s)) 0) 0x0003 (bf_bytes c (bf_request s))"
    "bf_run w c (s\<lparr>bf_channel := hear w [said w 0x8003 clock (map Say ps)] (bf_channel s)\<rparr>) =
      Some (Ready (Inr ()), v)"
    "hands_out w c v (reply_blocks reply) u"
    "bf_calm u" "bf_config u = bf_config s" "roomy (ch_conn (bf_channel u))"
    "cn_sent (ch_conn (bf_channel u)) = cn_sent (ch_conn (bf_channel s)) @
      frame w (cn_clock (ch_conn (bf_channel s)) 0) 0x0003 (bf_bytes c (bf_request s))"
proof -
  let ?ask = "bf_bytes c (bf_request s)" and ?says = "said w 0x8003 clock (map Say ps)"
  have small: "\<forall>p \<in> set ps. length p < 65536" and bytes: "concat ps = concat (map (bf_bytes c) (reply_messages reply))"
    using assms(6) by (simp_all add: carries_reply_def)
  note ask = roomy_sent[OF assms(4,5), of w "0x0003"]
  obtain t where t: "bf_run w c s = Some (Pending [], t)"
    "cn_sent (ch_conn (bf_channel t)) = cn_sent (after_send w 0x0003 ?ask (ch_conn (bf_channel s)))"
    using bf_run_waits[OF assms(2,3), of w] by auto
  have "node_replies w c reply [?says]"
    unfolding node_replies_def using said_peer_writes[OF small, of w "0x8003" clock] bytes
    by (intro exI[of _ "map (Pair 0x8003) ps"]) (simp add: payloads_for_def comp_def)
  from bf_round[OF assms(1,2,3) this] obtain v u where
    v: "bf_run w c (s\<lparr>bf_channel := hear w [?says] (bf_channel s)\<rparr>) = Some (Ready (Inr ()), v)"
      "bf_collect w c [] v = Some (Ready (Inr (reply_blocks reply)), u)"
    and u: "bf_calm u" "bf_config u = bf_config s"
      "same_sender (ch_conn (bf_channel u)) (after_send w 0x0003 ?ask (ch_conn (bf_channel s)))"
    unfolding bf_hear_def by blast
  have "roomy (ch_conn (bf_channel u))" using roomy_same_sender[OF u(3)] assms(4) by simp
  moreover have "hands_out w c v (reply_blocks reply) u" using bf_collect_hands_out[OF v(2)] by simp
  ultimately show thesis
    using that[OF t(1) _ v(1)] t(2) u ask by (simp add: same_sender_def)
qed

lemma bf_read_round:
  assumes "wire_ok w" "cbor_stream c" "cbor_progress c" and "bf_calm s"
    and "roomy (ch_conn (bf_channel s))" and "length (bf_bytes c (bf_request s)) < 65536"
    and "carries_reply c reply ps"
    and rest: "\<And>u. bf_calm u \<Longrightarrow> bf_config u = bf_config s \<Longrightarrow> roomy (ch_conn (bf_channel u)) \<Longrightarrow>
      bf_plays.follows w c 0x0003 0x8003 (\<lambda>k. clock (k + length ps)) calls
        (got @ read_returned reply) u script goal"
  shows "bf_plays.follows w c 0x0003 0x8003 clock
    (read_calls reply @ calls) got s (Expect (bf_bytes c (bf_request s)) # map Say ps @ script) goal"
proof -
  let ?heard = "s\<lparr>bf_channel := hear w [said w 0x8003 clock (map Say ps)] (bf_channel s)\<rparr>"
  let ?asked = "frame w (cn_clock (ch_conn (bf_channel s)) 0) 0x0003 (bf_bytes c (bf_request s))"
  obtain t v u where t: "bf_run w c s = Some (Pending [], t)"
      "cn_sent (ch_conn (bf_channel t)) = cn_sent (ch_conn (bf_channel s)) @ ?asked"
    and v: "bf_run w c ?heard = Some (Ready (Inr ()), v)" "hands_out w c v (reply_blocks reply) u"
    and u: "bf_calm u" "bf_config u = bf_config s" "roomy (ch_conn (bf_channel u))"
      "cn_sent (ch_conn (bf_channel u)) = cn_sent (ch_conn (bf_channel s)) @ ?asked"
    by (rule bf_round_heard[OF assms(1,2,4-7)])
  have run: "run_calls (bf_calling w c) (read_calls reply) None got ?heard =
      Some (Ends (got @ read_returned reply), u)"
    using hands_out_calls[OF v(2), of "got @ [RunReturned]"] v(1)
    by (simp add: read_calls_def read_returned_def bind_t_def sync_t_def ret_s_def)
  show ?thesis
  proof (rule bf_plays.follows_round[OF assms(3) _ assms(6) _ _ _ caught_up_hear run])
    show "bf_plays.open_stream s"
      using assms(4) by (simp add: bf_plays.open_stream_def bf_calm_def tuned_def)
    show "run_calls (bf_calling w c) (read_calls reply) None got s =
        Some (Waits (read_calls reply) [] got, t)"
      using t(1) by (simp add: read_calls_def bind_t_def)
    show "bf_plays.written t = bf_plays.written s @ ?asked"
      "bf_plays.written u = bf_plays.written s @ ?asked"
      using t(2) u(4) by (simp_all add: bf_plays.written_def)
    show "bf_plays.follows w c 0x0003 0x8003 (\<lambda>k. clock (k + length ps)) calls
        (got @ read_returned reply) u script goal"
      by (rule rest[OF u(1-3)])
  qed (simp add: read_calls_def)
qed

text \<open>The round of a user who asserts then that the client is idle.\<close>

lemma bf_play_round:
  assumes "wire_ok w" "cbor_stream c" "cbor_progress c" and "bf_calm s"
    and "roomy (ch_conn (bf_channel s))" and "length (bf_bytes c (bf_request s)) < 65536"
    and "carries_reply c reply ps"
    and rest: "\<And>u. bf_calm u \<Longrightarrow> bf_config u = bf_config s \<Longrightarrow> roomy (ch_conn (bf_channel u)) \<Longrightarrow>
      bf_plays.follows w c 0x0003 0x8003 (\<lambda>k. clock (k + length ps)) calls
        (got @ round_returned reply) u script goal"
  shows "bf_plays.follows w c 0x0003 0x8003 clock
    (round_calls reply @ calls) got s (Expect (bf_bytes c (bf_request s)) # map Say ps @ script) goal"
proof -
  have "bf_plays.follows w c 0x0003 0x8003 clock (read_calls reply @ BfStateIs BfIdle # calls) got s
      (Expect (bf_bytes c (bf_request s)) # map Say ps @ script) goal"
  proof (rule bf_read_round[OF assms(1-7)])
    fix u assume u: "bf_calm u" "bf_config u = bf_config s" "roomy (ch_conn (bf_channel u))"
    then have "bf_calling w c (BfStateIs BfIdle) None (u\<lparr>bf_channel := ch\<rparr>) =
        Some (Ready (Inr BfStateSeen), u\<lparr>bf_channel := ch\<rparr>)" for ch
      by (simp add: sync_t_def bf_assert_state_def bf_calm_def)
    then show "bf_plays.follows w c 0x0003 0x8003 (\<lambda>k. clock (k + length ps))
        (BfStateIs BfIdle # calls) (got @ read_returned reply) u script goal"
      by (rule bf_plays.follows_instant) (use rest[OF u] in \<open>simp add: round_returned_def\<close>)
  qed
  then show ?thesis by (simp add: round_calls_def)
qed

lemma bf_play_follows:
  assumes "wire_ok w" "cbor_stream c" "cbor_progress c"
    and "list_all2 (carries_reply c) replies pss" and "bf_calm s" and "roomy (ch_conn (bf_channel s))"
    and "length (bf_bytes c (bf_request s)) < 65536" and "length (bf_bytes c ClientDone) < 65536"
  shows "bf_plays.follows w c 0x0003 0x8003 clock (fetch_calls replies) got s
    (fetch_script c (bf_request s) pss) (got @ fetch_returned replies)"
  using assms(4-7)
proof (induction replies pss arbitrary: clock got s rule: list_all2_induct)
  case Nil
  let ?bye = "bf_bytes c ClientDone"
  have ch: "tuned 0x0003 [] (bf_channel s)" and idle: "bf_state s = BfIdle"
    using Nil.prems(1) by (simp_all add: bf_calm_def)
  then have eof: "bf_plays.open_stream s" by (simp add: bf_plays.open_stream_def tuned_def)
  obtain u where u: "bf_closing w c s = Some (Ready (Inr ()), u)"
      "bf_channel u = sent w ?bye (bf_channel s)"
    using bf_closing_run[OF assms(2) idle, of w] ch by (simp add: tuned_def)
  have "bf_plays.follows w c 0x0003 0x8003 clock [DoneCall] got s (map Say [] @ [Expect ?bye])
      (got @ [DoneReturned])"
  proof (rule bf_plays.follows_last[OF assms(3) eof assms(8)])
    show "caught_up w (said w 0x8003 clock (map Say [])) (bf_channel s) (bf_channel s)"
      by (simp add: caught_up_def conn_arrive_def)
    show "run_calls (bf_calling w c) [DoneCall] None got (s\<lparr>bf_channel := bf_channel s\<rparr>) =
        Some (Ends (got @ [DoneReturned]), u)"
      using u(1) by (simp add: bind_t_def sync_t_def ret_s_def)
    show "bf_plays.written u = bf_plays.written s @
        frame w (cn_clock (ch_conn (bf_channel s)) 0) 0x0003 ?bye"
      using roomy_sent[OF Nil.prems(2) assms(8)] ch
      by (simp add: bf_plays.written_def u(2) tuned_def)
  qed simp
  then show ?case by (simp add: fetch_calls_def fetch_returned_def)
next
  case (Cons reply replies ps pss)
  have "bf_plays.follows w c 0x0003 0x8003 clock (round_calls reply @ fetch_calls replies) got s
      (Expect (bf_bytes c (bf_request s)) # map Say ps @ fetch_script c (bf_request s) pss)
      (got @ fetch_returned (reply # replies))"
  proof (rule bf_play_round[OF assms(1-3) Cons.prems Cons.hyps(1)])
    fix u assume u: "bf_calm u" "bf_config u = bf_config s" "roomy (ch_conn (bf_channel u))"
    have same: "bf_request u = bf_request s" using u(2) by (simp add: bf_request_def)
    from Cons.IH[OF u(1,3), of "\<lambda>k. clock (k + length ps)" "got @ round_returned reply"] Cons.prems(3)
    show "bf_plays.follows w c 0x0003 0x8003 (\<lambda>k. clock (k + length ps)) (fetch_calls replies)
        (got @ round_returned reply) u (fetch_script c (bf_request s) pss)
        (got @ fetch_returned (reply # replies))"
      by (simp add: same fetch_returned_def)
  qed
  then show ?case by (simp add: fetch_calls_def)
qed

text \<open>The play from the start, and the one that asserts first that the client is idle.\<close>

lemma bf_play_passes:
  assumes "wire_ok w" "cbor_stream c" "cbor_progress c"
    and "fresh near" "roomy near" "fresh far" "roomy far"
    and "bf_client builder near = (Inr client, near')"
    and "list_all2 (carries_reply c) replies pss"
    and "length (bf_bytes c (bf_request client)) < 65536" "length (bf_bytes c ClientDone) < 65536"
  shows "play_passes w (bf_calling w c) bf_channel (\<lambda>ch s. s\<lparr>bf_channel := ch\<rparr>)
      (play_opened (fetch_calls replies) client (fetch_script c (bf_request client) pss)
        (connection_channel 0x8003 far)) (fetch_returned replies)"
    and "play_passes w (bf_calling w c) bf_channel (\<lambda>ch s. s\<lparr>bf_channel := ch\<rparr>)
      (play_opened (BfStateIs BfIdle # fetch_calls replies) client
        (fetch_script c (bf_request client) pss) (connection_channel 0x8003 far))
      (BfStateSeen # fetch_returned replies)"
proof -
  have client: "bf_state client = BfIdle" "bf_result client = []" "\<not> bf_done client"
      "bf_channel client = connection_channel 0x0003 near"
    using assms(8) by (auto simp: bf_client_def Let_def split: sum.splits)
  then have calm: "bf_calm client" "roomy (ch_conn (bf_channel client))"
    using tuned_open[OF assms(4)] peer_opened(1)[OF assms(4,5)] by (simp_all add: bf_calm_def)
  note far = peer_opened[OF assms(6,7), where idx = "0x8003"]
  have small: "length p < 65536" if "Say p \<in> set (fetch_script c (bf_request client) pss)" for p
  proof -
    from assms(9) have "\<forall>ps \<in> set pss. \<forall>p \<in> set ps. length p < 65536"
      by (induction rule: list_all2_induct) (auto simp: carries_reply_def)
    then show ?thesis using that by (induction pss) auto
  qed
  note follows = bf_play_follows[OF assms(1-3,9) calm assms(10,11), of "cn_clock far"]
  from follows[of "[]"] show "play_passes w (bf_calling w c) bf_channel (\<lambda>ch s. s\<lparr>bf_channel := ch\<rparr>)
      (play_opened (fetch_calls replies) client (fetch_script c (bf_request client) pss)
        (connection_channel 0x8003 far)) (fetch_returned replies)"
    by (intro bf_plays.follows_passes[OF assms(1,3) far(1,2) small]) (simp_all add: far(3,4))
  have "bf_calling w c (BfStateIs BfIdle) None (client\<lparr>bf_channel := ch\<rparr>) =
      Some (Ready (Inr BfStateSeen), client\<lparr>bf_channel := ch\<rparr>)" for ch
    by (simp add: sync_t_def bf_assert_state_def client(1))
  from bf_plays.follows_instant[OF this, where got = "[]"] follows[of "[BfStateSeen]"]
  show "play_passes w (bf_calling w c) bf_channel (\<lambda>ch s. s\<lparr>bf_channel := ch\<rparr>)
      (play_opened (BfStateIs BfIdle # fetch_calls replies) client
        (fetch_script c (bf_request client) pss) (connection_channel 0x8003 far))
      (BfStateSeen # fetch_returned replies)"
    by (intro bf_plays.follows_passes[OF assms(1,3) far(1,2) small]) (simp_all add: far(3,4))
qed

text \<open>
  C5. The whole life of a block fetch client under any schedule: a user makes its calls at one end
  of a socket, a node follows its script at the other, the replies cut into payloads in any way.
  However the calls are polled, the bytes cut and delayed and the tasks run, the node meets no
  payload that it does not expect, the user no failure; when the user is through it has been
  handed exactly the blocks of the replies, in order, and has found the client idle after each;
  and every schedule can be completed.
\<close>

theorem block_fetch_any_schedule:
  assumes "wire_ok w" "cbor_stream c" "cbor_progress c"
    and "fresh near" "roomy near" "fresh far" "roomy far"
    and "bf_client builder near = (Inr client, near')"
    and "list_all2 (carries_reply c) replies pss"
    and "length (bf_bytes c (bf_request client)) < 65536" "length (bf_bytes c ClientDone) < 65536"
  shows "play_passes w (bf_calling w c) bf_channel (\<lambda>ch s. s\<lparr>bf_channel := ch\<rparr>)
    (play_opened (fetch_calls replies) client (fetch_script c (bf_request client) pss)
      (connection_channel 0x8003 far)) (fetch_returned replies)"
  by (rule bf_play_passes(1)[OF assms])

theorem block_fetch_any_schedule_witness:
  "\<exists>client conn. bf_client (bf_last 44 [2] (bf_first 42 [1] bf_builder_new))
      (from_unix_stream 0 sample_socket) = (Inr client, conn) \<and>
    play_passes sample_wire (bf_calling sample_wire sample_cbor) bf_channel
      (\<lambda>ch s. s\<lparr>bf_channel := ch\<rparr>)
      (play_opened
        [RunCall, NextCall, NextCall, NextCall, BfStateIs BfIdle, RunCall, NextCall, BfStateIs BfIdle, DoneCall]
        client
        ([Expect (bf_bytes sample_cbor (bf_request client)),
          Say (bf_bytes sample_cbor StartBatch @ bf_bytes sample_cbor (Block [1])),
          Say (bf_bytes sample_cbor (Block [2])), Say (bf_bytes sample_cbor BatchDone),
          Expect (bf_bytes sample_cbor (bf_request client)), Say (bf_bytes sample_cbor NoBlocks),
          Expect (bf_bytes sample_cbor ClientDone)])
        (connection_channel 0x8003 (from_unix_stream 0 sample_socket)))
      [RunReturned, NextReturned (Some [1]), NextReturned (Some [2]), NextReturned None, BfStateSeen,
        RunReturned, NextReturned None, BfStateSeen, DoneReturned]"
proof -
  let ?bytes = "bf_bytes sample_cbor"
  let ?replies = "[HasBlocks [[1], [2]], HasNone]"
  let ?pss = "[[?bytes StartBatch @ ?bytes (Block [1]), ?bytes (Block [2]), ?bytes BatchDone],
    [?bytes NoBlocks]]"
  obtain client conn where client: "bf_client (bf_last 44 [2] (bf_first 42 [1] bf_builder_new))
      (from_unix_stream 0 sample_socket) = (Inr client, conn)"
    "bf_config client = \<lparr>cfg_first = point_of_bytes (42, [1]), cfg_last = point_of_bytes (44, [2])\<rparr>"
    by (simp add: bf_client_def bf_first_def bf_last_def bf_builder_new_def Let_def)
  have short: "length (?bytes (bf_request client)) < 65536" "length (?bytes ClientDone) < 65536"
    by (simp_all add: bf_request_def client(2) point_of_bytes_def bf_bytes_def message_to_bytes_def
        sample_cbor_def)
  have "list_all2 (carries_reply sample_cbor) ?replies ?pss"
    by (simp add: carries_reply_def batch_def) (simp add: bf_bytes_def message_to_bytes_def sample_cbor_def)
  from block_fetch_any_schedule[OF sample_wire_ok sample_cbor_stream sample_cbor_progress
      sample_socket_works sample_socket_works client(1) this short]
  have "play_passes sample_wire (bf_calling sample_wire sample_cbor) bf_channel
      (\<lambda>ch s. s\<lparr>bf_channel := ch\<rparr>) (play_opened (fetch_calls ?replies) client
        (fetch_script sample_cbor (bf_request client) ?pss)
        (connection_channel 0x8003 (from_unix_stream 0 sample_socket))) (fetch_returned ?replies)" .
  with client(1) show ?thesis
    by (simp add: fetch_calls_def round_calls_def read_calls_def fetch_returned_def
        round_returned_def read_returned_def)
qed

end
