(* ===== verification/Crate_Tests.thy ===== *)
theory Crate_Tests
  imports Fetch_Plays Handshake_Plays
begin

unbundle bit_operations_syntax

text \<open>
  The tests of the crate, each as a definition of what it runs and asserts, and the theorems that
  they pass: whatever codec and hash function they run with, for those that only convert values;
  under every schedule of the two tasks they join, for those that run a client or a server
  against a mock peer.
\<close>

text \<open>A byte string literal.\<close>

definition ascii :: "string \<Rightarrow> byte list" where
  "ascii s = map of_char s"

section \<open>Conversions\<close>

text \<open>The tests of \<open>src/protocols.rs\<close>.\<close>

definition point_converts :: bool where
  "point_converts =
     (let point = \<lparr>pt_slot = 0x1122334455667788, pt_hash = ascii ''mock-hash''\<rparr>
      in unwrap (point_of_values (point_to_vec point)) = Inr point)"

definition tip_converts :: bool where
  "tip_converts =
     (let tip = \<lparr>tip_block_number = 0x1234, tip_slot_number = 0x5678, tip_hash = ascii ''mock-hash''\<rparr>
      in unwrap (tip_of_values (tip_to_vec tip)) = Inr tip)"

definition mock_header :: block_header where
  "mock_header =
     \<lparr>bh_block_number = 1, bh_slot_number = 2, bh_hash = [],
      bh_prev_hash = ascii ''mock-prev-hash'', bh_node_vkey = ascii ''mock-node-vkey'',
      bh_node_vrf_vkey = ascii ''mock-node-vrf_vkey'', bh_eta_vrf_0 = ascii ''mock-eta-vrf-0'',
      bh_eta_vrf_1 = ascii ''mock-eta-vrf-1'', bh_leader_vrf_0 = ascii ''mock-leader-vrf-0'',
      bh_leader_vrf_1 = ascii ''mock-leader-vrf-1'', bh_block_size = 3,
      bh_block_body_hash = ascii ''mock-block-body-hash'', bh_pool_opcert = ascii ''mock-pool-opcert'',
      bh_unknown_0 = 4, bh_unknown_1 = 5, bh_unknown_2 = ascii ''mock-unknown-2'',
      bh_protocol_major_version = 6, bh_protocol_minor_version = 7\<rparr>"

definition assert_eq :: "'a \<Rightarrow> 'a \<Rightarrow> (error, unit) result" where
  "assert_eq x y = (if x = y then Inr () else Inl (Panic AssertPanic))"

definition header_converts :: "cbor \<Rightarrow> (nat \<Rightarrow> byte list \<Rightarrow> byte list) \<Rightarrow> (error, unit) result" where
  "header_converts c blake2b =
     bind_r (unwrap (wrapped_of_header c mock_header)) (\<lambda>wrapped.
     let header = mock_header\<lparr>bh_hash := header_hash blake2b wrapped\<rparr> in
     bind_r (unwrap (wrapped_of_header c header)) (\<lambda>wrapped.
     bind_r (assert_eq (bh_hash header) (header_hash blake2b wrapped)) (\<lambda>_.
     bind_r (unwrap (header_of_wrapped c blake2b wrapped)) (\<lambda>header'.
     assert_eq header header'))))"

text \<open>
  The tests \<open>message_cbor_works\<close> of the three protocols: every message of the list is read back
  from its values.
\<close>

type_synonym mock_block = "u64 \<times> byte list \<times> byte list"

definition mock_data :: "mock_block list" where
  "mock_data =
     [(42, ascii ''mock-hash-1'', ascii ''mock-block-1''),
      (43, ascii ''mock-hash-2'', ascii ''mock-block-2''),
      (44, ascii ''mock-hash-3'', ascii ''mock-block-3'')]"

definition mock_request :: bf_message where
  "mock_request = (case (hd mock_data, last mock_data) of
       ((first_slot, first_hash, _), (last_slot, last_hash, _)) \<Rightarrow>
         RequestRange (point_of_bytes (first_slot, first_hash)) (point_of_bytes (last_slot, last_hash)))"

definition bf_message_cbor_works :: bool where
  "bf_message_cbor_works = list_all (\<lambda>m. bind_r (bf_to_values m) bf_from_iter = Inr m)
     [mock_request, ClientDone, StartBatch, NoBlocks, Block (snd (snd (hd mock_data))), BatchDone]"

definition cs_message_cbor_works :: bool where
  "cs_message_cbor_works =
     (let point = \<lparr>pt_slot = 0x1234, pt_hash = ascii ''mock-point-hash''\<rparr>;
          tip = \<lparr>tip_block_number = 0xabcd, tip_slot_number = 0x5678, tip_hash = ascii ''mock-tip-hash''\<rparr>;
          header = \<lparr>wh_bytes = ascii ''mock-block-header''\<rparr>
      in list_all (\<lambda>m. bind_r (cs_to_values m) cs_from_iter = Inr m)
           [RequestNext, AwaitReply, RollForward header tip, RollBackward point tip,
            FindIntersect [point, point], IntersectFound point tip, IntersectNotFound tip, MsgDone])"

definition hs_message_cbor_works :: "cbor \<Rightarrow> bool" where
  "hs_message_cbor_works c = list_all (\<lambda>m. bind_r (hs_to_values c m) hs_from_iter = Inr m)
     [ProposeVersions (map (\<lambda>n. (N2N n, 0x12345678)) [1..6]),
      ProposeVersions (map (\<lambda>n. (C2N n, 0x12345678)) [1..8]),
      AcceptVersion (N2N 7) 0x87564321]"

text \<open>
  The tests of the conversions and of the messages pass, with any CBOR library that behaves as
  documented and any hash function.
\<close>

theorem conversion_tests_pass:
  assumes "cbor_slice c" and "cbor_order c"
  shows "point_converts \<and> tip_converts \<and> header_converts c blake2b = Inr () \<and>
    bf_message_cbor_works \<and> cs_message_cbor_works \<and> hs_message_cbor_works c"
proof (intro conjI)
  show point_converts by (simp add: point_converts_def Let_def)
  show tip_converts by (simp add: tip_converts_def Let_def)
  obtain wrapped where wrapped: "wrapped_of_header c mock_header = Inr wrapped"
    by (rule header_wrap_unwrap[OF assms(1)])
  have same: "wrapped_of_header c (mock_header\<lparr>bh_hash := hash\<rparr>) = Inr wrapped" for hash
    using wrapped by (simp add: wrapped_of_header_def header_to_values_def mock_header_def)
  have "header_of_wrapped c blake2b wrapped = Inr (mock_header\<lparr>bh_hash := header_hash blake2b wrapped\<rparr>)"
    using header_wrap_unwrap[OF assms(1), of mock_header blake2b] wrapped by auto
  then show "header_converts c blake2b = Inr ()"
    by (simp add: header_converts_def wrapped same assert_eq_def Let_def)
  have "bind_r (bf_to_values m) bf_from_iter = Inr m" for m
    using bf_msg.round_trip[of m undefined] by auto
  then show bf_message_cbor_works by (simp add: bf_message_cbor_works_def)
  have "bind_r (cs_to_values m) cs_from_iter = Inr m" for m
    using cs_round_trip[of m undefined] by auto
  then show cs_message_cbor_works by (simp add: cs_message_cbor_works_def Let_def)
  have "hs_wf (ProposeVersions (map (\<lambda>n. (N2N n, 0x12345678)) [1..6]))"
    "hs_wf (ProposeVersions (map (\<lambda>n. (C2N n, 0x12345678)) [1..8]))"
    "hs_wf (AcceptVersion (N2N 7) 0x87564321)"
    by (simp_all add: upto_rec1 less_version_def)
  moreover have "bind_r (hs_to_values c m) hs_from_iter = Inr m" if "hs_wf m" for m
    using hs_round_trip[OF assms(2) that] by auto
  ultimately show "hs_message_cbor_works c"
    by (simp only: hs_message_cbor_works_def list.pred_inject simp_thms)
qed

theorem conversion_tests_pass_witness:
  "header_converts sample_cbor sample_hash = Inr () \<and> hs_message_cbor_works sample_cbor"
  using conversion_tests_pass[OF sample_cbor_slice sample_cbor_order] by blast

section \<open>A client or server against a mock peer\<close>

text \<open>
  A test that joins two tasks: what it sets up is a play and the results it asserts, or a panic
  of the set-up. The tests wait for both tasks before they go on to the next part; the plays leave
  this barrier out, so that they have all schedules of the test and more.
\<close>

definition test_passes :: "wire \<Rightarrow> ('q, 's, 'r) caller \<Rightarrow> ('s \<Rightarrow> channel) \<Rightarrow> (channel \<Rightarrow> 's \<Rightarrow> 's) \<Rightarrow>
    (error, ('q, 's, 'r) play \<times> 'r list) result \<Rightarrow> bool" where
  "test_passes w call chan with_chan test = (case test of
       Inl f \<Rightarrow> False
     | Inr (play, goal) \<Rightarrow> play_passes w call chan with_chan play goal)"

definition unwrap_io :: "error + 'a \<Rightarrow> (error, 'a) result" where
  "unwrap_io r = (case r of Inl e \<Rightarrow> Inl (Panic UnwrapPanic) | Inr a \<Rightarrow> Inr a)"

text \<open>The payloads of a script given by its messages.\<close>

fun step_bytes :: "('m \<Rightarrow> (error, byte list) result) \<Rightarrow> 'm peer_step \<Rightarrow>
    (error, payload peer_step) result" where
  "step_bytes f (Expect m) = bind_r (f m) (\<lambda>bytes. Inr (Expect bytes))"
| "step_bytes f (Say m) = bind_r (f m) (\<lambda>bytes. Inr (Say bytes))"

subsection \<open>Block fetch\<close>

definition bf_client_works :: "cbor \<Rightarrow> nat \<Rightarrow> error + socket \<times> socket \<Rightarrow>
    (error, (bf_call, block_fetch, bf_returned) play \<times> bf_returned list) result" where
  "bf_client_works c now pair =
     bind_r (unwrap_io (test_unix_pair now pair)) (\<lambda>(connection, endpoint).
     let channel = connection_channel 0x8003 endpoint;
         (first_slot, first_hash, _) = hd mock_data;
         (last_slot, last_hash, _) = last mock_data;
         blocks = map (\<lambda>(_, _, block). block) mock_data in
     bind_r (unwrap (fst (bf_client
       (bf_last last_slot last_hash (bf_first first_slot first_hash bf_builder_new)) connection))) (\<lambda>client.
     bind_r (collect_r (step_bytes (message_to_bytes c bf_to_values))
       ([Expect mock_request, Say StartBatch] @ map (\<lambda>block. Say (Block block)) blocks @ [Say BatchDone] @
        [Expect mock_request, Say NoBlocks] @
        [Expect ClientDone])) (\<lambda>script.
     Inr (play_opened
       ([BfStateIs BfIdle] @
        [RunCall] @ map (\<lambda>_. NextCall) blocks @ [NextCall] @ [BfStateIs BfIdle] @
        [RunCall, NextCall] @ [BfStateIs BfIdle] @
        [DoneCall]) client script channel,
       [BfStateSeen] @
        [RunReturned] @ map (\<lambda>block. NextReturned (Some block)) blocks @ [NextReturned None] @ [BfStateSeen] @
        [RunReturned, NextReturned None] @ [BfStateSeen] @
        [DoneReturned]))))"

text \<open>The messages of the test fit a frame.\<close>

definition mock_messages :: "bf_message list" where
  "mock_messages = [mock_request, ClientDone, StartBatch, NoBlocks, BatchDone] @
     map (\<lambda>(_, _, block). Block block) mock_data"

text \<open>
  C27. The test \<open>client_works\<close> of block fetch passes under every schedule of its two tasks, on a
  socket that takes what is written, with a codec that encodes its messages in less than a frame.
\<close>

theorem bf_client_test_passes:
  assumes "wire_ok w" "cbor_stream c" "cbor_progress c"
    and "roomy (from_unix_stream now left)" "roomy (from_unix_stream now right)"
    and "\<forall>m \<in> set mock_messages. length (bf_bytes c m) < 65536"
  shows "test_passes w (bf_calling w c) bf_channel (\<lambda>ch s. s\<lparr>bf_channel := ch\<rparr>)
    (bf_client_works c now (Inr (left, right)))"
proof -
  let ?near = "from_unix_stream now left" and ?far = "from_unix_stream now right"
  let ?bytes = "bf_bytes c"
  let ?builder = "bf_last 44 (ascii ''mock-hash-3'') (bf_first 42 (ascii ''mock-hash-1'') bf_builder_new)"
  let ?blocks = "[ascii ''mock-block-1'', ascii ''mock-block-2'', ascii ''mock-block-3'']"
  let ?replies = "[HasBlocks ?blocks, HasNone]"
  let ?pss = "[map ?bytes (StartBatch # batch ?blocks), [?bytes NoBlocks]]"
  obtain client near' where client: "bf_client ?builder ?near = (Inr client, near')"
    by (simp add: bf_client_def bf_first_def bf_last_def bf_builder_new_def Let_def)
  have request: "bf_request client = mock_request"
    using client by (auto simp: bf_client_def bf_first_def bf_last_def bf_builder_new_def Let_def
        bf_request_def mock_request_def mock_data_def)
  have fresh: "fresh (from_unix_stream now s)" if "roomy (from_unix_stream now s)" for s
    using roomy_writable[OF that] unfolding from_unix_stream_def
    by (intro connection_new_fresh) (simp add: writable_def connection_new_def)
  have bytes: "message_to_bytes c bf_to_values m = Inr (?bytes m)" for m
    using bf_bytes_encodes(1)[OF assms(2), of m] by (simp add: bf_protocol_def)
  have "list_all2 (carries_reply c) ?replies ?pss"
    using assms(6) by (simp add: carries_reply_def batch_def mock_messages_def mock_data_def)
  from bf_play_passes(2)[OF assms(1-3) fresh[OF assms(4)] assms(4) fresh[OF assms(5)] assms(5)
      client this] assms(6)
  have "play_passes w (bf_calling w c) bf_channel (\<lambda>ch s. s\<lparr>bf_channel := ch\<rparr>)
    (play_opened (BfStateIs BfIdle # fetch_calls ?replies) client
      (fetch_script c (bf_request client) ?pss) (connection_channel 0x8003 ?far))
    (BfStateSeen # fetch_returned ?replies)"
    by (simp add: request mock_messages_def)
  moreover have "bf_client_works c now (Inr (left, right)) = Inr
      (play_opened (BfStateIs BfIdle # fetch_calls ?replies) client
        (fetch_script c (bf_request client) ?pss) (connection_channel 0x8003 ?far),
      BfStateSeen # fetch_returned ?replies)"
    using client by (simp add: bf_client_works_def test_unix_pair_def unwrap_io_def Let_def mock_data_def
        fetch_calls_def round_calls_def read_calls_def fetch_returned_def round_returned_def read_returned_def request bytes batch_def)
  ultimately show ?thesis by (simp add: test_passes_def)
qed

theorem bf_client_test_passes_witness:
  "test_passes sample_wire (bf_calling sample_wire sample_cbor) bf_channel
    (\<lambda>ch s. s\<lparr>bf_channel := ch\<rparr>)
    (bf_client_works sample_cbor 0 (Inr (sample_socket, sample_socket)))"
proof (rule bf_client_test_passes[OF sample_wire_ok sample_cbor_stream sample_cbor_progress
      sample_socket_works(2) sample_socket_works(2)])
  show "\<forall>m \<in> set mock_messages. length (bf_bytes sample_cbor m) < 65536"
    by (simp add: mock_messages_def mock_request_def mock_data_def ascii_def point_of_bytes_def
        bf_bytes_def message_to_bytes_def sample_cbor_def)
qed

subsection \<open>Handshake\<close>

text \<open>The bytes the tests write out themselves, for the magic number of both.\<close>

definition test_propose :: "cbor \<Rightarrow> u32 \<Rightarrow> (error, byte list) result" where
  "test_propose c magic = unwrap (lib_result (to_vec_value c (Array
     [Integer 0,
      Map (btree_collect (value_less c) []
        [(Integer 6, Array [Integer (uint magic), Bool False]),
         (Integer 7, Array [Integer (uint magic), Bool False])])])))"

definition test_confirm :: "cbor \<Rightarrow> u32 \<Rightarrow> (error, byte list) result" where
  "test_confirm c magic = unwrap (lib_result (to_vec_value c (Array
     [Integer 1, Integer 7, Array [Integer (uint magic), Bool False]])))"

definition handshake_client_works :: "cbor \<Rightarrow> nat \<Rightarrow> error + socket \<times> socket \<Rightarrow>
    (error, (hs_use, handshake, hs_used) play \<times> hs_used list) result" where
  "handshake_client_works c now pair =
     bind_r (unwrap_io (test_unix_pair now pair)) (\<lambda>(connection, endpoint).
     let channel = connection_channel 0x8000 endpoint; magic = 0xdddddddd in
     bind_r (unwrap (hs_client (network_magic magic (node_to_node hs_builder)) connection)) (\<lambda>client.
     bind_r (test_propose c magic) (\<lambda>request.
     bind_r (test_confirm c magic) (\<lambda>response.
     Inr (play_opened [HsStateIs Propose, Negotiate, HsStateIs HsDone] client
         [Expect request, Say response] channel,
       [HsStateSeen, Negotiated (N2N 7) 0xdddddddd, HsStateSeen])))))"

definition handshake_server_works :: "cbor \<Rightarrow> nat \<Rightarrow> error + socket \<times> socket \<Rightarrow>
    (error, (hs_use, handshake, hs_used) play \<times> hs_used list) result" where
  "handshake_server_works c now pair =
     bind_r (unwrap_io (test_unix_pair now pair)) (\<lambda>(connection, endpoint).
     let channel = connection_channel 0x0000 endpoint; magic = 0xdddddddd in
     bind_r (unwrap (hs_server (network_magic magic (node_to_node hs_builder)) connection)) (\<lambda>server.
     bind_r (test_propose c magic) (\<lambda>request.
     bind_r (test_confirm c magic) (\<lambda>response.
     Inr (play_opened [HsStateIs Propose, Negotiate, HsStateIs HsDone] server
         [Say request, Expect response] channel,
       [HsStateSeen, Negotiated (N2N 7) magic, HsStateSeen])))))"

text \<open>
  Serialising a vector of values and the value that is this array is the same for \<open>serde\<close>: both are
  a sequence of its data model.
\<close>

definition cbor_sequence :: "cbor \<Rightarrow> bool" where
  "cbor_sequence c \<longleftrightarrow> (\<forall>vs. to_vec_value c (Array vs) = to_vec_values c vs)"

lemma test_bytes:
  assumes "cbor_stream c" "cbor_order c" "cbor_sequence c"
  shows "test_propose c magic = Inr (hs_bytes c (ProposeVersions [(N2N 6, magic), (N2N 7, magic)]))"
    and "test_confirm c magic = Inr (hs_bytes c (AcceptVersion (N2N 7) magic))"
proof -
  have bytes: "message_to_bytes c (hs_to_values c) m = Inr (hs_bytes c m)" if "hs_wf m" for m
    using hs_bytes_encodes(1)[OF assms(1,2) that] by simp
  have "test_propose c magic =
      message_to_bytes c (hs_to_values c) (ProposeVersions [(N2N 6, magic), (N2N 7, magic)])"
    using assms(3) by (simp add: test_propose_def message_to_bytes_def cbor_sequence_def)
  then show "test_propose c magic = Inr (hs_bytes c (ProposeVersions [(N2N 6, magic), (N2N 7, magic)]))"
    using bytes by (simp add: less_version_def)
  have "test_confirm c magic = message_to_bytes c (hs_to_values c) (AcceptVersion (N2N 7) magic)"
    using assms(3) by (simp add: test_confirm_def message_to_bytes_def cbor_sequence_def u16_try_from_def)
  then show "test_confirm c magic = Inr (hs_bytes c (AcceptVersion (N2N 7) magic))"
    using bytes by simp
qed

lemma hs_tests_pass:
  assumes "wire_ok w" "cbor_stream c" "cbor_order c" "cbor_progress c" "cbor_sequence c"
    and "roomy (from_unix_stream now left)" "roomy (from_unix_stream now right)"
    and "length (hs_bytes c (ProposeVersions [(N2N 6, 0xdddddddd), (N2N 7, 0xdddddddd)])) < 65536"
    and "length (hs_bytes c (AcceptVersion (N2N 7) 0xdddddddd)) < 65536"
  shows "test_passes w (hs_calling w c) hs_channel (\<lambda>ch s. s\<lparr>hs_channel := ch\<rparr>)
      (handshake_client_works c now (Inr (left, right)))"
    and "test_passes w (hs_calling w c) hs_channel (\<lambda>ch s. s\<lparr>hs_channel := ch\<rparr>)
      (handshake_server_works c now (Inr (left, right)))"
proof -
  let ?near = "from_unix_stream now left" and ?far = "from_unix_stream now right"
  let ?magic = "0xdddddddd :: u32" and ?b = "network_magic 0xdddddddd (node_to_node hs_builder)"
  have b: "hb_versions ?b = [N2N 6, N2N 7]" "hb_magic ?b = ?magic"
    by (simp_all add: network_magic_def node_to_node_def hs_builder_def)
  then have msgs: "hb_proposal ?b = ProposeVersions [(N2N 6, ?magic), (N2N 7, ?magic)]"
    "hb_acceptance ?b = AcceptVersion (N2N 7) ?magic"
    by (simp_all add: hb_proposal_def hb_acceptance_def)
  have configured: "hs_configured ?b" by (intro hs_configured.intros)
  have fresh: "fresh (from_unix_stream now s)" if "roomy (from_unix_stream now s)" for s
    using roomy_writable[OF that] unfolding from_unix_stream_def
    by (intro connection_new_fresh) (simp add: writable_def connection_new_def)
  note bytes = test_bytes[OF assms(2,3,5), of ?magic]
  note peer = peer_opened[OF fresh[OF assms(7)] assms(7)]
  have "hs_plays.follows w c 0 0x8000 (cn_clock ?far) hs_uses []
      (hs_with_channel ?b Client (connection_channel 0 ?near))
      [Expect (hs_bytes c (hb_proposal ?b)), Say (hs_bytes c (hb_acceptance ?b))]
      (hs_seen (N2N 7) ?magic)"
    using hs_client_follows[OF assms(1-4) fresh[OF assms(6)] assms(6) configured, of "N2N 7"] assms(8,9)
    by (simp add: b msgs)
  then have "play_passes w (hs_calling w c) hs_channel (\<lambda>ch s. s\<lparr>hs_channel := ch\<rparr>)
      (play_opened hs_uses (hs_with_channel ?b Client (connection_channel 0 ?near))
        [Expect (hs_bytes c (hb_proposal ?b)), Say (hs_bytes c (hb_acceptance ?b))]
        (connection_channel 0x8000 ?far)) (hs_seen (N2N 7) ?magic)"
    using assms(9) by (intro hs_plays.follows_passes[OF assms(1,4) peer(1,2)]) (auto simp: peer(3,4) msgs)
  then show "test_passes w (hs_calling w c) hs_channel (\<lambda>ch s. s\<lparr>hs_channel := ch\<rparr>)
      (handshake_client_works c now (Inr (left, right)))"
    by (simp add: handshake_client_works_def test_unix_pair_def unwrap_io_def Let_def hs_client_def hs_build_def
        bytes msgs test_passes_def)
  have "hs_plays.follows w c 0x8000 0 (cn_clock ?far) hs_uses []
      (hs_with_channel ?b Server (connection_channel 0x8000 ?near))
      [Say (hs_bytes c (hb_proposal ?b)), Expect (hs_bytes c (hb_acceptance ?b))]
      (hs_seen (N2N 7) ?magic)"
    using hs_server_follows[OF assms(1-4) fresh[OF assms(6)] assms(6) configured hb_wf(1)[OF configured]]
      assms(8,9)
    by (simp add: b msgs)
  then have "play_passes w (hs_calling w c) hs_channel (\<lambda>ch s. s\<lparr>hs_channel := ch\<rparr>)
      (play_opened hs_uses (hs_with_channel ?b Server (connection_channel 0x8000 ?near))
        [Say (hs_bytes c (hb_proposal ?b)), Expect (hs_bytes c (hb_acceptance ?b))]
        (connection_channel 0 ?far)) (hs_seen (N2N 7) ?magic)"
    using assms(8) by (intro hs_plays.follows_passes[OF assms(1,4) peer(1,2)]) (auto simp: peer(3,4) msgs)
  then show "test_passes w (hs_calling w c) hs_channel (\<lambda>ch s. s\<lparr>hs_channel := ch\<rparr>)
      (handshake_server_works c now (Inr (left, right)))"
    by (simp add: handshake_server_works_def test_unix_pair_def unwrap_io_def Let_def hs_server_def hs_build_def
        bytes msgs test_passes_def)
qed

text \<open>
  C26. The tests \<open>handshake_client_works\<close> and \<open>handshake_server_works\<close> pass under every schedule of
  their two tasks, on a socket that takes what is written, with a codec that encodes the two messages
  in less than a frame.
\<close>

theorem handshake_tests_pass:
  assumes "wire_ok w" "cbor_stream c" "cbor_order c" "cbor_progress c" "cbor_sequence c"
    and "roomy (from_unix_stream now left)" "roomy (from_unix_stream now right)"
    and "length (hs_bytes c (ProposeVersions [(N2N 6, 0xdddddddd), (N2N 7, 0xdddddddd)])) < 65536"
    and "length (hs_bytes c (AcceptVersion (N2N 7) 0xdddddddd)) < 65536"
  shows "test_passes w (hs_calling w c) hs_channel (\<lambda>ch s. s\<lparr>hs_channel := ch\<rparr>)
      (handshake_client_works c now (Inr (left, right))) \<and>
    test_passes w (hs_calling w c) hs_channel (\<lambda>ch s. s\<lparr>hs_channel := ch\<rparr>)
      (handshake_server_works c now (Inr (left, right)))"
  by (intro conjI hs_tests_pass[OF assms])

theorem handshake_tests_pass_witness:
  "test_passes sample_wire (hs_calling sample_wire sample_cbor) hs_channel
    (\<lambda>ch s. s\<lparr>hs_channel := ch\<rparr>)
    (handshake_client_works sample_cbor 0 (Inr (sample_socket, sample_socket)))"
proof -
  have "cbor_sequence sample_cbor" by (simp add: cbor_sequence_def sample_cbor_def)
  moreover have "length (hs_bytes sample_cbor
      (ProposeVersions [(N2N 6, 0xdddddddd), (N2N 7, 0xdddddddd)])) < 65536"
    "length (hs_bytes sample_cbor (AcceptVersion (N2N 7) 0xdddddddd)) < 65536"
    by (simp_all add: hs_bytes_def message_to_bytes_def sample_cbor_def u16_try_from_def)
  ultimately show ?thesis
    using handshake_tests_pass[OF sample_wire_ok sample_cbor_stream sample_cbor_order
        sample_cbor_progress _ sample_socket_works(2) sample_socket_works(2)]
    by blast
qed

end
