(* ===== verification/Sync_Plays.thy ===== *)
theory Sync_Plays
  imports Program_Plays
begin

unbundle bit_operations_syntax

text \<open>
  The chain sync client against a node that follows a script, under every schedule.
\<close>

section \<open>The calls of a user\<close>

definition cs_calling :: "(nat \<Rightarrow> byte list \<Rightarrow> byte list) \<Rightarrow> wire \<Rightarrow> cbor \<Rightarrow>
    (cs_call, chain_sync, cs_answer) caller" where
  "cs_calling blake2b w c call a = (case call of
       CallNext \<Rightarrow> bind_t (case a of None \<Rightarrow> request_next w c blake2b
           | Some l \<Rightarrow> request_next_resume w c blake2b l) (\<lambda>r. sync_t (ret_s (Replied r)))
     | CallFind points \<Rightarrow> bind_t (case a of None \<Rightarrow> find_intersect w c blake2b points
           | Some l \<Rightarrow> find_intersect_resume w c blake2b l) (\<lambda>i. sync_t (ret_s (Intersected i))))"

interpretation cs_plays: resumable_calls cs_channel "\<lambda>ch s. s\<lparr>cs_channel := ch\<rparr>" "cs_calling blake2b"
  for blake2b
proof (unfold_locales)
  fix w :: wire and c :: cbor and q :: cs_call
  assume progress: "cbor_progress c"
  let ?ex = "execute_from w c (cs_protocol c blake2b)"
  let ?set = "\<lambda>ch s. s\<lparr>cs_channel := ch\<rparr>"
  have sel: "pr_channel (cs_protocol c blake2b) = cs_channel"
      "pr_set_channel (cs_protocol c blake2b) = ?set"
    by (simp_all add: cs_protocol_def)
  note execute = cs.resumable_execute[OF progress, where ca = c and blake2b = blake2b and w = w,
      unfolded sel]
  note closure = cs.resumable_bind[where c = c and blake2b = blake2b, unfolded sel, OF execute]
    cs.resumable_start[where c = c and blake2b = blake2b, unfolded sel]
  show "resumable w cs_channel ?set (cs_calling blake2b w c q)"
  proof (cases q)
    case CallNext
    let ?take = "\<lambda>s. case cs_take_reply s of (r, t) \<Rightarrow> (bind_r r (\<lambda>r. Inr (Replied r)), t)"
    have "resumable w cs_channel ?set (\<lambda>a. bind_t (?ex a) (\<lambda>_. sync_t ?take))"
      by (rule closure(1)) (simp add: cs_take_reply_def)
    then show ?thesis
      by (rule closure(2)[where f = "\<lambda>s. s\<lparr>cs_query := Some QueryReply\<rparr>"])
        (auto simp: CallNext cs_calling_def request_next_def request_next_resume_def cs_take_reply_def
          bind_t_def sync_t_def ret_s_def execute_def fun_eq_iff
          split: option.splits prod.splits poll.splits sum.splits)
  next
    case (CallFind points)
    let ?take = "\<lambda>s. case cs_take_intersect s of (r, t) \<Rightarrow> (bind_r r (\<lambda>r. Inr (Intersected r)), t)"
    have "resumable w cs_channel ?set (\<lambda>a. bind_t (?ex a) (\<lambda>_. sync_t ?take))"
      by (rule closure(1)) (simp add: cs_take_intersect_def)
    then show ?thesis
      by (rule closure(2)[where f = "\<lambda>s. s\<lparr>cs_query := Some (QueryIntersect points)\<rparr>"])
        (auto simp: CallFind cs_calling_def find_intersect_def find_intersect_resume_def
          cs_take_intersect_def bind_t_def sync_t_def ret_s_def execute_def fun_eq_iff
          split: option.splits prod.splits poll.splits sum.splits)
  qed
qed simp_all

section \<open>A session\<close>

fun cs_request :: "cs_call \<Rightarrow> cs_message" where
  "cs_request CallNext = RequestNext"
| "cs_request (CallFind points) = FindIntersect points"

text \<open>The peer expects the request of each call and sends the payloads of its answer.\<close>

fun sync_script :: "cbor \<Rightarrow> (cs_call \<times> payload list) list \<Rightarrow> payload peer_step list" where
  "sync_script c [] = []"
| "sync_script c ((call, ps) # rounds) =
     Expect (cs_bytes c (cs_request call)) # map Say ps @ sync_script c rounds"

definition carries_answer :: "cbor \<Rightarrow> (nat \<Rightarrow> byte list \<Rightarrow> byte list) \<Rightarrow> cs_call \<times> payload list \<Rightarrow>
    cs_answer \<Rightarrow> bool" where
  "carries_answer c blake2b = (\<lambda>(call, ps) answer. length (cs_bytes c (cs_request call)) < 65536 \<and>
     (\<forall>p \<in> set ps. length p < 65536) \<and> cs_serves c blake2b call (concat ps) answer)"

lemma cs_call_waits:
  assumes "cbor_stream c" and "cs_calm s"
  shows "\<exists>t. cs_calling blake2b w c call None s = Some (Pending [], t) \<and>
    cn_sent (ch_conn (cs_channel t)) =
      cn_sent (after_send w 0x0002 (cs_bytes c (cs_request call)) (ch_conn (cs_channel s)))"
proof -
  obtain q where q: "cn_channels (ch_conn (cs_channel s)) 2 = Some q" "concat q = []"
      "feed [] q (cs_channel s) = cs_channel s"
    using tuned_queue[of 2 "[]" "cs_channel s"] assms(2) by (auto simp: cs_calm_def)
  have "tuned 0x0002 [] (cs_channel s)" using assms(2) by (simp add: cs_calm_def)
  from tuned_quiet[OF this] assms(2) have ch: "writable (ch_conn (cs_channel s))"
      "quiet (ch_conn (cs_channel s))" "cs_state s = CsIdle" "ch_idx (cs_channel s) = 2"
    by (auto simp: cs_calm_def tuned_def)
  have waits: "execute w c (cs_protocol c blake2b) (s\<lparr>cs_query := Some query\<rparr>) = Some (Pending [],
      t\<lparr>cs_channel := feed [] [] (sent w (cs_bytes c m) (cs_channel s))\<rparr>)"
    if "cs_send (s\<lparr>cs_query := Some query\<rparr>) = (Inr m, t)" "cs_agency t = Server" for query m t
    using cs_requests[OF assms(1) that(1) ch(3) q(3) ch(1), where w = w and blake2b = blake2b]
      cs.execute_idles[where s = t and ps = q and ca = c and c = c and blake2b = blake2b and w = w
        and ch = "sent w (cs_bytes c m) (cs_channel s)"] that(2) q(2) ch(2)
    by simp
  show ?thesis
  proof (cases call)
    case CallNext
    let ?t = "s\<lparr>cs_query := Some QueryReply, cs_state := CanAwait\<rparr>"
    have "cs_send (s\<lparr>cs_query := Some QueryReply\<rparr>) = (Inr RequestNext, ?t)"
      using ch(3) by (simp add: cs_send_def)
    from waits[OF this] CallNext ch(4) show ?thesis
      by (simp add: cs_calling_def request_next_def bind_t_def cs_agency_def)
  next
    case (CallFind points)
    let ?t = "s\<lparr>cs_query := Some (QueryIntersect points), cs_state := CsIntersect\<rparr>"
    have "cs_send (s\<lparr>cs_query := Some (QueryIntersect points)\<rparr>) = (Inr (FindIntersect points), ?t)"
      using ch(3) by (simp add: cs_send_def)
    from waits[OF this] CallFind ch(4) show ?thesis
      by (simp add: cs_calling_def find_intersect_def bind_t_def cs_agency_def)
  qed
qed

lemma cs_call_served:
  assumes "cbor_stream c" and "cs_serves c blake2b call data answer" and "cs_ready data s"
  shows "\<exists>t. cs_calling blake2b w c call None s = Some (Ready (Inr answer), t) \<and>
    cs_settled w c (cs_request call) s t"
  using assms(2)
proof cases
  case (reply m r n)
  with request_next_run[OF assms(1) assms(3)[unfolded reply(2)] reply(4), of w] show ?thesis
    by (auto simp: cs_calling_def bind_t_def sync_t_def ret_s_def)
next
  case (intersect m i points)
  with find_intersect_run[OF assms(1) assms(3)[unfolded intersect(2)] intersect(4), where w = w and points = points
      and blake2b = blake2b]
  show ?thesis by (auto simp: cs_calling_def bind_t_def sync_t_def ret_s_def)
qed

text \<open>One round: the request is written and the answer awaited; once it is there it is returned.\<close>

lemma cs_round_heard:
  assumes "wire_ok w" "cbor_stream c" and "cs_calm s" "roomy (ch_conn (cs_channel s))"
    and "carries_answer c blake2b (call, ps) answer"
  obtains t u where "cs_calling blake2b w c call None s = Some (Pending [], t)"
    "cn_sent (ch_conn (cs_channel t)) = cn_sent (ch_conn (cs_channel s)) @
      frame w (cn_clock (ch_conn (cs_channel s)) 0) 0x0002 (cs_bytes c (cs_request call))"
    "cs_calling blake2b w c call None
      (s\<lparr>cs_channel := hear w [said w 0x8002 clock (map Say ps)] (cs_channel s)\<rparr>) =
      Some (Ready (Inr answer), u)"
    "cs_calm u" "roomy (ch_conn (cs_channel u))"
    "cn_sent (ch_conn (cs_channel u)) = cn_sent (ch_conn (cs_channel s)) @
      frame w (cn_clock (ch_conn (cs_channel s)) 0) 0x0002 (cs_bytes c (cs_request call))"
proof -
  let ?ask = "cs_bytes c (cs_request call)" and ?says = "said w 0x8002 clock (map Say ps)"
  let ?heard = "s\<lparr>cs_channel := hear w [?says] (cs_channel s)\<rparr>"
  have small: "length ?ask < 65536" "\<forall>p \<in> set ps. length p < 65536"
    and serves: "cs_serves c blake2b call (concat ps) answer"
    using assms(5) by (simp_all add: carries_answer_def)
  note ask = roomy_sent[OF assms(4) small(1), of w "0x0002"]
  obtain t where t: "cs_calling blake2b w c call None s = Some (Pending [], t)"
    "cn_sent (ch_conn (cs_channel t)) = cn_sent (after_send w 0x0002 ?ask (ch_conn (cs_channel s)))"
    using cs_call_waits[OF assms(2,3)] by blast
  have "peer_writes w (map (Pair 0x8002) ps) (concat [?says])"
    using said_peer_writes[OF small(2)] by simp
  note heard = cs_calm_hears[OF assms(1,3) this, unfolded cs_hear_def]
  have "payloads_for 0x0002 (map (Pair 0x8002) ps) = ps" by (simp add: payloads_for_def comp_def)
  with cs_call_served[OF assms(2) serves, of ?heard w] heard(1) obtain u where
    u: "cs_calling blake2b w c call None ?heard = Some (Ready (Inr answer), u)"
      "cs_settled w c (cs_request call) ?heard u" by auto
  obtain ps' where ch: "cs_channel u = feed [] ps' (sent w ?ask (hear w [?says] (cs_channel s)))"
    using u(2) by (auto simp: cs_settled_def)
  have "same_sender (ch_conn (hear w [?says] (cs_channel s))) (ch_conn (cs_channel s))" by simp
  from same_sender_after[OF this, of w "0x0002" ?ask] assms(3)
  have sender: "same_sender (ch_conn (cs_channel u)) (after_send w 0x0002 ?ask (ch_conn (cs_channel s)))"
    by (simp add: ch hear_def cs_calm_def tuned_def)
  have "roomy (ch_conn (cs_channel u))" using roomy_same_sender[OF sender] assms(4) by simp
  then show thesis
    using that[OF t(1) _ u(1) cs_settled_calm[OF u(2) heard(2)]] t(2) sender ask
    by (simp add: same_sender_def)
qed

lemma cs_play_follows:
  assumes "wire_ok w" "cbor_stream c" "cbor_progress c"
    and "list_all2 (carries_answer c blake2b) rounds answers" and "cs_calm s"
    and "roomy (ch_conn (cs_channel s))"
  shows "cs_plays.follows blake2b w c 0x0002 0x8002 clock (map fst rounds) got s
    (sync_script c rounds) (got @ answers)"
  using assms(4-6)
proof (induction rounds answers arbitrary: clock got s rule: list_all2_induct)
  case Nil
  then have "cs_plays.open_stream s" by (simp add: cs_plays.open_stream_def cs_calm_def tuned_def)
  from cs_plays.follows_done[OF this] show ?case by simp
next
  case (Cons round rounds answer answers)
  obtain call ps where round: "round = (call, ps)" by (cases round)
  let ?ask = "cs_bytes c (cs_request call)"
  let ?asked = "frame w (cn_clock (ch_conn (cs_channel s)) 0) 0x0002 ?ask"
  let ?heard = "s\<lparr>cs_channel := hear w [said w 0x8002 clock (map Say ps)] (cs_channel s)\<rparr>"
  obtain t u where t: "cs_calling blake2b w c call None s = Some (Pending [], t)"
      "cn_sent (ch_conn (cs_channel t)) = cn_sent (ch_conn (cs_channel s)) @ ?asked"
    and u: "cs_calling blake2b w c call None ?heard = Some (Ready (Inr answer), u)"
      "cs_calm u" "roomy (ch_conn (cs_channel u))"
      "cn_sent (ch_conn (cs_channel u)) = cn_sent (ch_conn (cs_channel s)) @ ?asked"
    by (rule cs_round_heard[OF assms(1,2) Cons.prems Cons.hyps(1)[unfolded round]])
  show ?case
    unfolding round fst_conv list.map sync_script.simps
  proof (rule cs_plays.follows_round[where qs = "[call]", simplified append.simps,
      OF assms(3) _ _ _ _ _ caught_up_hear])
    show "cs_plays.open_stream s"
      using Cons.prems(1) by (simp add: cs_plays.open_stream_def cs_calm_def tuned_def)
    show "length ?ask < 65536" using Cons.hyps(1) by (simp add: carries_answer_def round)
    show "run_calls (cs_calling blake2b w c) [call] None got s = Some (Waits [call] [] got, t)"
      using t(1) by simp
    show "cs_plays.written t = cs_plays.written s @ ?asked"
      "cs_plays.written u = cs_plays.written s @ ?asked"
      using t(2) u(4) by (simp_all add: cs_plays.written_def)
    show "run_calls (cs_calling blake2b w c) [call] None got ?heard = Some (Ends (got @ [answer]), u)"
      using u(1) by simp
    show "cs_plays.follows blake2b w c 0x0002 0x8002 (\<lambda>k. clock (k + length ps)) (map fst rounds)
        (got @ [answer]) u (sync_script c rounds) (got @ answer # answers)"
      using Cons.IH[OF u(2,3), of "\<lambda>k. clock (k + length ps)" "got @ [answer]"] by simp
  qed simp
qed

lemma cs_play_passes:
  assumes "wire_ok w" "cbor_stream c" "cbor_progress c"
    and "fresh near" "roomy near" "fresh far" "roomy far"
    and "list_all2 (carries_answer c blake2b) rounds answers"
  shows "play_passes w (cs_calling blake2b w c) cs_channel (\<lambda>ch s. s\<lparr>cs_channel := ch\<rparr>)
    (play_opened (map fst rounds) (cs_client near) (sync_script c rounds)
      (connection_channel 0x8002 far)) answers"
proof -
  have client: "cs_calm (cs_client near)" "roomy (ch_conn (cs_channel (cs_client near)))"
    using cs_client_calm[OF assms(4)] peer_opened(1)[OF assms(4,5)] by (simp_all add: cs_client_def)
  note far = peer_opened[OF assms(6,7), where idx = "0x8002"]
  have small: "length p < 65536" if "Say p \<in> set (sync_script c rounds)" for p
  proof -
    from assms(8) have "\<forall>(call, ps) \<in> set rounds. \<forall>p \<in> set ps. length p < 65536"
      by (induction rule: list_all2_induct) (auto simp: carries_answer_def)
    then show ?thesis using that by (induction c rounds rule: sync_script.induct) auto
  qed
  from cs_play_follows[OF assms(1-3,8) client, of "cn_clock far" "[]"] show ?thesis
    by (intro cs_plays.follows_passes[OF assms(1,3) far(1,2) small]) (simp_all add: far(3,4))
qed

text \<open>
  C6. A user who follows the chain under any schedule: any sequence of \<open>find_intersect\<close> and
  \<open>request_next\<close> against a node that answers each as the protocol has it, its messages cut into
  payloads in any way. No failure on either side, and when the user is through it has the node's
  answers, all of them and in order; every schedule can be completed.
\<close>

theorem chain_sync_any_schedule:
  assumes "wire_ok w" "cbor_stream c" "cbor_progress c"
    and "fresh near" "roomy near" "fresh far" "roomy far"
    and "list_all2 (carries_answer c blake2b) rounds answers"
  shows "play_passes w (cs_calling blake2b w c) cs_channel (\<lambda>ch s. s\<lparr>cs_channel := ch\<rparr>)
    (play_opened (map fst rounds) (cs_client near) (sync_script c rounds)
      (connection_channel 0x8002 far)) answers"
  by (rule cs_play_passes[OF assms])

theorem chain_sync_any_schedule_witness:
  "play_passes sample_wire (cs_calling sample_hash sample_wire sample_cbor) cs_channel
    (\<lambda>ch s. s\<lparr>cs_channel := ch\<rparr>)
    (play_opened [CallFind [], CallNext] (cs_client (from_unix_stream 0 sample_socket))
      [Expect (cs_bytes sample_cbor (FindIntersect [])),
       Say (cs_bytes sample_cbor (IntersectNotFound sample_tip)),
       Expect (cs_bytes sample_cbor RequestNext),
       Say (cs_bytes sample_cbor AwaitReply),
       Say (cs_bytes sample_cbor (RollBackward (point_of_tip sample_tip) sample_tip))]
      (connection_channel 0x8002 (from_unix_stream 0 sample_socket)))
    [Intersected (NotFound sample_tip), Replied (Backward (point_of_tip sample_tip) sample_tip)]"
proof -
  let ?bytes = "cs_bytes sample_cbor"
  let ?backward = "RollBackward (point_of_tip sample_tip) sample_tip"
  let ?rounds = "[(CallFind [], [?bytes (IntersectNotFound sample_tip)]),
    (CallNext, [?bytes AwaitReply, ?bytes ?backward])]"
  let ?answers = "[Intersected (NotFound sample_tip),
    Replied (Backward (point_of_tip sample_tip) sample_tip)]"
  have "cs_serves sample_cbor sample_hash CallNext (concat (map ?bytes (replicate 1 AwaitReply @ [?backward])))
      (Replied (Backward (point_of_tip sample_tip) sample_tip))"
    by (rule cs_serves.reply) simp
  then have "list_all2 (carries_answer sample_cbor sample_hash) ?rounds ?answers"
    by (simp add: carries_answer_def cs_serves.intersect)
      (simp add: cs_bytes_def message_to_bytes_def sample_cbor_def sample_tip_def point_of_tip_def
        point_to_vec_def tip_to_vec_def)
  from chain_sync_any_schedule[OF sample_wire_ok sample_cbor_stream sample_cbor_progress
      sample_socket_works sample_socket_works this]
  show ?thesis by simp
qed

end
