(* ===== verification/Examples.thy ===== *)
theory Examples
  imports Wire_Sessions
begin

text \<open>
  The programs of \<open>examples/\<close>, which put the library together: they connect to a node, shake
  hands and then follow its chain, look for its tip, fetch a range of blocks into a database,
  replay the database, measure the connection, or serve handshakes.

  The network is an input: \<open>net k\<close> are the chunks that arrive on the socket while the k-th
  call waits for the peer. Lines that are logged are collected as events, and the result of
  a program is where its run stops: with a failure, or suspended at a call.
\<close>

section \<open>What the examples use of other libraries\<close>

text \<open>
  \<open>pallas\<close> decodes blocks and hashes their headers; \<open>sled\<close> keeps named trees of keys and
  values; the writer of \<open>oura\<close> is told of blocks; \<open>hex\<close> decodes strings.
\<close>

record ('b, 'd, 'w) deps =
  dp_decode_fragment :: "byte list \<Rightarrow> (error, nat \<times> 'b) result"
  dp_hash_block_header :: "'b \<Rightarrow> byte list"
  dp_open_tree :: "string \<Rightarrow> ('d, error, unit) op"
  dp_insert :: "string \<Rightarrow> byte list \<Rightarrow> byte list \<Rightarrow> ('d, error, unit) op"
  dp_records :: "string \<Rightarrow> 'd \<Rightarrow> (error, byte list \<times> byte list) result list"
  dp_crawl :: "'b \<Rightarrow> ('w, error, unit) op"
  dp_hex_decode :: "string \<Rightarrow> byte list option"

type_synonym net = "nat \<Rightarrow> byte list list"

section \<open>Configuration (\<open>common.rs\<close>)\<close>

record ('d, 'w) config =
  cf_sdb :: 'd
  cf_host :: string
  cf_magic :: u32
  cf_writer :: 'w
  cf_byron_mainnet :: point
  cf_byron_testnet :: point
  cf_byron_guild :: point

definition config_new :: "('b, 'd, 'w) deps \<Rightarrow> (error, 'd) result \<Rightarrow> (error, 'w) result \<Rightarrow>
    (error, ('d, 'w) config) result" where
  "config_new dp db oura =
     bind_r (unwrap db) (\<lambda>sdb.
     bind_r (unwrap oura) (\<lambda>writer.
     bind_r (unwrap (point_of_hex (dp_hex_decode dp)
       (4492799, ''f8084c61b6a238acec985b59310b6ecec49c0ab8352249afd7268da5cff2a457''))) (\<lambda>mainnet.
     bind_r (unwrap (point_of_hex (dp_hex_decode dp)
       (1598399, ''7e16781b40ebf8b6da18f7b5e8ade855d6738095ef2f1c58c77e88b6e45997a4''))) (\<lambda>testnet.
     bind_r (unwrap (point_of_hex (dp_hex_decode dp)
       (719, ''e5400faf19e712ebc5ff5b4b44cecb2b140d1cca25a011e36a91d89e97f53e2e''))) (\<lambda>guild.
     Inr \<lparr>cf_sdb = sdb, cf_host = ''relays-new.cardano-mainnet.iohk.io:3001'',
          cf_magic = 764824073, cf_writer = writer, cf_byron_mainnet = mainnet,
          cf_byron_testnet = testnet, cf_byron_guild = guild\<rparr>)))))"

text \<open>
  The writer of the configuration: what is known of the default network, which is constant,
  and what starting the sink comes to.
\<close>

definition oura_init :: "(error, unit) result \<Rightarrow> (error, 's) result \<Rightarrow> 'w \<Rightarrow> (error, 'w) result" where
  "oura_init well_known sink writer =
     bind_r (unwrap well_known) (\<lambda>_. bind_r sink (\<lambda>_. Inr writer))"

text \<open>A block is stored under the hash of its header before the writer is told.\<close>

definition handle_block :: "('b, 'd, 'w) deps \<Rightarrow> byte list \<Rightarrow> (('d, 'w) config, error, unit) op" where
  "handle_block dp data cfg =
     (case unwrap_s (dp_open_tree dp ''blocks'') (cf_sdb cfg) of
        (Inl f, db) \<Rightarrow> (Inl f, cfg\<lparr>cf_sdb := db\<rparr>)
      | (Inr _, db) \<Rightarrow>
         (case dp_decode_fragment dp data of
            Inl f \<Rightarrow> (Inl f, cfg\<lparr>cf_sdb := db\<rparr>)
          | Inr block \<Rightarrow>
             (case dp_insert dp ''blocks'' (dp_hash_block_header dp (snd block)) data db of
                (Inl f, db') \<Rightarrow> (Inl f, cfg\<lparr>cf_sdb := db'\<rparr>)
              | (Inr _, db') \<Rightarrow>
                 (case unwrap_s (dp_crawl dp (snd block)) (cf_writer cfg) of
                    (r, writer) \<Rightarrow> (r, cfg\<lparr>cf_sdb := db', cf_writer := writer\<rparr>)))))"

section \<open>Shaking hands\<close>

text \<open>
  The builder chain that the programs share, from the connection to the connection: the
  handshake is consumed by \<open>negotiate\<close>, which drops its channel when it returns.
\<close>

definition shake_hands :: "wire \<Rightarrow> cbor \<Rightarrow> handshake_builder \<Rightarrow> agency \<Rightarrow> byte list list \<Rightarrow>
    (connection, error, unit) task" where
  "shake_hands w c builder role chunks conn = (case hs_build builder role conn of
       Inl f \<Rightarrow> Some (Ready (Inl f), conn)
     | Inr hs \<Rightarrow>
        (case negotiate w c (hs_hear w chunks hs) of
           None \<Rightarrow> None
         | Some (Pending l, hs') \<Rightarrow> Some (Pending l, ch_conn (hs_channel hs'))
         | Some (Ready (Inl f), hs') \<Rightarrow> Some (Ready (Inl f), channel_drop (hs_channel hs'))
         | Some (Ready (Inr _), hs') \<Rightarrow> Some (Ready (Inr ()), channel_drop (hs_channel hs'))))"

definition to_node :: "u32 \<Rightarrow> handshake_builder" where
  "to_node magic = network_magic magic (node_to_node hs_builder)"

section \<open>Following the chain (\<open>sync.rs\<close>)\<close>

datatype sync_event = BlockHeaderAt i64 i64 | RolledBackTo u64

partial_function (option) sync_loop ::
  "wire \<Rightarrow> cbor \<Rightarrow> (nat \<Rightarrow> byte list \<Rightarrow> byte list) \<Rightarrow> net \<Rightarrow> nat \<Rightarrow> sync_event list \<Rightarrow> chain_sync \<Rightarrow>
    ((error, unit) poll \<times> sync_event list \<times> chain_sync) option" where
  "sync_loop w c blake2b net k log s =
     (case request_next w c blake2b (cs_hear w (net k) s) of
        None \<Rightarrow> None
      | Some (Pending l, s') \<Rightarrow> Some (Pending l, log, s')
      | Some (Ready (Inl f), s') \<Rightarrow> Some (Ready (Inl f), log, s')
      | Some (Ready (Inr (Forward header tip)), s') \<Rightarrow>
          sync_loop w c blake2b net (Suc k)
            (log @ [BlockHeaderAt (bh_block_number header) (bh_slot_number header)]) s'
      | Some (Ready (Inr (Backward point tip)), s') \<Rightarrow>
          sync_loop w c blake2b net (Suc k) (log @ [RolledBackTo (pt_slot point)]) s')"

definition known_points :: "('d, 'w) config \<Rightarrow> point list" where
  "known_points cfg = [cf_byron_mainnet cfg, cf_byron_testnet cfg, cf_byron_guild cfg]"

definition sync_example :: "wire \<Rightarrow> cbor \<Rightarrow> (nat \<Rightarrow> byte list \<Rightarrow> byte list) \<Rightarrow> dialer \<Rightarrow> net \<Rightarrow>
    ('d, 'w) config \<Rightarrow> ((error, unit) poll \<times> sync_event list \<times> connection option) option" where
  "sync_example w c blake2b dial net cfg = (case tcp_connect dial (cf_host cfg) of
       Inl e \<Rightarrow> Some (Ready (Inl (Error e)), [], None)
     | Inr conn \<Rightarrow>
        (case shake_hands w c (to_node (cf_magic cfg)) Client (net 0) conn of
           None \<Rightarrow> None
         | Some (Pending l, conn') \<Rightarrow> Some (Pending l, [], Some conn')
         | Some (Ready (Inl f), conn') \<Rightarrow> Some (Ready (Inl f), [], Some conn')
         | Some (Ready (Inr _), conn') \<Rightarrow>
            (case find_intersect w c blake2b (known_points cfg)
                    (cs_hear w (net 1) (cs_client conn')) of
               None \<Rightarrow> None
             | Some (Pending l, s) \<Rightarrow> Some (Pending l, [], Some (ch_conn (cs_channel s)))
             | Some (Ready (Inl f), s) \<Rightarrow> Some (Ready (Inl f), [], Some (ch_conn (cs_channel s)))
             | Some (Ready (Inr _), s) \<Rightarrow>
                 map_option (\<lambda>(r, log, s'). (r, log, Some (ch_conn (cs_channel s'))))
                   (sync_loop w c blake2b net 2 [] s))))"

section \<open>Looking for the tip (\<open>tip.rs\<close>)\<close>

datatype tip_event =
    CommonPoint point tip
  | MovedForward block_header tip
  | ReachedTip
  | MovedBackward point tip

text \<open>After every header the client asks for the tip it came with, and goes on from there.\<close>

partial_function (option) tip_loop ::
  "wire \<Rightarrow> cbor \<Rightarrow> (nat \<Rightarrow> byte list \<Rightarrow> byte list) \<Rightarrow> net \<Rightarrow> nat \<Rightarrow> tip_event list \<Rightarrow> chain_sync \<Rightarrow>
    ((error, unit) poll \<times> tip_event list \<times> chain_sync) option" where
  "tip_loop w c blake2b net k log s =
     (case request_next w c blake2b (cs_hear w (net k) s) of
        None \<Rightarrow> None
      | Some (Pending l, s') \<Rightarrow> Some (Pending l, log, s')
      | Some (Ready (Inl f), s') \<Rightarrow> Some (Ready (Inl f), log, s')
      | Some (Ready (Inr (Forward header tip)), s') \<Rightarrow>
          (let log' = log @ [MovedForward header tip] @
                 (if bh_hash header = tip_hash tip then [ReachedTip] else [])
           in case find_intersect w c blake2b [point_of_tip tip] (cs_hear w (net (Suc k)) s') of
                None \<Rightarrow> None
              | Some (Pending l, s'') \<Rightarrow> Some (Pending l, log', s'')
              | Some (Ready (Inl f), s'') \<Rightarrow> Some (Ready (Inl f), log', s'')
              | Some (Ready (Inr _), s'') \<Rightarrow>
                  tip_loop w c blake2b net (Suc (Suc k)) log' s'')
      | Some (Ready (Inr (Backward slot tip)), s') \<Rightarrow>
          tip_loop w c blake2b net (Suc k) (log @ [MovedBackward slot tip]) s')"

definition tip_example :: "wire \<Rightarrow> cbor \<Rightarrow> (nat \<Rightarrow> byte list \<Rightarrow> byte list) \<Rightarrow> dialer \<Rightarrow> net \<Rightarrow>
    ('d, 'w) config \<Rightarrow> ((error, unit) poll \<times> tip_event list \<times> connection option) option" where
  "tip_example w c blake2b dial net cfg = (case tcp_connect dial (cf_host cfg) of
       Inl e \<Rightarrow> Some (Ready (Inl (Error e)), [], None)
     | Inr conn \<Rightarrow>
        (case shake_hands w c (to_node (cf_magic cfg)) Client (net 0) conn of
           None \<Rightarrow> None
         | Some (Pending l, conn') \<Rightarrow> Some (Pending l, [], Some conn')
         | Some (Ready (Inl f), conn') \<Rightarrow> Some (Ready (Inl f), [], Some conn')
         | Some (Ready (Inr _), conn') \<Rightarrow>
            (case find_intersect w c blake2b (known_points cfg)
                    (cs_hear w (net 1) (cs_client conn')) of
               None \<Rightarrow> None
             | Some (Pending l, s) \<Rightarrow> Some (Pending l, [], Some (ch_conn (cs_channel s)))
             | Some (Ready (Inl f), s) \<Rightarrow> Some (Ready (Inl f), [], Some (ch_conn (cs_channel s)))
             | Some (Ready (Inr (NotFound tip)), s) \<Rightarrow>
                 Some (Ready (Inl (Panic ExplicitPanic)), [], Some (ch_conn (cs_channel s)))
             | Some (Ready (Inr (Found point tip)), s) \<Rightarrow>
                 map_option (\<lambda>(r, log, s'). (r, log, Some (ch_conn (cs_channel s'))))
                   (tip_loop w c blake2b net 2 [CommonPoint point tip] s))))"

section \<open>Fetching blocks (\<open>blockfetch.rs\<close>)\<close>

partial_function (option) fetch_loop ::
  "('b, 'd, 'w) deps \<Rightarrow> wire \<Rightarrow> cbor \<Rightarrow> net \<Rightarrow> nat \<Rightarrow> ('d, 'w) config \<Rightarrow> block_fetch \<Rightarrow>
    ((error, unit) poll \<times> ('d, 'w) config \<times> block_fetch) option" where
  "fetch_loop dp w c net k cfg s =
     (case bf_next w c (bf_hear w (net k) s) of
        None \<Rightarrow> None
      | Some (Pending l, s') \<Rightarrow> Some (Pending l, cfg, s')
      | Some (Ready (Inl f), s') \<Rightarrow> Some (Ready (Inl f), cfg, s')
      | Some (Ready (Inr None), s') \<Rightarrow> Some (Ready (Inr ()), cfg, s')
      | Some (Ready (Inr (Some block)), s') \<Rightarrow>
          (case handle_block dp block cfg of
             (Inl f, cfg') \<Rightarrow> Some (Ready (Inl f), cfg', s')
           | (Inr _, cfg') \<Rightarrow> fetch_loop dp w c net (Suc k) cfg' s'))"

text \<open>\<open>hex::decode(..)?\<close> on the hashes of the two points.\<close>

definition fetch_range :: "('b, 'd, 'w) deps \<Rightarrow> (error, bf_builder) result" where
  "fetch_range dp =
     bind_r (ok_or (ErrLib ''hex'') (dp_hex_decode dp
       ''915386f44ad3a7fccee949c9d3fe43f5a20459c7401f990e1cc7d52c10be1fd6'')) (\<lambda>first.
     bind_r (ok_or (ErrLib ''hex'') (dp_hex_decode dp
       ''5fec758c8aaff4a7683c27b075dc3984d8d982839cc56470a682d1411c9f8198'')) (\<lambda>last.
     Inr (bf_last 26250057 last (bf_first 26249860 first bf_builder_new))))"

definition fetch_example :: "('b, 'd, 'w) deps \<Rightarrow> wire \<Rightarrow> cbor \<Rightarrow> dialer \<Rightarrow> net \<Rightarrow>
    ('d, 'w) config \<Rightarrow> ((error, unit) poll \<times> ('d, 'w) config \<times> connection option) option" where
  "fetch_example dp w c dial net cfg = (case tcp_connect dial (cf_host cfg) of
       Inl e \<Rightarrow> Some (Ready (Inl (Error (ErrText ''Could not connect.''))), cfg, None)
     | Inr conn \<Rightarrow>
        (case shake_hands w c (to_node (cf_magic cfg)) Client (net 0) conn of
           None \<Rightarrow> None
         | Some (Pending l, conn') \<Rightarrow> Some (Pending l, cfg, Some conn')
         | Some (Ready (Inl f), conn') \<Rightarrow> Some (Ready (Inl f), cfg, Some conn')
         | Some (Ready (Inr _), conn') \<Rightarrow>
            (case fetch_range dp of
               Inl f \<Rightarrow> Some (Ready (Inl f), cfg, Some conn')
             | Inr builder \<Rightarrow>
                (case bf_client builder conn' of
                   (Inl f, conn'') \<Rightarrow> Some (Ready (Inl f), cfg, Some conn'')
                 | (Inr client, _) \<Rightarrow>
                    (case bf_run w c (bf_hear w (net 1) client) of
                       None \<Rightarrow> None
                     | Some (Pending l, s) \<Rightarrow> Some (Pending l, cfg, Some (ch_conn (bf_channel s)))
                     | Some (Ready (Inl f), s) \<Rightarrow>
                         Some (Ready (Inl f), cfg, Some (ch_conn (bf_channel s)))
                     | Some (Ready (Inr _), s) \<Rightarrow>
                         map_option (\<lambda>(r, cfg', s'). (r, cfg', Some (ch_conn (bf_channel s'))))
                           (fetch_loop dp w c net 2 cfg s))))))"

section \<open>Replaying the database (\<open>blockread.rs\<close>)\<close>

text \<open>
  The loop over the records, with the writer and the number of lines \<open>Hash doesn't match!\<close>.
\<close>

fun replay_loop :: "('b, 'd, 'w) deps \<Rightarrow> (error, byte list \<times> byte list) result list \<Rightarrow> nat \<Rightarrow>
    ('w, error, nat) op" where
  "replay_loop dp [] mismatches writer = (Inr mismatches, writer)"
| "replay_loop dp (record # records) mismatches writer = (case unwrap record of
       Inl f \<Rightarrow> (Inl f, writer)
     | Inr (db_hash, data) \<Rightarrow>
        (case dp_decode_fragment dp data of
           Inl f \<Rightarrow> (Inl f, writer)
         | Inr block \<Rightarrow>
            (if db_hash = dp_hash_block_header dp (snd block)
             then (case unwrap_s (dp_crawl dp (snd block)) writer of
                     (Inl f, writer') \<Rightarrow> (Inl f, writer')
                   | (Inr _, writer') \<Rightarrow> replay_loop dp records mismatches writer')
             else replay_loop dp records (Suc mismatches) writer)))"

text \<open>
  The program has a writer of its own, made like that of the configuration. \<open>sink\<close> is what
  starting the sink's thread comes to, and then what waiting for the thread comes to.
\<close>

definition blockread :: "('b, 'd, 'w) deps \<Rightarrow> (error, unit) result \<Rightarrow>
    (error, (error, unit) poll) result \<Rightarrow> ('d \<times> 'w, error, nat) task" where
  "blockread dp well_known sink state = (case state of (db, writer) \<Rightarrow>
     (case bind_r (unwrap well_known) (\<lambda>_. sink) of
        Inl f \<Rightarrow> Some (Ready (Inl f), db, writer)
      | Inr join \<Rightarrow>
         (case unwrap_s (dp_open_tree dp ''blocks'') db of
            (Inl f, db') \<Rightarrow> Some (Ready (Inl f), db', writer)
          | (Inr _, db') \<Rightarrow>
             (case replay_loop dp (dp_records dp ''blocks'' db') 0 writer of
                (Inl f, writer') \<Rightarrow> Some (Ready (Inl f), db', writer')
              | (Inr mismatches, writer') \<Rightarrow>
                  Some (case join of
                          Pending l \<Rightarrow> Pending l
                        | Ready r \<Rightarrow> Ready (bind_r (unwrap r) (\<lambda>_. Inr mismatches)),
                        db', writer')))))"

section \<open>Measuring a connection (\<open>ping.rs\<close>)\<close>

text \<open>
  \<open>connected_at\<close> and \<open>done_at\<close> are the clock at the two calls of \<open>duration\<close>, in microseconds.
  \<open>ping\<close> is the function after the line it logs at its start (\<open>ping_started\<close> below).
\<close>

definition ping :: "wire \<Rightarrow> cbor \<Rightarrow> dialer \<Rightarrow> byte list list \<Rightarrow> nat \<Rightarrow> nat \<Rightarrow> string \<Rightarrow> u32 \<Rightarrow>
    (error, nat \<times> nat) poll option" where
  "ping w c dial chunks connected_at done_at host magic = (case tcp_connect dial host of
       Inl e \<Rightarrow> Some (Ready (Inl (Error (ErrText ''Could not connect.''))))
     | Inr conn \<Rightarrow>
        (let connect_duration = duration connected_at conn
         in case shake_hands w c (to_node magic) Client chunks conn of
              None \<Rightarrow> None
            | Some (Pending l, conn') \<Rightarrow> Some (Pending l)
            | Some (Ready (Inl f), conn') \<Rightarrow> Some (Ready (Inl f))
            | Some (Ready (Inr _), conn') \<Rightarrow>
                Some (Ready (Inr (connect_duration, duration done_at conn')))))"

text \<open>The hosts of the command line; without any, the configured one.\<close>

definition ping_hosts :: "string list \<Rightarrow> ('d, 'w) config \<Rightarrow> (error, string list) result" where
  "ping_hosts argv cfg = (case argv of
       [] \<Rightarrow> Inl (Panic IndexPanic)
     | _ # args \<Rightarrow> Inr (if length args = 0 then [cf_host cfg] else args))"

text \<open>
  The lines of the log. The future of one host logs its own: the first when it begins, in \<open>ping\<close>,
  and the report, in milliseconds, when its \<open>ping\<close> is through, unless that panics. It returns
  nothing.
\<close>

datatype ping_event =
    PingStarted string u32
  | PingSuccess string nat nat
  | PingFailed string error

definition ping_started :: "string \<Rightarrow> u32 \<Rightarrow> ping_event list \<Rightarrow> ping_event list" where
  "ping_started host magic log = log @ [PingStarted host magic]"

definition ping_host :: "wire \<Rightarrow> cbor \<Rightarrow> dialer \<Rightarrow> byte list list \<Rightarrow> nat \<Rightarrow> nat \<Rightarrow>
    ('d, 'w) config \<Rightarrow> string \<Rightarrow> (ping_event list, error, unit) task" where
  "ping_host w c dial chunks connected_at done_at cfg host log =
     (case ping w c dial chunks connected_at done_at host (cf_magic cfg) of
        None \<Rightarrow> None
      | Some (Ready (Inr (connect_duration, total_duration))) \<Rightarrow>
          Some (Ready (Inr ()),
            log @ [PingSuccess host (connect_duration div 1000) (total_duration div 1000)])
      | Some (Ready (Inl (Error e))) \<Rightarrow> Some (Ready (Inr ()), log @ [PingFailed host e])
      | Some (Ready (Inl (Panic p))) \<Rightarrow> Some (Ready (Inl (Panic p)), log)
      | Some (Pending l) \<Rightarrow> Some (Pending l, log))"

section \<open>The local node (\<open>local.rs\<close>)\<close>

fun socket_path :: "string list \<Rightarrow> string" where
  "socket_path (program # path # _) = path"
| "socket_path _ = ''test.sock''"

definition local_example :: "wire \<Rightarrow> cbor \<Rightarrow> dialer \<Rightarrow> byte list list \<Rightarrow> string list \<Rightarrow> u32 \<Rightarrow>
    ((error, unit) poll \<times> connection option) option" where
  "local_example w c dial chunks argv magic = (case unix_connect dial (socket_path argv) of
       Inl e \<Rightarrow> Some (Ready (Inl (Error e)), None)
     | Inr conn \<Rightarrow>
         map_option (\<lambda>(r, conn'). (r, Some conn'))
           (shake_hands w c (network_magic magic (client_to_node hs_builder)) Client chunks conn))"

section \<open>Serving handshakes (\<open>server.rs\<close>)\<close>

text \<open>A client that is accepted: the time, its stream and the chunks it sends.\<close>

type_synonym client = "nat \<times> socket \<times> byte list list"

fun handle_client :: "wire \<Rightarrow> cbor \<Rightarrow> ('d, 'w) config \<Rightarrow> client \<Rightarrow>
    ((error, unit) poll \<times> connection) option" where
  "handle_client w c cfg (now, stream, chunks) =
     shake_hands w c (to_node (cf_magic cfg)) Server chunks (from_tcp_stream now stream)"

text \<open>
  The loop of \<open>serve\<close> over the clients in the order in which they are accepted; with no client
  left it waits for the next. The connections handled so far are kept in \<open>handled\<close>.
\<close>

fun serve_loop :: "wire \<Rightarrow> cbor \<Rightarrow> ('d, 'w) config \<Rightarrow> (error, client) result list \<Rightarrow>
    connection list \<Rightarrow> ((error, unit) poll \<times> connection list) option" where
  "serve_loop w c cfg [] handled = Some (Pending [], handled)"
| "serve_loop w c cfg (accepted # clients) handled = (case unwrap accepted of
       Inl f \<Rightarrow> Some (Ready (Inl f), handled)
     | Inr client \<Rightarrow>
        (case handle_client w c cfg client of
           None \<Rightarrow> None
         | Some (Pending l, conn) \<Rightarrow> Some (Pending l, handled @ [conn])
         | Some (Ready r, conn) \<Rightarrow>
            (case unwrap r of
               Inl f \<Rightarrow> Some (Ready (Inl f), handled @ [conn])
             | Inr _ \<Rightarrow> serve_loop w c cfg clients (handled @ [conn]))))"

definition serve :: "wire \<Rightarrow> cbor \<Rightarrow> ('d, 'w) config \<Rightarrow> (error, unit) result \<Rightarrow>
    (error, client) result list \<Rightarrow> ((error, unit) poll \<times> connection list) option" where
  "serve w c cfg bound clients = (case unwrap bound of
       Inl f \<Rightarrow> Some (Ready (Inl f), [])
     | Inr _ \<Rightarrow> serve_loop w c cfg clients [])"

end
