(* ===== verification/Examples_Facts.thy ===== *)
theory Examples_Facts
  imports Examples
begin

unbundle bit_operations_syntax

text \<open>
  What the example programs do with a node that follows the protocols, over a socket that
  cuts the node's bytes in any way, and what becomes of them with one that does not.
\<close>

section \<open>The handshake of the programs\<close>

lemma to_node_configured [simp]: "hs_configured (to_node magic)"
  unfolding to_node_def by (intro hs_configured.intros)

lemma to_node_simps [simp]:
  "hb_versions (to_node magic) = [N2N 6, N2N 7]" "hb_magic (to_node magic) = magic"
  by (simp_all add: to_node_def network_magic_def node_to_node_def)

text \<open>A node's acceptance among the frames that arrive.\<close>

definition node_accepts :: "wire \<Rightarrow> cbor \<Rightarrow> version \<Rightarrow> u32 \<Rightarrow> byte list list \<Rightarrow> bool" where
  "node_accepts w c v magic chunks \<longleftrightarrow> (\<exists>fs. peer_writes w fs (concat chunks) \<and>
     hs_wf (AcceptVersion v magic) \<and>
     concat (payloads_for 0x0000 fs) = hs_bytes c (AcceptVersion v magic))"

lemma shake_hands_client:
  assumes "wire_ok w" "cbor_stream c" "cbor_order c" and "fresh conn" and "hs_configured b"
    and "node_accepts w c v magic chunks"
  shows "\<exists>conn'. shake_hands w c b Client chunks conn = Some (Ready (hb_verdict b v magic), conn') \<and>
    fresh conn' \<and> cn_sent conn' = cn_sent (after_send w 0 (hs_bytes c (hb_proposal b)) conn) \<and>
    cn_start_time conn' = cn_start_time conn"
proof -
  from assms(6) obtain fs where fs: "peer_writes w fs (concat chunks)"
      "hs_wf (AcceptVersion v magic)"
      "concat (payloads_for 0x0000 fs) = hs_bytes c (AcceptVersion v magic)"
    by (auto simp: node_accepts_def)
  from hs_client_wire[OF assms(1-5) fs(1-3)] obtain r t where
    "negotiate w c (hs_hear w chunks (hs_with_channel b Client (connection_channel 0 conn))) =
      Some (Ready r, t)" "bind_r r (\<lambda>_. Inr ()) = hb_verdict b v magic"
    "fresh (channel_drop (hs_channel t))" "cn_sent (channel_drop (hs_channel t)) =
      cn_sent (after_send w 0 (hs_bytes c (hb_proposal b)) conn)"
    "cn_start_time (channel_drop (hs_channel t)) = cn_start_time conn"
    by blast
  then show ?thesis by (cases r) (auto simp: shake_hands_def hs_build_def)
qed

lemma shake_hands_agrees:
  assumes "wire_ok w" "cbor_stream c" "cbor_order c" and "fresh conn"
    and "node_accepts w c v magic chunks" and "v = N2N 6 \<or> v = N2N 7"
  obtains conn' where "shake_hands w c (to_node magic) Client chunks conn = Some (Ready (Inr ()), conn')"
    "fresh conn'"
  using shake_hands_client[OF assms(1-4) to_node_configured[of magic] assms(5)] assms(6)
  by (auto simp: hb_verdict_def)

section \<open>Following the chain\<close>

fun sync_event_of :: "reply \<Rightarrow> sync_event" where
  "sync_event_of (Forward h t) = BlockHeaderAt (bh_block_number h) (bh_slot_number h)"
| "sync_event_of (Backward p t) = RolledBackTo (pt_slot p)"

lemma sync_loop_step:
  assumes "wire_ok w" "cbor_stream c" and "cs_calm s"
    and "cs_serves_wire w c blake2b CallNext (net k) (Replied r)"
  shows "\<exists>t. sync_loop w c blake2b net k log s =
    sync_loop w c blake2b net (Suc k) (log @ [sync_event_of r]) t \<and> cs_calm t"
  using request_next_wire[OF assms(1-4)]
  by (cases r) (auto simp: sync_loop.simps[of w c blake2b net k log s])

text \<open>As long as the node serves, the loop keeps up with it: one line per answer, in order.\<close>

lemma sync_loop_follows:
  assumes "wire_ok w" "cbor_stream c" and "cs_calm s"
    and "\<And>i. i < length rs \<Longrightarrow> cs_serves_wire w c blake2b CallNext (net (k + i)) (Replied (rs ! i))"
  shows "\<exists>t. sync_loop w c blake2b net k log s =
    sync_loop w c blake2b net (k + length rs) (log @ map sync_event_of rs) t \<and> cs_calm t"
  using assms(3,4)
proof (induction rs arbitrary: k log s)
  case Nil
  then show ?case by auto
next
  case (Cons r rs)
  have "cs_serves_wire w c blake2b CallNext (net k) (Replied r)" using Cons.prems(2)[of 0] by simp
  from sync_loop_step[where net = net and k = k, OF assms(1,2) Cons.prems(1) this, of log] obtain t where
    t: "sync_loop w c blake2b net k log s =
      sync_loop w c blake2b net (Suc k) (log @ [sync_event_of r]) t" "cs_calm t" by blast
  have "cs_serves_wire w c blake2b CallNext (net (Suc k + i)) (Replied (rs ! i))"
    if "i < length rs" for i
    using Cons.prems(2)[of "Suc i"] that by simp
  from Cons.IH[where k = "Suc k", OF t(2) this, of "log @ [sync_event_of r]"] t(1) show ?case by simp
qed

lemma sync_loop_waits:
  assumes "cbor_stream c" and "cs_calm s" and "net k = []"
  shows "\<exists>t. sync_loop w c blake2b net k log s = Some (Pending [], log, t)"
proof -
  have "cs_hear w (net k) s = s" by (simp add: assms(3) cs_hear_def hear_def arrivals_def)
  with request_next_silent[OF assms(1,2), of w blake2b] show ?thesis
    by (auto simp: sync_loop.simps[of w c blake2b net k log s])
qed

text \<open>
  C8. The program of \<open>sync.rs\<close> against a node that accepts the handshake, answers the search for
  a common point and then serves headers and rollbacks, all of it cut into chunks in any way and
  mixed with frames for other channels: it logs one line per answer, in the order of the
  answers, and waits for the next one when the node has no more.
\<close>

theorem sync_follows_node:
  assumes "wire_ok w" "cbor_stream c" "cbor_order c"
    and "tcp_connect dial (cf_host cfg) = Inr conn" "fresh conn"
    and "node_accepts w c v (cf_magic cfg) (net 0)" "v = N2N 6 \<or> v = N2N 7"
    and "cs_serves_wire w c blake2b (CallFind (known_points cfg)) (net 1) (Intersected found)"
    and "\<And>i. i < length rs \<Longrightarrow> cs_serves_wire w c blake2b CallNext (net (2 + i)) (Replied (rs ! i))"
    and "net (2 + length rs) = []"
  shows "\<exists>conn'. sync_example w c blake2b dial net cfg =
    Some (Pending [], map sync_event_of rs, Some conn')"
proof -
  obtain conn' where shake: "shake_hands w c (to_node (cf_magic cfg)) Client (net 0) conn =
      Some (Ready (Inr ()), conn')" "fresh conn'"
    by (rule shake_hands_agrees[OF assms(1-3,5-7)])
  from find_intersect_wire[OF assms(1,2) cs_client_calm[OF shake(2)] assms(8)]
  obtain s where s: "find_intersect w c blake2b (known_points cfg)
      (cs_hear w (net 1) (cs_client conn')) = Some (Ready (Inr found), s)" "cs_calm s"
    by blast
  from sync_loop_follows[where net = net and k = 2, OF assms(1,2) s(2) assms(9), of "[]"] obtain t where
    t: "sync_loop w c blake2b net 2 [] s =
      sync_loop w c blake2b net (2 + length rs) (map sync_event_of rs) t" "cs_calm t"
    by auto
  from sync_loop_waits[where net = net, OF assms(2) t(2) assms(10), of w blake2b "map sync_event_of rs"] t(1)
  show ?thesis by (auto simp: sync_example_def assms(4) shake(1) s(1) simp del: One_nat_def)
qed

text \<open>A sample node: the bytes of its frames, cut after \<open>n\<close> of them.\<close>

definition sample_frames :: "nat \<Rightarrow> (u16 \<times> payload) list \<Rightarrow> byte list list" where
  "sample_frames n fs = cut_at [n] (cn_sent (send_all sample_wire fs sample_connection))"

lemma sample_frames_written:
  "fits (\<lambda>_. Accepts 65535) fs \<Longrightarrow> peer_writes sample_wire fs (concat (sample_frames n fs))"
  unfolding peer_writes_def
  by (intro exI[of _ sample_connection])
    (simp add: sample_frames_def sample_connection_def connection_new_def)

lemma sample_connection_fresh: "fresh sample_connection"
  unfolding sample_connection_def by (rule connection_new_fresh) simp

definition sample_accepts :: "u32 \<Rightarrow> byte list list" where
  "sample_accepts magic = sample_frames 5
     [(0x8000, hs_bytes sample_cbor (AcceptVersion (N2N 7) magic)), (0x8005, [1, 2, 3])]"

lemma sample_accepts_length: "length (hs_bytes sample_cbor (AcceptVersion (N2N 7) magic)) \<le> 65535"
  by (simp add: hs_bytes_def message_to_bytes_def sample_cbor_def u16_try_from_def)

lemma sample_node_accepts: "node_accepts sample_wire sample_cbor (N2N 7) magic (sample_accepts magic)"
  unfolding node_accepts_def sample_accepts_def
proof (intro exI conjI)
  show "peer_writes sample_wire [(0x8000, hs_bytes sample_cbor (AcceptVersion (N2N 7) magic)),
      (0x8005, [1, 2, 3])] (concat (sample_frames 5
        [(0x8000, hs_bytes sample_cbor (AcceptVersion (N2N 7) magic)), (0x8005, [1, 2, 3])]))"
    by (rule sample_frames_written) (use sample_accepts_length[of magic] in simp)
qed (simp_all add: payloads_for_def)

text \<open>Its messages on the channel of chain sync.\<close>

definition sample_tells :: "cs_message \<Rightarrow> byte list list" where
  "sample_tells m = sample_frames 9 [(0x8002, cs_bytes sample_cbor m)]"

lemma sample_tells_serves:
  assumes "cs_serves sample_cbor sample_hash call (cs_bytes sample_cbor m) answer"
    and "length (cs_bytes sample_cbor m) \<le> 65535"
  shows "cs_serves_wire sample_wire sample_cbor sample_hash call (sample_tells m) answer"
  unfolding cs_serves_wire_def sample_tells_def
proof (intro exI conjI)
  show "peer_writes sample_wire [(0x8002, cs_bytes sample_cbor m)]
      (concat (sample_frames 9 [(0x8002, cs_bytes sample_cbor m)]))"
    by (rule sample_frames_written) (use assms(2) in simp)
qed (use assms(1) in \<open>simp add: payloads_for_def\<close>)

definition sample_config :: "(unit, unit) config" where
  "sample_config = \<lparr>cf_sdb = (), cf_host = ''node'', cf_magic = 42, cf_writer = (),
     cf_byron_mainnet = point_of_bytes (1, [1]), cf_byron_testnet = point_of_bytes (2, [2]),
     cf_byron_guild = point_of_bytes (3, [3])\<rparr>"

definition sample_net :: "byte list list list \<Rightarrow> net" where
  "sample_net answers k = (if k < length answers then answers ! k else [])"

text \<open>An intersection, no intersection, and a rollback to a slot.\<close>

definition sample_back :: "u64 \<Rightarrow> cs_message" where
  "sample_back slot = RollBackward (point_of_bytes (slot, [])) sample_tip"

lemma sample_node_serves:
  "cs_serves_wire sample_wire sample_cbor sample_hash (CallFind points)
     (sample_tells (IntersectNotFound sample_tip)) (Intersected (NotFound sample_tip))"
  "cs_serves_wire sample_wire sample_cbor sample_hash (CallFind points)
     (sample_tells (IntersectFound (point_of_tip sample_tip) sample_tip))
     (Intersected (Found (point_of_tip sample_tip) sample_tip))"
  "cs_serves_wire sample_wire sample_cbor sample_hash CallNext (sample_tells (sample_back slot))
     (Replied (Backward (point_of_bytes (slot, [])) sample_tip))"
proof -
  have small: "length (cs_bytes sample_cbor (IntersectNotFound sample_tip)) \<le> 65535"
    "length (cs_bytes sample_cbor (IntersectFound (point_of_tip sample_tip) sample_tip)) \<le> 65535"
    "length (cs_bytes sample_cbor (sample_back slot)) \<le> 65535"
    by (simp_all add: cs_bytes_def message_to_bytes_def sample_cbor_def sample_tip_def
        sample_back_def tip_to_vec_def point_to_vec_def point_of_bytes_def point_of_tip_def)
  then show "cs_serves_wire sample_wire sample_cbor sample_hash (CallFind points)
      (sample_tells (IntersectNotFound sample_tip)) (Intersected (NotFound sample_tip))"
    "cs_serves_wire sample_wire sample_cbor sample_hash (CallFind points)
      (sample_tells (IntersectFound (point_of_tip sample_tip) sample_tip))
      (Intersected (Found (point_of_tip sample_tip) sample_tip))"
    by (auto intro!: sample_tells_serves cs_serves.intersect)
  have "cs_serves sample_cbor sample_hash CallNext (cs_bytes sample_cbor (sample_back slot))
      (Replied (Backward (point_of_bytes (slot, [])) sample_tip))"
    using cs_serves.reply[of sample_cbor sample_hash "sample_back slot" _ 0]
    by (simp add: sample_back_def)
  then show "cs_serves_wire sample_wire sample_cbor sample_hash CallNext
      (sample_tells (sample_back slot)) (Replied (Backward (point_of_bytes (slot, [])) sample_tip))"
    using small(3) by (rule sample_tells_serves)
qed

theorem sync_follows_node_witness:
  "\<exists>conn'. sync_example sample_wire sample_cbor sample_hash sample_dial
      (sample_net [sample_accepts 42, sample_tells (IntersectNotFound sample_tip),
         sample_tells (sample_back 9)]) sample_config =
    Some (Pending [], [RolledBackTo 9], Some conn')"
proof -
  let ?net = "sample_net [sample_accepts 42, sample_tells (IntersectNotFound sample_tip),
    sample_tells (sample_back 9)]"
  have "\<exists>conn'. sync_example sample_wire sample_cbor sample_hash sample_dial
      ?net sample_config = Some (Pending [],
        map sync_event_of [Backward (point_of_bytes (9, [])) sample_tip], Some conn')"
    by (rule sync_follows_node[where v = "N2N 7", OF sample_wire_ok sample_cbor_stream
          sample_cbor_order _ sample_connection_fresh])
      (use sample_node_accepts[of 42] sample_node_serves in
        \<open>simp_all add: sample_net_def sample_config_def\<close>)
  then show ?thesis by (simp add: point_of_bytes_def)
qed

section \<open>Looking for the tip\<close>

text \<open>
  What a node that follows the protocol serves to the loop from the k-th call on, and the
  lines that come of it: every header takes two calls, a rollback one.
\<close>

inductive tip_served :: "wire \<Rightarrow> cbor \<Rightarrow> (nat \<Rightarrow> byte list \<Rightarrow> byte list) \<Rightarrow> net \<Rightarrow> nat \<Rightarrow>
    tip_event list \<Rightarrow> nat \<Rightarrow> bool" for w c blake2b net where
  nothing: "tip_served w c blake2b net k [] k"
| forward: "cs_serves_wire w c blake2b CallNext (net k) (Replied (Forward h t)) \<Longrightarrow>
    cs_serves_wire w c blake2b (CallFind [point_of_tip t]) (net (Suc k)) (Intersected i) \<Longrightarrow>
    tip_served w c blake2b net (Suc (Suc k)) events k' \<Longrightarrow>
    tip_served w c blake2b net k
      ([MovedForward h t] @ (if bh_hash h = tip_hash t then [ReachedTip] else []) @ events) k'"
| backward: "cs_serves_wire w c blake2b CallNext (net k) (Replied (Backward p t)) \<Longrightarrow>
    tip_served w c blake2b net (Suc k) events k' \<Longrightarrow>
    tip_served w c blake2b net k (MovedBackward p t # events) k'"

lemma tip_loop_follows:
  assumes "tip_served w c blake2b net k events k'" and "wire_ok w" "cbor_stream c" and "cs_calm s"
  shows "\<exists>t. tip_loop w c blake2b net k log s = tip_loop w c blake2b net k' (log @ events) t \<and>
    cs_calm t"
  using assms(1,4)
proof (induction arbitrary: log s rule: tip_served.induct)
  case (nothing k)
  then show ?case by auto
next
  case (forward k h t i events k')
  obtain s1 where s1: "request_next w c blake2b (cs_hear w (net k) s) =
      Some (Ready (Inr (Forward h t)), s1)" "cs_calm s1"
    using request_next_wire[OF assms(2,3) forward.prems forward.hyps(1)] by blast
  obtain s2 where s2: "find_intersect w c blake2b [point_of_tip t] (cs_hear w (net (Suc k)) s1) =
      Some (Ready (Inr i), s2)" "cs_calm s2"
    using find_intersect_wire[OF assms(2,3) s1(2) forward.hyps(2)] by blast
  show ?case
    using forward.IH[OF s2(2), of "log @ [MovedForward h t] @
        (if bh_hash h = tip_hash t then [ReachedTip] else [])"]
    by (simp add: tip_loop.simps[of w c blake2b net k log s] s1(1) s2(1) Let_def)
next
  case (backward k p t events k')
  obtain s1 where s1: "request_next w c blake2b (cs_hear w (net k) s) =
      Some (Ready (Inr (Backward p t)), s1)" "cs_calm s1"
    using request_next_wire[OF assms(2,3) backward.prems backward.hyps(1)] by blast
  show ?case
    using backward.IH[OF s1(2), of "log @ [MovedBackward p t]"]
    by (simp add: tip_loop.simps[of w c blake2b net k log s] s1(1))
qed

lemma tip_loop_waits:
  assumes "cbor_stream c" and "cs_calm s" and "net k = []"
  shows "\<exists>t. tip_loop w c blake2b net k log s = Some (Pending [], log, t)"
proof -
  have "cs_hear w (net k) s = s" by (simp add: assms(3) cs_hear_def hear_def arrivals_def)
  with request_next_silent[OF assms(1,2), of w blake2b] show ?thesis
    by (auto simp: tip_loop.simps[of w c blake2b net k log s])
qed

text \<open>
  C15. The program of \<open>tip.rs\<close> against a node that follows the protocols: it logs the common
  point, then every header and rollback in the order of the answers, and the line
  \<open>Reached tip!\<close> after exactly those headers whose hash is that of the tip they came with;
  after each header it has asked for that tip. Without a common point it panics.
\<close>

theorem tip_follows_node:
  assumes "wire_ok w" "cbor_stream c" "cbor_order c"
    and "tcp_connect dial (cf_host cfg) = Inr conn" "fresh conn"
    and "node_accepts w c v (cf_magic cfg) (net 0)" "v = N2N 6 \<or> v = N2N 7"
    and "cs_serves_wire w c blake2b (CallFind (known_points cfg)) (net 1) (Intersected found)"
    and "tip_served w c blake2b net 2 events k" and "net k = []"
  shows "\<exists>conn'. tip_example w c blake2b dial net cfg = (case found of
      Found p t \<Rightarrow> Some (Pending [], CommonPoint p t # events, Some conn')
    | NotFound t \<Rightarrow> Some (Ready (Inl (Panic ExplicitPanic)), [], Some conn'))"
proof -
  obtain conn' where shake: "shake_hands w c (to_node (cf_magic cfg)) Client (net 0) conn =
      Some (Ready (Inr ()), conn')" "fresh conn'"
    by (rule shake_hands_agrees[OF assms(1-3,5-7)])
  from find_intersect_wire[OF assms(1,2) cs_client_calm[OF shake(2)] assms(8)]
  obtain s where s: "find_intersect w c blake2b (known_points cfg)
      (cs_hear w (net 1) (cs_client conn')) = Some (Ready (Inr found), s)" "cs_calm s"
    by blast
  show ?thesis
  proof (cases found)
    case (Found p t)
    from tip_loop_follows[OF assms(9,1,2) s(2), of "[CommonPoint p t]"] obtain u where
      u: "tip_loop w c blake2b net 2 [CommonPoint p t] s =
        tip_loop w c blake2b net k (CommonPoint p t # events) u" "cs_calm u" by auto
    with tip_loop_waits[where net = net, OF assms(2) u(2) assms(10), of w blake2b
        "CommonPoint p t # events"] Found
    show ?thesis by (auto simp: tip_example_def assms(4) shake(1) s(1) simp del: One_nat_def)
  next
    case (NotFound t)
    with s(1) show ?thesis by (simp add: tip_example_def assms(4) shake(1) del: One_nat_def)
  qed
qed

theorem tip_follows_node_witness:
  "\<exists>conn'. tip_example sample_wire sample_cbor sample_hash sample_dial
      (sample_net [sample_accepts 42,
         sample_tells (IntersectFound (point_of_tip sample_tip) sample_tip),
         sample_tells (sample_back 9)]) sample_config =
    Some (Pending [], [CommonPoint (point_of_tip sample_tip) sample_tip,
      MovedBackward (point_of_bytes (9, [])) sample_tip], Some conn')"
proof -
  let ?net = "sample_net [sample_accepts 42,
    sample_tells (IntersectFound (point_of_tip sample_tip) sample_tip), sample_tells (sample_back 9)]"
  have "tip_served sample_wire sample_cbor sample_hash ?net 2
      [MovedBackward (point_of_bytes (9, [])) sample_tip] 3"
    using tip_served.backward[of sample_wire sample_cbor sample_hash ?net 2, OF _ tip_served.nothing]
      sample_node_serves(3)[of 9] by (simp add: sample_net_def numeral_3_eq_3)
  with tip_follows_node[where v = "N2N 7" and net = ?net and cfg = sample_config and k = 3
      and found = "Found (point_of_tip sample_tip) sample_tip" and dial = sample_dial,
      OF sample_wire_ok sample_cbor_stream sample_cbor_order sample_dialled(1) sample_connection_fresh
      _ _ _ this]
  show ?thesis
    using sample_node_accepts[of 42] sample_node_serves(2)
    by (simp add: sample_net_def sample_config_def)
qed

end
