(* ===== verification/Example_Plays.thy ===== *)
theory Example_Plays
  imports Sync_Plays Examples_Facts
begin

unbundle bit_operations_syntax

text \<open>
  The two programs of \<open>examples/\<close> that follow the chain and that fetch blocks, under every
  schedule: the handshake, the connection it leaves, and the calls of the program on it.
\<close>

section \<open>The connection of a program\<close>

lemma dialled_fresh:
  assumes "tcp_connect dial addr = Inr conn" and "roomy conn"
  shows "fresh conn"
proof -
  obtain stream where conn: "conn = from_tcp_stream (dl_now dial) stream"
    using assms(1) by (auto simp: tcp_connect_def split: sum.splits)
  from roomy_writable[OF assms(2)] show ?thesis
    unfolding conn from_tcp_stream_def by (intro connection_new_fresh) (simp add: writable_def connection_new_def)
qed

lemma to_node_shakes_hands:
  assumes "wire_ok w" "cbor_stream c" "cbor_order c"
    and "tcp_connect dial addr = Inr conn" "roomy conn" and "v = N2N 6 \<or> v = N2N 7"
    and "length (hs_bytes c (hb_proposal (to_node magic))) < 65536"
    and "length (hs_bytes c (AcceptVersion v magic)) < 65536"
  obtains s where "hs_client (to_node magic) conn = Inr s"
    "shakes_hands w c (hs_bytes c (hb_proposal (to_node magic))) (hs_bytes c (AcceptVersion v magic)) s"
proof -
  obtain s where s: "hs_client (to_node magic) conn = Inr s"
    by (auto simp: hs_client_def hs_build_def)
  have "v \<in> set (hb_versions (to_node magic))" "hs_wf (AcceptVersion v (hb_magic (to_node magic)))"
    using assms(6) by auto
  from hs_client_shakes_hands[OF assms(1-3) dialled_fresh[OF assms(4,5)] assms(5) to_node_configured
      this assms(7) _ s] assms(8)
  have "shakes_hands w c (hs_bytes c (hb_proposal (to_node magic))) (hs_bytes c (AcceptVersion v magic)) s"
    by simp
  with s show thesis by (rule that)
qed

text \<open>The script of a node that accepts the handshake of a program.\<close>

definition accepts_first :: "cbor \<Rightarrow> version \<Rightarrow> u32 \<Rightarrow> u16 \<Rightarrow> u16 \<Rightarrow> payload peer_step list \<Rightarrow>
    (u16 \<times> payload) peer_step list" where
  "accepts_first c v magic own other script =
     Expect (0, hs_bytes c (hb_proposal (to_node magic))) #
     Say (0x8000, hs_bytes c (AcceptVersion v magic)) # map (on_channel own other) script"

section \<open>Following the chain\<close>

text \<open>The calls of \<open>sync.rs\<close> up to the n-th turn of its loop.\<close>

definition sync_calls :: "('d, 'w) config \<Rightarrow> nat \<Rightarrow> cs_call list" where
  "sync_calls cfg n = CallFind (known_points cfg) # replicate n CallNext"

definition sync_starts :: "connection \<Rightarrow> (error, chain_sync) result" where
  "sync_starts conn = Inr (cs_client conn)"

text \<open>
  C2. The program of \<open>sync.rs\<close> under any schedule, stopped after \<open>n\<close> turns of its loop: it shakes
  hands with a node, which accepts a version, and then calls \<open>find_intersect\<close> and \<open>request_next\<close>,
  which the node answers in payloads cut in any way. However the program is polled, the bytes are
  cut and delayed, and the tasks run: every frame that the node meets is the one it expects, the
  handshake included; no call fails; a program that is through has the answers of the node in their
  order; and every schedule can be completed.
\<close>

theorem sync_program_any_schedule:
  assumes "wire_ok w" "cbor_stream c" "cbor_order c" "cbor_progress c"
    and "tcp_connect dial (cf_host cfg) = Inr conn" "roomy conn" and "v = N2N 6 \<or> v = N2N 7"
    and "length (hs_bytes c (hb_proposal (to_node (cf_magic cfg)))) < 65536"
    and "length (hs_bytes c (AcceptVersion v (cf_magic cfg))) < 65536"
    and "list_all2 (carries_answer c blake2b) rounds answers" "map fst rounds = sync_calls cfg n"
  shows "\<exists>s. hs_client (to_node (cf_magic cfg)) conn = Inr s \<and>
    session_passes w c (cs_calling blake2b w c) cs_channel (\<lambda>ch s. s\<lparr>cs_channel := ch\<rparr>) sync_starts
      (sync_calls cfg n)
      (session_opened s (accepts_first c v (cf_magic cfg) 0x0002 0x8002 (sync_script c rounds)) clock)
      answers"
proof -
  obtain s where s: "hs_client (to_node (cf_magic cfg)) conn = Inr s"
    "shakes_hands w c (hs_bytes c (hb_proposal (to_node (cf_magic cfg))))
      (hs_bytes c (AcceptVersion v (cf_magic cfg))) s"
    by (rule to_node_shakes_hands[OF assms(1-3,5-9)])
  obtain ps rest where rounds: "rounds = (CallFind (known_points cfg), ps) # rest"
    using assms(11) by (cases rounds) (auto simp: sync_calls_def)
  let ?ask = "cs_bytes c (FindIntersect (known_points cfg))"
  have script: "sync_script c rounds = Expect ?ask # map Say ps @ sync_script c rest"
    by (simp add: rounds)
  have "\<exists>client. sync_starts near = Inr client \<and> (\<forall>clock. cs_plays.follows blake2b w c 0x0002 0x8002
      clock (sync_calls cfg n) [] client (Expect ?ask # map Say ps @ sync_script c rest) answers)"
    if "fresh near" "roomy near" for near
  proof -
    have "cs_calm (cs_client near)" "roomy (ch_conn (cs_channel (cs_client near)))"
      using cs_client_calm[OF that(1)] peer_opened(1)[OF that] by (simp_all add: cs_client_def)
    from cs_play_follows[OF assms(1,2,4,10) this, where got = "[]", unfolded assms(11) script append.simps]
    show ?thesis by (simp add: sync_starts_def)
  qed
  from cs_plays.program_passes[OF assms(4,1) s(2) this] s(1) show ?thesis
    by (auto simp: accepts_first_def script)
qed

text \<open>The sizes and the network of the witnesses.\<close>

lemma sample_program:
  "roomy sample_connection" "cf_magic sample_config = 42"
  "length (hs_bytes sample_cbor (hb_proposal (to_node 42))) < 65536"
  "length (hs_bytes sample_cbor (AcceptVersion (N2N 7) 42)) < 65536"
  by (auto simp: roomy_def sample_connection_def connection_new_def sample_config_def hs_bytes_def
      message_to_bytes_def sample_cbor_def hb_proposal_def u16_try_from_def)

lemmas sample_program_laws = sample_wire_ok sample_cbor_stream sample_cbor_order sample_cbor_progress
  sample_dialled(1) sample_program(1)

lemmas sample_cs_sizes = cs_bytes_def message_to_bytes_def sample_cbor_def sample_tip_def
  point_of_tip_def point_to_vec_def tip_to_vec_def known_points_def sample_config_def
  point_of_bytes_def length_concat comp_def sum_list_triv sum_list_replicate

lemma sample_rolled:
  "carries_answer sample_cbor sample_hash (CallNext, [cs_bytes sample_cbor AwaitReply,
      cs_bytes sample_cbor (RollBackward (point_of_tip sample_tip) sample_tip)])
    (Replied (Backward (point_of_tip sample_tip) sample_tip))"
proof -
  have "cs_serves sample_cbor sample_hash CallNext (concat (map (cs_bytes sample_cbor)
      (replicate 1 AwaitReply @ [RollBackward (point_of_tip sample_tip) sample_tip])))
      (Replied (Backward (point_of_tip sample_tip) sample_tip))"
    by (rule cs_serves.reply) simp
  then show ?thesis by (simp add: carries_answer_def) (simp add: sample_cs_sizes)
qed

text \<open>A node that finds no common point and then, after a wait, rolls the program back.\<close>

theorem sync_program_any_schedule_witness:
  "\<exists>s. hs_client (to_node 42) sample_connection = Inr s \<and>
    session_passes sample_wire sample_cbor (cs_calling sample_hash sample_wire sample_cbor) cs_channel
      (\<lambda>ch s. s\<lparr>cs_channel := ch\<rparr>) sync_starts [CallFind (known_points sample_config), CallNext]
      (session_opened s
        [Expect (0, hs_bytes sample_cbor (hb_proposal (to_node 42))),
         Say (0x8000, hs_bytes sample_cbor (AcceptVersion (N2N 7) 42)),
         Expect (0x0002, cs_bytes sample_cbor (FindIntersect (known_points sample_config))),
         Say (0x8002, cs_bytes sample_cbor (IntersectNotFound sample_tip)),
         Expect (0x0002, cs_bytes sample_cbor RequestNext),
         Say (0x8002, cs_bytes sample_cbor AwaitReply),
         Say (0x8002, cs_bytes sample_cbor (RollBackward (point_of_tip sample_tip) sample_tip))] id)
      [Intersected (NotFound sample_tip), Replied (Backward (point_of_tip sample_tip) sample_tip)]"
proof -
  let ?bytes = "cs_bytes sample_cbor" and ?points = "known_points sample_config"
  let ?rounds = "[(CallFind ?points, [?bytes (IntersectNotFound sample_tip)]), (CallNext, [?bytes AwaitReply,
    ?bytes (RollBackward (point_of_tip sample_tip) sample_tip)])]"
  have "carries_answer sample_cbor sample_hash (CallFind ?points, [?bytes (IntersectNotFound sample_tip)])
      (Intersected (NotFound sample_tip))"
    by (simp add: carries_answer_def cs_serves.intersect) (simp add: sample_cs_sizes)
  with sample_rolled have "list_all2 (carries_answer sample_cbor sample_hash) ?rounds
      [Intersected (NotFound sample_tip), Replied (Backward (point_of_tip sample_tip) sample_tip)]"
    by simp
  from sync_program_any_schedule[where cfg = sample_config and v = "N2N 7" and n = 1 and clock = id,
      OF sample_program_laws _ _ _ this]
  show ?thesis by (simp add: sample_program sync_calls_def accepts_first_def)
qed

section \<open>Looking for the tip\<close>

text \<open>
  The program of \<open>tip.rs\<close>: \<open>TipStart\<close> looks for a common point, \<open>TipNext\<close> and then \<open>TipSeek\<close>
  are a turn of its loop. Beside the client it keeps the tip of the header that it has got in the
  turn, if it has got one: that is the tip it asks for then. The results are the lines it logs.
\<close>

datatype tip_call = TipStart "point list" | TipNext | TipSeek

fun tip_lines :: "cs_answer \<Rightarrow> tip_event list" where
  "tip_lines (Intersected (Found point tip)) = [CommonPoint point tip]"
| "tip_lines (Intersected (NotFound tip)) = []"
| "tip_lines (Replied (Forward header tip)) =
     MovedForward header tip # (if bh_hash header = tip_hash tip then [ReachedTip] else [])"
| "tip_lines (Replied (Backward slot tip)) = [MovedBackward slot tip]"

fun tip_sought :: "cs_answer \<Rightarrow> tip option" where
  "tip_sought (Replied (Forward header tip)) = Some tip"
| "tip_sought _ = None"

definition tip_started :: "cs_answer \<Rightarrow> (chain_sync \<times> tip option, error, tip_event list) op" where
  "tip_started answer state = (case answer of
       Intersected (NotFound tip) \<Rightarrow> Inl (Panic ExplicitPanic)
     | _ \<Rightarrow> Inr (tip_lines answer), state)"

definition tip_seek :: "(nat \<Rightarrow> byte list \<Rightarrow> byte list) \<Rightarrow> wire \<Rightarrow> cbor \<Rightarrow> tip option \<Rightarrow>
    byte list option \<Rightarrow> (chain_sync, error, unit) task" where
  "tip_seek blake2b w c sought a = (case sought of
       None \<Rightarrow> sync_t (ret_s ())
     | Some tip \<Rightarrow>
         bind_t (cs_calling blake2b w c (CallFind [point_of_tip tip]) a) (\<lambda>_. sync_t (ret_s ())))"

definition tip_calling :: "(nat \<Rightarrow> byte list \<Rightarrow> byte list) \<Rightarrow> wire \<Rightarrow> cbor \<Rightarrow>
    (tip_call, chain_sync \<times> tip option, tip_event list) caller" where
  "tip_calling blake2b w c call a = (case call of
       TipStart points \<Rightarrow> bind_t (paired (\<lambda>_. cs_calling blake2b w c (CallFind points)) a)
         (\<lambda>answer. sync_t (tip_started answer))
     | TipNext \<Rightarrow> bind_t (paired (\<lambda>_. cs_calling blake2b w c CallNext) a)
         (\<lambda>answer. sync_t (\<lambda>state. (Inr (tip_lines answer), fst state, tip_sought answer)))
     | TipSeek \<Rightarrow> bind_t (paired (tip_seek blake2b w c) a)
         (\<lambda>_. sync_t (\<lambda>state. (Inr [], fst state, None))))"

interpretation tip_plays: resumable_calls "cs_channel \<circ> fst"
    "\<lambda>ch. map_prod (\<lambda>s. s\<lparr>cs_channel := ch\<rparr>) id" "tip_calling blake2b" for blake2b
proof (unfold_locales)
  fix w :: wire and c :: cbor and q :: tip_call
  assume progress: "cbor_progress c"
  note call = cs_plays.resumable_call[OF progress]
  note bind = channel_lens.resumable_bind[OF cs_plays.channel_lens_paired cs_plays.resumable_paired]
  have seek: "resumable w cs_channel (\<lambda>ch s. s\<lparr>cs_channel := ch\<rparr>) (tip_seek blake2b w c sought)"
    for sought
    unfolding tip_seek_def
  proof (cases sought)
    case (Some tip)
    have "resumable w cs_channel (\<lambda>ch s. s\<lparr>cs_channel := ch\<rparr>) (\<lambda>a.
        bind_t (cs_calling blake2b w c (CallFind [point_of_tip tip]) a) (\<lambda>_. sync_t (ret_s ())))"
      by (rule cs_plays.resumable_bind[OF call]) (simp add: ret_s_def)
    with Some show "resumable w cs_channel (\<lambda>ch s. s\<lparr>cs_channel := ch\<rparr>) (\<lambda>a. case sought of
        None \<Rightarrow> sync_t (ret_s ())
      | Some tip \<Rightarrow>
          bind_t (cs_calling blake2b w c (CallFind [point_of_tip tip]) a) (\<lambda>_. sync_t (ret_s ())))"
      by simp
  qed (simp add: cs_plays.resumable_sync ret_s_def)
  show "resumable w (cs_channel \<circ> fst) (\<lambda>ch. map_prod (\<lambda>s. s\<lparr>cs_channel := ch\<rparr>) id)
      (tip_calling blake2b w c q)"
    unfolding tip_calling_def
    by (cases q) (auto simp: tip_started_def intro!: bind call seek split: cs_answer.split intersect.split)
qed (auto simp: cs_plays.lens)

text \<open>A call of the program that asks the node.\<close>

lemma tip_round:
  assumes "wire_ok w" "cbor_stream c" "cbor_progress c" and "cs_calm s" "roomy (ch_conn (cs_channel s))"
    and "carries_answer c blake2b (call, ps) answer"
    and waits: "\<And>t. cs_calling blake2b w c call None s = Some (Pending [], t) \<Longrightarrow>
      tip_calling blake2b w c q None (s, e) = Some (Pending [], t, e)"
    and answers: "\<And>s' u. cs_calling blake2b w c call None s' = Some (Ready (Inr answer), u) \<Longrightarrow>
      tip_calling blake2b w c q None (s', e) = Some (Ready (Inr entries), u, e')"
    and rest: "\<And>u. cs_calm u \<Longrightarrow> roomy (ch_conn (cs_channel u)) \<Longrightarrow> tip_plays.follows blake2b w c
      0x0002 0x8002 (\<lambda>k. clock (k + length ps)) calls (got @ [entries]) (u, e') script goal"
  shows "tip_plays.follows blake2b w c 0x0002 0x8002 clock (q # calls) got (s, e)
    (Expect (cs_bytes c (cs_request call)) # map Say ps @ script) goal"
proof -
  let ?ch = "hear w [said w 0x8002 clock (map Say ps)] (cs_channel s)"
  let ?asked = "frame w (cn_clock (ch_conn (cs_channel s)) 0) 0x0002 (cs_bytes c (cs_request call))"
  obtain t u where t: "cs_calling blake2b w c call None s = Some (Pending [], t)"
      "cn_sent (ch_conn (cs_channel t)) = cn_sent (ch_conn (cs_channel s)) @ ?asked"
    and u: "cs_calling blake2b w c call None (s\<lparr>cs_channel := ?ch\<rparr>) = Some (Ready (Inr answer), u)"
      "cs_calm u" "roomy (ch_conn (cs_channel u))"
      "cn_sent (ch_conn (cs_channel u)) = cn_sent (ch_conn (cs_channel s)) @ ?asked"
    by (rule cs_round_heard[OF assms(1,2,4-6)])
  show ?thesis
  proof (rule tip_plays.follows_round[where qs = "[q]", simplified append.simps, OF assms(3)])
    show "tip_plays.open_stream (s, e)"
      using assms(4) by (simp add: tip_plays.open_stream_def cs_calm_def tuned_def)
    show "length (cs_bytes c (cs_request call)) < 65536"
      using assms(6) by (simp add: carries_answer_def)
    show "run_calls (tip_calling blake2b w c) [q] None got (s, e) = Some (Waits [q] [] got, t, e)"
      by (simp add: waits[OF t(1)])
    show "caught_up w (said w 0x8002 clock (map Say ps)) ((cs_channel \<circ> fst) (s, e)) ?ch"
      by (simp add: caught_up_hear)
    show "run_calls (tip_calling blake2b w c) [q] None got
        (map_prod (\<lambda>s. s\<lparr>cs_channel := ?ch\<rparr>) id (s, e)) = Some (Ends (got @ [entries]), u, e')"
      by (simp add: answers[OF u(1)])
    show "tip_plays.written (t, e) = tip_plays.written (s, e) @ ?asked"
      "tip_plays.written (u, e') = tip_plays.written (s, e) @ ?asked"
      using t(2) u(4) by (simp_all add: tip_plays.written_def)
  qed (use rest[OF u(2,3)] in simp_all)
qed

text \<open>
  The script of a node that answers \<open>n\<close> turns of the loop, and the lines of the calls: after a
  header it is asked for the tip that came with it, after a rollback it is asked for nothing.
\<close>

inductive tip_talk :: "cbor \<Rightarrow> (nat \<Rightarrow> byte list \<Rightarrow> byte list) \<Rightarrow> nat \<Rightarrow> payload peer_step list \<Rightarrow>
    tip_event list list \<Rightarrow> bool" for c blake2b where
  silence: "tip_talk c blake2b 0 [] []"
| header: "carries_answer c blake2b (CallNext, ps) (Replied (Forward h t)) \<Longrightarrow>
    carries_answer c blake2b (CallFind [point_of_tip t], ps') (Intersected i) \<Longrightarrow>
    tip_talk c blake2b n script entries \<Longrightarrow>
    tip_talk c blake2b (Suc n)
      (Expect (cs_bytes c RequestNext) # map Say ps @
        Expect (cs_bytes c (FindIntersect [point_of_tip t])) # map Say ps' @ script)
      (tip_lines (Replied (Forward h t)) # [] # entries)"
| rollback: "carries_answer c blake2b (CallNext, ps) (Replied (Backward p t)) \<Longrightarrow>
    tip_talk c blake2b n script entries \<Longrightarrow>
    tip_talk c blake2b (Suc n) (Expect (cs_bytes c RequestNext) # map Say ps @ script)
      (tip_lines (Replied (Backward p t)) # [] # entries)"

definition tip_turns :: "nat \<Rightarrow> tip_call list" where
  "tip_turns n = concat (replicate n [TipNext, TipSeek])"

lemma tip_turns_simps [simp]:
  "tip_turns 0 = []" "tip_turns (Suc n) = TipNext # TipSeek # tip_turns n"
  by (simp_all add: tip_turns_def)

lemma tip_talk_follows:
  assumes "wire_ok w" "cbor_stream c" "cbor_progress c"
    and "tip_talk c blake2b n script entries" and "cs_calm s" "roomy (ch_conn (cs_channel s))"
  shows "tip_plays.follows blake2b w c 0x0002 0x8002 clock (tip_turns n) got (s, None) script
    (got @ entries)"
  using assms(4-6)
proof (induction arbitrary: clock got s rule: tip_talk.induct)
  case silence
  then show ?case
    unfolding tip_turns_simps append_Nil2
    by (intro tip_plays.follows_done) (simp add: tip_plays.open_stream_def cs_calm_def tuned_def)
next
  case (header ps h t ps' i n script entries)
  let ?says = "tip_lines (Replied (Forward h t))"
  note round = tip_round[OF assms(1-3)]
  have seek: "tip_plays.follows blake2b w c 0x0002 0x8002 clock (TipSeek # tip_turns n) (got @ [?says])
      (u, Some t) (Expect (cs_bytes c (FindIntersect [point_of_tip t])) # map Say ps' @ script)
      (got @ ?says # [] # entries)"
    if u: "cs_calm u" "roomy (ch_conn (cs_channel u))" for clock u
  proof (rule round[OF u header.hyps(2), unfolded cs_request.simps])
    fix v assume v: "cs_calm v" "roomy (ch_conn (cs_channel v))"
    from header.IH[OF v, of "\<lambda>k. clock (k + length ps')" "(got @ [?says]) @ [[]]"]
    show "tip_plays.follows blake2b w c 0x0002 0x8002 (\<lambda>k. clock (k + length ps')) (tip_turns n)
        ((got @ [?says]) @ [[]]) (v, None) script (got @ ?says # [] # entries)"
      by (simp only: append_assoc append_Cons append_Nil)
  qed (simp_all add: tip_calling_def tip_seek_def paired_def bind_t_def sync_t_def ret_s_def)
  show ?case
    unfolding tip_turns_simps
    by (rule round[OF header.prems header.hyps(1), unfolded cs_request.simps, OF _ _ seek])
      (simp_all add: tip_calling_def paired_def bind_t_def sync_t_def)
next
  case (rollback ps p t n script entries)
  let ?says = "tip_lines (Replied (Backward p t))"
  have seek: "tip_plays.follows blake2b w c 0x0002 0x8002 clock (TipSeek # tip_turns n) (got @ [?says])
      (u, None) script (got @ ?says # [] # entries)"
    if u: "cs_calm u" "roomy (ch_conn (cs_channel u))" for clock u
  proof (rule tip_plays.follows_instant)
    show "tip_calling blake2b w c TipSeek None (map_prod (\<lambda>s. s\<lparr>cs_channel := ch\<rparr>) id (u, None)) =
        Some (Ready (Inr []), map_prod (\<lambda>s. s\<lparr>cs_channel := ch\<rparr>) id (u, None))" for ch
      by (simp add: tip_calling_def tip_seek_def paired_def bind_t_def sync_t_def ret_s_def)
    from rollback.IH[OF u, of clock "(got @ [?says]) @ [[]]"]
    show "tip_plays.follows blake2b w c 0x0002 0x8002 clock (tip_turns n) ((got @ [?says]) @ [[]])
        (u, None) script (got @ ?says # [] # entries)"
      by (simp only: append_assoc append_Cons append_Nil)
  qed
  show ?case
    unfolding tip_turns_simps
    by (rule tip_round[OF assms(1-3) rollback.prems rollback.hyps(1), unfolded cs_request.simps, OF _ _ seek])
      (simp_all add: tip_calling_def paired_def bind_t_def sync_t_def)
qed

definition tip_starts :: "connection \<Rightarrow> (error, chain_sync \<times> tip option) result" where
  "tip_starts conn = Inr (cs_client conn, None)"

text \<open>
  C4. The program of \<open>tip.rs\<close> under any schedule, stopped after \<open>n\<close> turns of its loop: it shakes
  hands, looks for a common point, which the node has, and then moves along the chain of the node,
  whose messages come in payloads cut in any way. However the two are scheduled, the node is asked
  after each header for the tip that came with it, and after a rollback for the next step only; no
  call fails; a program that is through has logged the common point and every step of the node in
  order, and \<open>Reached tip!\<close> after exactly the headers whose hash is that of their tip; and every
  schedule can be completed.
\<close>

theorem tip_program_any_schedule:
  assumes "wire_ok w" "cbor_stream c" "cbor_order c" "cbor_progress c"
    and "tcp_connect dial (cf_host cfg) = Inr conn" "roomy conn" and "v = N2N 6 \<or> v = N2N 7"
    and "length (hs_bytes c (hb_proposal (to_node (cf_magic cfg)))) < 65536"
    and "length (hs_bytes c (AcceptVersion v (cf_magic cfg))) < 65536"
    and "carries_answer c blake2b (CallFind (known_points cfg), ps) (Intersected (Found p t))"
    and "tip_talk c blake2b n script entries"
  shows "\<exists>s. hs_client (to_node (cf_magic cfg)) conn = Inr s \<and>
    session_passes w c (tip_calling blake2b w c) (cs_channel \<circ> fst)
      (\<lambda>ch. map_prod (\<lambda>s. s\<lparr>cs_channel := ch\<rparr>) id) tip_starts
      (TipStart (known_points cfg) # tip_turns n)
      (session_opened s (accepts_first c v (cf_magic cfg) 0x0002 0x8002
        (Expect (cs_bytes c (FindIntersect (known_points cfg))) # map Say ps @ script)) clock)
      ([CommonPoint p t] # entries)"
proof -
  obtain s where s: "hs_client (to_node (cf_magic cfg)) conn = Inr s"
    "shakes_hands w c (hs_bytes c (hb_proposal (to_node (cf_magic cfg))))
      (hs_bytes c (AcceptVersion v (cf_magic cfg))) s"
    by (rule to_node_shakes_hands[OF assms(1-3,5-9)])
  have "tip_plays.follows blake2b w c 0x0002 0x8002 clock (TipStart (known_points cfg) # tip_turns n)
      [] (cs_client near, None)
      (Expect (cs_bytes c (FindIntersect (known_points cfg))) # map Say ps @ script)
      ([CommonPoint p t] # entries)"
    if "fresh near" "roomy near" for near clock
  proof (rule tip_round[OF assms(1,2,4) _ _ assms(10), unfolded cs_request.simps])
    show "cs_calm (cs_client near)" "roomy (ch_conn (cs_channel (cs_client near)))"
      using cs_client_calm[OF that(1)] peer_opened(1)[OF that] by (simp_all add: cs_client_def)
    fix u assume u: "cs_calm u" "roomy (ch_conn (cs_channel u))"
    from tip_talk_follows[OF assms(1,2,4,11) u, of "\<lambda>k. clock (k + length ps)" "[[CommonPoint p t]]"]
    show "tip_plays.follows blake2b w c 0x0002 0x8002 (\<lambda>k. clock (k + length ps)) (tip_turns n)
        ([] @ [[CommonPoint p t]]) (u, None) script ([CommonPoint p t] # entries)"
      by (simp only: append_Cons append_Nil)
  qed (simp_all add: tip_calling_def tip_started_def paired_def bind_t_def sync_t_def)
  then have "\<exists>client. tip_starts near = Inr client \<and> (\<forall>clock. tip_plays.follows blake2b w c 0x0002 0x8002
      clock (TipStart (known_points cfg) # tip_turns n) [] client
      (Expect (cs_bytes c (FindIntersect (known_points cfg))) # map Say ps @ script)
      ([CommonPoint p t] # entries))"
    if "fresh near" "roomy near" for near
    using that unfolding tip_starts_def by blast
  from tip_plays.program_passes[where start = tip_starts, OF assms(4,1) s(2) this] s(1) show ?thesis
    unfolding accepts_first_def append_Cons append_Nil by blast
qed

text \<open>A node with a header that is its tip, and after a wait a rollback.\<close>

lemma sample_tip_talk:
  fixes header :: wrapped_header
  defines "tip \<equiv> sample_tip\<lparr>tip_hash := replicate 32 109\<rparr>"
    and "h \<equiv> sample_header\<lparr>bh_hash := replicate 32 109\<rparr>"
  assumes header: "header_of_wrapped sample_cbor sample_hash header = Inr h" "length (wh_bytes header) = 109"
  shows "tip_talk sample_cbor sample_hash 2
    [Expect (cs_bytes sample_cbor RequestNext), Say (cs_bytes sample_cbor (RollForward header tip)),
     Expect (cs_bytes sample_cbor (FindIntersect [point_of_tip tip])),
     Say (cs_bytes sample_cbor (IntersectFound (point_of_tip tip) tip)),
     Expect (cs_bytes sample_cbor RequestNext), Say (cs_bytes sample_cbor AwaitReply),
     Say (cs_bytes sample_cbor (RollBackward (point_of_tip sample_tip) sample_tip))]
    [[MovedForward h tip, ReachedTip], [], [MovedBackward (point_of_tip sample_tip) sample_tip], []]"
proof -
  have "cs_serves sample_cbor sample_hash CallNext (concat (map (cs_bytes sample_cbor)
      (replicate 0 AwaitReply @ [RollForward header tip]))) (Replied (Forward h tip))"
    by (rule cs_serves.reply) (simp add: header(1))
  then have forward: "carries_answer sample_cbor sample_hash
      (CallNext, [cs_bytes sample_cbor (RollForward header tip)]) (Replied (Forward h tip))"
    by (simp add: carries_answer_def) (simp add: sample_cs_sizes header(2) tip_def)
  have sought: "carries_answer sample_cbor sample_hash (CallFind [point_of_tip tip],
      [cs_bytes sample_cbor (IntersectFound (point_of_tip tip) tip)]) (Intersected (Found (point_of_tip tip) tip))"
    by (simp add: carries_answer_def cs_serves.intersect) (simp add: sample_cs_sizes tip_def)
  from tip_talk.header[OF forward sought tip_talk.rollback[OF sample_rolled tip_talk.silence]]
  show ?thesis by (simp add: numeral_2_eq_2 h_def tip_def)
qed

text \<open>A node with a common point, a header that is its tip, and after a wait a rollback.\<close>

theorem tip_program_any_schedule_witness:
  "\<exists>header h tip s. hs_client (to_node 42) sample_connection = Inr s \<and> bh_hash h = tip_hash tip \<and>
    session_passes sample_wire sample_cbor (tip_calling sample_hash sample_wire sample_cbor)
      (cs_channel \<circ> fst) (\<lambda>ch. map_prod (\<lambda>s. s\<lparr>cs_channel := ch\<rparr>) id) tip_starts
      [TipStart (known_points sample_config), TipNext, TipSeek, TipNext, TipSeek]
      (session_opened s
        [Expect (0, hs_bytes sample_cbor (hb_proposal (to_node 42))),
         Say (0x8000, hs_bytes sample_cbor (AcceptVersion (N2N 7) 42)),
         Expect (0x0002, cs_bytes sample_cbor (FindIntersect (known_points sample_config))),
         Say (0x8002, cs_bytes sample_cbor (IntersectFound (point_of_tip sample_tip) sample_tip)),
         Expect (0x0002, cs_bytes sample_cbor RequestNext),
         Say (0x8002, cs_bytes sample_cbor (RollForward header tip)),
         Expect (0x0002, cs_bytes sample_cbor (FindIntersect [point_of_tip tip])),
         Say (0x8002, cs_bytes sample_cbor (IntersectFound (point_of_tip tip) tip)),
         Expect (0x0002, cs_bytes sample_cbor RequestNext),
         Say (0x8002, cs_bytes sample_cbor AwaitReply),
         Say (0x8002, cs_bytes sample_cbor (RollBackward (point_of_tip sample_tip) sample_tip))] id)
      [[CommonPoint (point_of_tip sample_tip) sample_tip],
       [MovedForward h tip, ReachedTip], [],
       [MovedBackward (point_of_tip sample_tip) sample_tip], []]"
proof -
  let ?bytes = "cs_bytes sample_cbor" and ?points = "known_points sample_config"
  let ?point = "point_of_tip sample_tip"
  let ?tip = "sample_tip\<lparr>tip_hash := replicate 32 109\<rparr>"
  let ?h = "sample_header\<lparr>bh_hash := replicate 32 109\<rparr>"
  obtain header where header: "header_of_wrapped sample_cbor sample_hash header = Inr ?h"
      "length (wh_bytes header) = 109"
    by (rule sample_header_wrapped)
  have found: "carries_answer sample_cbor sample_hash (CallFind ?points,
      [?bytes (IntersectFound ?point sample_tip)]) (Intersected (Found ?point sample_tip))"
    by (simp add: carries_answer_def cs_serves.intersect) (simp add: sample_cs_sizes)
  note passes = tip_program_any_schedule[where cfg = sample_config and v = "N2N 7" and clock = id,
      OF sample_program_laws _ _ _ found sample_tip_talk[OF header]]
  show ?thesis
    by (intro exI[of _ header] exI[of _ ?h] exI[of _ ?tip])
      (use passes in \<open>simp add: sample_program accepts_first_def numeral_2_eq_2\<close>)
qed

end
