(* ===== verification/Examples_Store.thy ===== *)
theory Examples_Store
  imports Examples_Facts
begin

text \<open>
  The programs that keep blocks: the fetched blocks are stored in the order in which the node
  sent them, every record of the database is filed under the hash of its block, and
  replaying the database finds it so.
\<close>

section \<open>Fetching\<close>

text \<open>The blocks handled one after the other, up to the first that fails.\<close>

fun store_all :: "('b, 'd, 'w) deps \<Rightarrow> byte list list \<Rightarrow> (('d, 'w) config, error, unit) op" where
  "store_all dp [] cfg = (Inr (), cfg)"
| "store_all dp (b # bs) cfg = bind_s (handle_block dp b) (\<lambda>_. store_all dp bs) cfg"

lemma fetch_loop_step:
  assumes "bf_next w c s = Some (Ready (Inr (Some b)), t)" and "net k = []"
  shows "fetch_loop dp w c net k cfg s = (case handle_block dp b cfg of
      (Inl f, cfg') \<Rightarrow> Some (Ready (Inl f), cfg', t)
    | (Inr _, cfg') \<Rightarrow> fetch_loop dp w c net (Suc k) cfg' t)"
  using assms by (simp add: fetch_loop.simps[of dp w c net k cfg s])

text \<open>With everything there the loop of the program does to the blocks what \<open>store_all\<close> does.\<close>

lemma fetch_loop_stores:
  assumes "cbor_progress c" and "bf_collect w c acc s = Some (Ready (Inr bs), t)"
    and "\<And>j. k \<le> j \<Longrightarrow> net j = []"
  shows "\<exists>bs' s'. bs = acc @ bs' \<and> fetch_loop dp w c net k cfg s =
    Some (Ready (fst (store_all dp bs' cfg)), snd (store_all dp bs' cfg), s')"
  using assms(2,3)
proof (induction "(bf.waiting_on c s, length (bf_result s))" arbitrary: acc s k cfg rule: less_induct)
  case less
  obtain r u where step: "bf_next w c s = Some (r, u)"
    using bf_next_returns[OF assms(1)] by fastforce
  have silent: "net k = []" using less.prems(2) by simp
  show ?case
  proof (cases "\<exists>b. r = Ready (Inr (Some b))")
    case True
    then obtain b where b: "r = Ready (Inr (Some b))" by blast
    note step = step[unfolded b]
    obtain res cfg' where handled: "handle_block dp b cfg = (res, cfg')"
      by (cases "handle_block dp b cfg")
    have collect: "bf_collect w c (acc @ [b]) u = Some (Ready (Inr bs), t)"
      using less.prems(1) by (simp add: bf_collect_step[OF step])
    from less(1)[OF bf_next_progress[OF assms(1) step] collect, of "Suc k" cfg'] less.prems(2)
    obtain bs' s' where rest: "bs = (acc @ [b]) @ bs'"
      "fetch_loop dp w c net (Suc k) cfg' u =
        Some (Ready (fst (store_all dp bs' cfg')), snd (store_all dp bs' cfg'), s')"
      by auto
    show ?thesis
    proof (cases res)
      case (Inl f)
      with rest(1) handled show ?thesis
        by (intro exI[of _ "b # bs'"] exI[of _ u])
          (simp add: fetch_loop_step[where net = net and k = k, OF step silent] bind_s_def)
    next
      case (Inr x)
      with rest handled show ?thesis
        by (intro exI[of _ "b # bs'"] exI[of _ s'])
          (simp add: fetch_loop_step[where net = net and k = k, OF step silent] bind_s_def)
    qed
  next
    case False
    with less.prems(1) step have "r = Ready (Inr None)" "bs = acc"
      by (auto simp: bf_collect.simps[of w c acc s] split: poll.splits sum.splits option.splits)
    with step silent show ?thesis
      by (intro exI[of _ "[]"] exI[of _ u]) (simp add: fetch_loop.simps[of dp w c net k cfg s])
  qed
qed

text \<open>A node that sends the blocks \<open>bs\<close> for the range.\<close>

definition node_sends_batch :: "wire \<Rightarrow> cbor \<Rightarrow> byte list list \<Rightarrow> byte list list \<Rightarrow> bool" where
  "node_sends_batch w c bs chunks \<longleftrightarrow> (\<exists>fs. peer_writes w fs (concat chunks) \<and>
     concat (payloads_for 0x0003 fs) = concat (map (bf_bytes c) (StartBatch # batch bs)))"

lemma fetch_stores_run:
  assumes "wire_ok w" "cbor_stream c" "cbor_order c" "cbor_progress c"
    and "tcp_connect dial (cf_host cfg) = Inr conn" "fresh conn"
    and "node_accepts w c v (cf_magic cfg) (net 0)" "v = N2N 6 \<or> v = N2N 7"
    and "fetch_range dp = Inr builder"
    and "node_sends_batch w c bs (net 1)" and "\<And>j. 2 \<le> j \<Longrightarrow> net j = []"
  shows "\<exists>conn'. fetch_example dp w c dial net cfg =
    Some (Ready (fst (store_all dp bs cfg)), snd (store_all dp bs cfg), Some conn')"
proof -
  obtain conn' where shake: "shake_hands w c (to_node (cf_magic cfg)) Client (net 0) conn =
      Some (Ready (Inr ()), conn')" "fresh conn'"
    by (rule shake_hands_agrees[OF assms(1-3,6-8)])
  have "\<exists>s conn''. bf_client builder conn' = (Inr s, conn'')"
    using assms(9) by (auto simp: fetch_range_def bf_client_def bf_first_def bf_last_def
        bf_builder_new_def bind_r_def Let_def split: sum.splits)
  then obtain s conn'' where s: "bf_client builder conn' = (Inr s, conn'')" by blast
  from assms(10) obtain fs where fs: "peer_writes w fs (concat (net 1))"
      "concat (payloads_for 0x0003 fs) = concat (map (bf_bytes c) (StartBatch # batch bs))"
    by (auto simp: node_sends_batch_def)
  from block_fetch_wire[OF assms(1,2) shake(2) s fs] obtain t u where
    t: "bf_run w c (bf_hear w (net 1) s) = Some (Ready (Inr ()), t)"
      "bf_collect w c [] t = Some (Ready (Inr bs), u)" by blast
  from fetch_loop_stores[where net = net and k = 2, OF assms(4) t(2) assms(11), of dp cfg]
  obtain s' where "fetch_loop dp w c net 2 cfg t =
      Some (Ready (fst (store_all dp bs cfg)), snd (store_all dp bs cfg), s')" by auto
  then show ?thesis
    by (simp add: fetch_example_def assms(5,9) shake(1) s t(1) del: One_nat_def)
qed

text \<open>
  C12. The program of \<open>blockfetch.rs\<close> against a node that accepts the handshake and sends a batch,
  cut into chunks and frames in any way: it hands the blocks of the batch to the database and
  the writer, each once and in the order of the batch, and ends with success; if one
  of them cannot be handled it ends there with that failure.
\<close>

theorem fetch_stores_batch:
  assumes "wire_ok w" "cbor_stream c" "cbor_order c" "cbor_progress c"
    and "tcp_connect dial (cf_host cfg) = Inr conn" "fresh conn"
    and "node_accepts w c v (cf_magic cfg) (net 0)" "v = N2N 6 \<or> v = N2N 7"
    and "fetch_range dp = Inr builder"
    and "node_sends_batch w c bs (net 1)" and "\<And>j. 2 \<le> j \<Longrightarrow> net j = []"
  shows "\<exists>conn'. fetch_example dp w c dial net cfg =
    Some (Ready (fst (store_all dp bs cfg)), snd (store_all dp bs cfg), Some conn')"
  by (rule fetch_stores_run[where net = net and dial = dial and cfg = cfg, OF assms])

section \<open>The database\<close>

text \<open>
  What \<open>sled\<close> documents of its trees: opening one that is there changes nothing, and an
  insertion replaces the record of its key and no other.
\<close>

definition sled_ok :: "('b, 'd, 'w) deps \<Rightarrow> bool" where
  "sled_ok dp \<longleftrightarrow>
     (\<forall>name db db'. dp_open_tree dp name db = (Inr (), db') \<longrightarrow>
        dp_records dp name db' = dp_records dp name db) \<and>
     (\<forall>name k v db db'. dp_insert dp name k v db = (Inr (), db') \<longrightarrow>
        set (dp_records dp name db') = insert (Inr (k, v))
          {r \<in> set (dp_records dp name db). \<forall>v'. r \<noteq> Inr (k, v')})"

text \<open>Every record can be read, decodes, and is filed under the hash of its block.\<close>

definition filed :: "('b, 'd, 'w) deps \<Rightarrow> 'd \<Rightarrow> bool" where
  "filed dp db \<longleftrightarrow> (\<forall>r \<in> set (dp_records dp ''blocks'' db). \<exists>data n block.
     r = Inr (dp_hash_block_header dp block, data) \<and>
     dp_decode_fragment dp data = Inr (n, block))"

lemma handle_block_filed:
  assumes "sled_ok dp" and "filed dp (cf_sdb cfg)" and "handle_block dp data cfg = (Inr (), cfg')"
  shows "filed dp (cf_sdb cfg')"
proof -
  from assms(3) obtain db n block db' writer where
    opened: "dp_open_tree dp ''blocks'' (cf_sdb cfg) = (Inr (), db)"
    and block: "dp_decode_fragment dp data = Inr (n, block)"
    and inserted: "dp_insert dp ''blocks'' (dp_hash_block_header dp block) data db = (Inr (), db')"
    and cfg': "cfg' = cfg\<lparr>cf_sdb := db', cf_writer := writer\<rparr>"
    by (auto simp: handle_block_def unwrap_s_def split: prod.splits sum.splits)
  have "dp_records dp ''blocks'' db = dp_records dp ''blocks'' (cf_sdb cfg)"
    using assms(1) opened unfolding sled_ok_def by blast
  moreover have "set (dp_records dp ''blocks'' db') =
      insert (Inr (dp_hash_block_header dp block, data)) {r \<in> set (dp_records dp ''blocks'' db).
        \<forall>v'. r \<noteq> Inr (dp_hash_block_header dp block, v')}"
    using assms(1) inserted unfolding sled_ok_def by blast
  ultimately show ?thesis using assms(2) block by (auto simp: filed_def cfg')
qed

lemma store_all_filed:
  "sled_ok dp \<Longrightarrow> filed dp (cf_sdb cfg) \<Longrightarrow> store_all dp bs cfg = (Inr (), cfg') \<Longrightarrow>
    filed dp (cf_sdb cfg')"
proof (induction bs arbitrary: cfg)
  case Nil
  then show ?case by simp
next
  case (Cons b bs)
  obtain r cfg1 where b: "handle_block dp b cfg = (r, cfg1)" by (cases "handle_block dp b cfg")
  with Cons.prems(3) have "r = Inr ()" "store_all dp bs cfg1 = (Inr (), cfg')"
    by (auto simp: bind_s_def split: sum.splits)
  with Cons b handle_block_filed show ?case by blast
qed

text \<open>
  Replaying filed records finds no mismatch, and fails only if the writer does.
\<close>

lemma replay_filed:
  assumes "\<forall>r \<in> set records. \<exists>data n block. r = Inr (dp_hash_block_header dp block, data) \<and>
      dp_decode_fragment dp data = Inr (n, block)"
  shows "case replay_loop dp records m writer of
      (Inr m', _) \<Rightarrow> m' = m
    | (Inl f, _) \<Rightarrow> \<exists>block writer' f'. fst (dp_crawl dp block writer') = Inl f' \<and>
        unwrap (Inl f' :: (error, unit) result) = Inl f"
  using assms
proof (induction records arbitrary: writer)
  case Nil
  then show ?case by simp
next
  case (Cons r records)
  then obtain data n block where r: "r = Inr (dp_hash_block_header dp block, data)"
      "dp_decode_fragment dp data = Inr (n, block)" by auto
  obtain res writer1 where crawl: "dp_crawl dp block writer = (res, writer1)"
    by (cases "dp_crawl dp block writer")
  show ?case
  proof (cases res)
    case (Inl f)
    then obtain f' where f': "unwrap res = Inl f'" "unwrap (Inl f :: (error, unit) result) = Inl f'"
      by (cases f) simp_all
    show ?thesis
      using r crawl Inl f' by (auto simp: unwrap_s_def intro!: exI[of _ block] exI[of _ writer])
  next
    case (Inr x)
    with Cons r crawl show ?thesis by (simp add: unwrap_s_def)
  qed
qed

text \<open>Whatever the node sends, the loop keeps the database filed unless a block fails.\<close>

lemma fetch_loop_filed:
  assumes "sled_ok dp" and run: "fetch_loop dp w c net k cfg s = Some (r, cfg', s')"
    and "filed dp (cf_sdb cfg)" and "\<And>f. r \<noteq> Ready (Inl f)"
  shows "filed dp (cf_sdb cfg')"
proof -
  let ?ok = "\<lambda>cfg res. filed dp (cf_sdb cfg) \<longrightarrow>
    (\<forall>f. fst res \<noteq> (Ready (Inl f) :: (error, unit) poll)) \<longrightarrow>
    filed dp (cf_sdb (fst (snd res)))"
  have "dp = dp \<longrightarrow> ?ok cfg (r, cfg', s')"
  proof (rule fetch_loop.raw_induct[where P = "\<lambda>dp' w c net k cfg s res. dp' = dp \<longrightarrow> ?ok cfg res",
        OF _ run], intro impI)
    fix f dp' w c net k cfg s res
    assume IH: "\<And>dp' w c net k cfg s res. f dp' w c net k cfg s = Some res \<Longrightarrow>
        dp' = dp \<longrightarrow> ?ok cfg res"
      and eq: "(case bf_next w c (bf_hear w (net k) s) of
        None \<Rightarrow> None
      | Some (Ready (Inl f), s') \<Rightarrow> Some (Ready (Inl f), cfg, s')
      | Some (Ready (Inr None), s') \<Rightarrow> Some (Ready (Inr ()), cfg, s')
      | Some (Ready (Inr (Some block)), s') \<Rightarrow>
          (case handle_block dp' block cfg of
             (Inl f, cfg') \<Rightarrow> Some (Ready (Inl f), cfg', s')
           | (Inr _, cfg') \<Rightarrow> f dp' w c net (Suc k) cfg' s')
      | Some (Pending l, s') \<Rightarrow> Some (Pending l, cfg, s')) = Some res"
      and dp: "dp' = dp" and filed: "filed dp (cf_sdb cfg)" and fine: "\<forall>f. fst res \<noteq> Ready (Inl f)"
    show "filed dp (cf_sdb (fst (snd res)))"
    proof (cases "\<exists>b t. bf_next w c (bf_hear w (net k) s) = Some (Ready (Inr (Some b)), t)")
      case True
      then obtain b t where b: "bf_next w c (bf_hear w (net k) s) = Some (Ready (Inr (Some b)), t)"
        by blast
      obtain x cfg1 where handled: "handle_block dp b cfg = (x, cfg1)"
        by (cases "handle_block dp b cfg")
      with eq b dp fine have "x = Inr ()" "f dp w c net (Suc k) cfg1 t = Some res"
        by (auto split: sum.splits)
      with IH[OF this(2)] handle_block_filed[OF assms(1) filed] handled fine show ?thesis by simp
    next
      case False
      with eq filed show ?thesis
        by (auto split: option.splits poll.splits sum.splits)
    qed
  qed
  with assms(3,4) show ?thesis by simp
qed

lemma fetch_example_filed:
  assumes "sled_ok dp" and "fetch_example dp w c dial net cfg = Some (r, cfg', conn)"
    and "filed dp (cf_sdb cfg)" and "\<And>f. r \<noteq> Ready (Inl f)"
  shows "filed dp (cf_sdb cfg')"
proof -
  have "cfg' = cfg \<or> (\<exists>s s'. fetch_loop dp w c net 2 cfg s = Some (r, cfg', s'))"
    using assms(2) by (auto simp: fetch_example_def
        split: sum.splits option.splits poll.splits prod.splits)
  with assms(1,3,4) fetch_loop_filed show ?thesis by blast
qed

text \<open>
  C14. Whatever a node sends: if the database was filed by hash before (an empty one is), then,
  unless the fetching program fails, the database it leaves is one that the replaying program
  reads to its end without reporting a mismatch of hashes, when the tree opens and the writer and
  the sink of that program work.
\<close>

theorem replay_finds_fetched:
  assumes "sled_ok dp" and "filed dp (cf_sdb cfg)"
    and "fetch_example dp w c dial net cfg = Some (r, cfg', conn)" "\<And>f. r \<noteq> Ready (Inl f)"
    and "\<And>db. fst (dp_open_tree dp ''blocks'' db) = Inr ()"
    and "\<And>block writer. fst (dp_crawl dp block writer) = Inr ()"
  shows "\<exists>state. blockread dp (Inr ()) (Inr (Ready (Inr ()))) (cf_sdb cfg', writer) =
    Some (Ready (Inr 0), state)"
proof -
  have filed: "filed dp (cf_sdb cfg')"
    by (rule fetch_example_filed[OF assms(1,3,2,4)])
  obtain db where db: "dp_open_tree dp ''blocks'' (cf_sdb cfg') = (Inr (), db)"
    using assms(5)[of "cf_sdb cfg'"] by (cases "dp_open_tree dp ''blocks'' (cf_sdb cfg')") simp
  then have "dp_records dp ''blocks'' db = dp_records dp ''blocks'' (cf_sdb cfg')"
    using assms(1) unfolding sled_ok_def by blast
  with filed have "\<forall>r \<in> set (dp_records dp ''blocks'' db). \<exists>data n block.
      r = Inr (dp_hash_block_header dp block, data) \<and> dp_decode_fragment dp data = Inr (n, block)"
    by (simp add: filed_def)
  from replay_filed[OF this, of 0 writer] assms(6) obtain writer' where
    "replay_loop dp (dp_records dp ''blocks'' db) 0 writer = (Inr 0, writer')"
    by (auto split: prod.splits sum.splits)
  with db show ?thesis by (simp add: blockread_def unwrap_s_def)
qed

text \<open>
  A sample of the libraries: a block is its bytes, its hash the first of them, and the
  database a list of records.
\<close>

definition sample_deps :: "(byte list, (byte list \<times> byte list) list, byte list list) deps" where
  "sample_deps = \<lparr>dp_decode_fragment = (\<lambda>data. Inr (1, data)),
     dp_hash_block_header = (\<lambda>block. take 1 block),
     dp_open_tree = (\<lambda>name db. (Inr (), db)),
     dp_insert = (\<lambda>name k v db. (Inr (), (k, v) # filter (\<lambda>r. fst r \<noteq> k) db)),
     dp_records = (\<lambda>name db. map Inr db),
     dp_crawl = (\<lambda>block writer. (Inr (), writer @ [block])),
     dp_hex_decode = (\<lambda>text. Some (map (\<lambda>_. 0) text))\<rparr>"

lemma sample_sled_ok: "sled_ok sample_deps"
  by (auto simp: sled_ok_def sample_deps_def)

definition sample_cfg :: "((byte list \<times> byte list) list, byte list list) config" where
  "sample_cfg = \<lparr>cf_sdb = [], cf_host = ''node'', cf_magic = 42, cf_writer = [],
     cf_byron_mainnet = point_of_bytes (1, [1]), cf_byron_testnet = point_of_bytes (2, [2]),
     cf_byron_guild = point_of_bytes (3, [3])\<rparr>"

definition sample_batch :: "byte list list" where
  "sample_batch = sample_frames 11
     [(0x8003, concat (map (bf_bytes sample_cbor) (StartBatch # batch [[7, 1], [8, 2]])))]"

lemma sample_batch_sent: "node_sends_batch sample_wire sample_cbor [[7, 1], [8, 2]] sample_batch"
  unfolding node_sends_batch_def sample_batch_def
proof (intro exI conjI)
  show "peer_writes sample_wire [(0x8003, concat (map (bf_bytes sample_cbor)
      (StartBatch # batch [[7, 1], [8, 2]])))] (concat (sample_frames 11
        [(0x8003, concat (map (bf_bytes sample_cbor) (StartBatch # batch [[7, 1], [8, 2]])))]))"
    by (rule sample_frames_written)
      (simp add: bf_bytes_def message_to_bytes_def sample_cbor_def batch_def)
qed (simp add: payloads_for_def)

lemma sample_fetch_range: "\<exists>builder. fetch_range sample_deps = Inr builder"
  by (simp add: fetch_range_def sample_deps_def)

theorem fetch_stores_batch_witness:
  "\<exists>cfg conn. fetch_example sample_deps sample_wire sample_cbor sample_dial
      (sample_net [sample_accepts 42, sample_batch]) sample_cfg =
    Some (Ready (Inr ()), cfg, conn) \<and> cf_writer cfg = [[7, 1], [8, 2]] \<and>
    cf_sdb cfg = [([8], [8, 2]), ([7], [7, 1])]"
proof -
  let ?net = "sample_net [sample_accepts 42, sample_batch]"
  obtain builder where "fetch_range sample_deps = Inr builder" using sample_fetch_range by blast
  from fetch_stores_batch[where v = "N2N 7" and net = ?net and cfg = sample_cfg
      and bs = "[[7, 1], [8, 2]]" and dial = sample_dial,
      OF sample_wire_ok sample_cbor_stream sample_cbor_order sample_cbor_progress sample_dialled(1)
      sample_connection_fresh _ _ this]
  obtain conn where "fetch_example sample_deps sample_wire sample_cbor sample_dial
      ?net sample_cfg = Some (Ready (fst (store_all sample_deps [[7, 1], [8, 2]] sample_cfg)),
        snd (store_all sample_deps [[7, 1], [8, 2]] sample_cfg), Some conn)"
    using sample_node_accepts[of 42] sample_batch_sent
    by (auto simp: sample_net_def sample_cfg_def)
  then show ?thesis
    by (simp add: bind_s_def handle_block_def unwrap_s_def sample_deps_def sample_cfg_def)
qed

theorem replay_finds_fetched_witness:
  "\<exists>cfg conn state. fetch_example sample_deps sample_wire sample_cbor sample_dial
      (sample_net [sample_accepts 42, sample_batch]) sample_cfg = Some (Ready (Inr ()), cfg, conn) \<and>
    blockread sample_deps (Inr ()) (Inr (Ready (Inr ()))) (cf_sdb cfg, []) = Some (Ready (Inr 0), state)"
proof -
  let ?net = "sample_net [sample_accepts 42, sample_batch]"
  obtain builder where "fetch_range sample_deps = Inr builder" using sample_fetch_range by blast
  from fetch_stores_run[where v = "N2N 7" and net = ?net and cfg = sample_cfg
      and bs = "[[7, 1], [8, 2]]" and dial = sample_dial,
      OF sample_wire_ok sample_cbor_stream sample_cbor_order sample_cbor_progress sample_dialled(1)
      sample_connection_fresh _ _ this]
  obtain cfg conn where run: "fetch_example sample_deps sample_wire sample_cbor
      sample_dial ?net sample_cfg = Some (Ready (Inr ()), cfg, conn)"
    using sample_node_accepts[of 42] sample_batch_sent
    by (auto simp: sample_net_def sample_cfg_def bind_s_def handle_block_def unwrap_s_def
        sample_deps_def)
  have "\<exists>state. blockread sample_deps (Inr ()) (Inr (Ready (Inr ()))) (cf_sdb cfg, []) =
      Some (Ready (Inr 0), state)"
    by (rule replay_finds_fetched[OF sample_sled_ok _ run])
      (simp_all add: filed_def sample_deps_def sample_cfg_def)
  with run show ?thesis by blast
qed

end
