(* ===== verification/Store_Plays.thy ===== *)
theory Store_Plays
  imports Example_Plays Fetch_Plays Examples_Store
begin

unbundle bit_operations_syntax

text \<open>
  The program of \<open>examples/blockfetch.rs\<close> under every schedule, with the database and the writer
  that it hands the blocks to.
\<close>

section \<open>Fetching blocks\<close>

text \<open>
  The program of \<open>blockfetch.rs\<close>: \<open>FetchStart\<close> calls \<open>run\<close>, \<open>FetchTurn\<close> is a turn of its
  \<open>while let\<close> loop, which takes the next block and hands it to \<open>handle_block\<close>. The results keep the
  configuration, with the database in it, as it is after the turn.
\<close>

datatype fetch_call = FetchStart | FetchTurn

datatype 'c fetch_turn = Started | Handled 'c | StreamEnded 'c

fun returned_block :: "bf_returned \<Rightarrow> byte list option" where
  "returned_block (NextReturned block) = block"
| "returned_block _ = None"

definition fetch_handle :: "('b, 'd, 'w) deps \<Rightarrow> byte list option \<Rightarrow>
    (block_fetch \<times> ('d, 'w) config, error, ('d, 'w) config fetch_turn) op" where
  "fetch_handle dp block state = (case block of
       None \<Rightarrow> (Inr (StreamEnded (snd state)), state)
     | Some data \<Rightarrow> (case handle_block dp data (snd state) of
          (r, cfg) \<Rightarrow> (bind_r r (\<lambda>_. Inr (Handled cfg)), fst state, cfg)))"

fun fetch_calling :: "('b, 'd, 'w) deps \<Rightarrow> wire \<Rightarrow> cbor \<Rightarrow>
    (fetch_call, block_fetch \<times> ('d, 'w) config, ('d, 'w) config fetch_turn) caller" where
  "fetch_calling dp w c FetchStart a =
     bind_t (paired (\<lambda>_. bf_calling w c RunCall) a) (\<lambda>_. sync_t (ret_s Started))"
| "fetch_calling dp w c FetchTurn a =
     bind_t (paired (\<lambda>_. bf_calling w c NextCall) a) (\<lambda>r. sync_t (fetch_handle dp (returned_block r)))"

interpretation fetch_plays: resumable_calls "bf_channel \<circ> fst"
    "\<lambda>ch. map_prod (\<lambda>s. s\<lparr>bf_channel := ch\<rparr>) id" "fetch_calling dp" for dp
proof (unfold_locales)
  fix w :: wire and c :: cbor and q :: fetch_call
  assume progress: "cbor_progress c"
  note paired = bf_plays.resumable_paired[OF bf_plays.resumable_call[OF progress]]
  note bind = channel_lens.resumable_bind[OF bf_plays.channel_lens_paired paired]
  show "resumable w (bf_channel \<circ> fst) (\<lambda>ch. map_prod (\<lambda>s. s\<lparr>bf_channel := ch\<rparr>) id)
      (fetch_calling dp w c q)"
  proof (cases q)
    case FetchStart
    then have "fetch_calling dp w c q =
        (\<lambda>a. bind_t (paired (\<lambda>_. bf_calling w c RunCall) a) (\<lambda>_. sync_t (ret_s Started)))"
      by (simp add: fun_eq_iff del: bf_calling.simps)
    moreover have "resumable w (bf_channel \<circ> fst) (\<lambda>ch. map_prod (\<lambda>s. s\<lparr>bf_channel := ch\<rparr>) id) \<dots>"
      by (rule bind) (simp add: ret_s_def)
    ultimately show ?thesis by simp
  next
    case FetchTurn
    then have "fetch_calling dp w c q = (\<lambda>a. bind_t (paired (\<lambda>_. bf_calling w c NextCall) a)
        (\<lambda>r. sync_t (fetch_handle dp (returned_block r))))"
      by (simp add: fun_eq_iff del: bf_calling.simps)
    moreover have "resumable w (bf_channel \<circ> fst) (\<lambda>ch. map_prod (\<lambda>s. s\<lparr>bf_channel := ch\<rparr>) id) \<dots>"
      by (rule bind) (auto simp: fetch_handle_def split: option.split prod.split)
    ultimately show ?thesis by simp
  qed
qed (auto simp: bf_plays.lens)

text \<open>The results of a program that stores the blocks \<open>bs\<close>.\<close>

fun fetch_turns :: "('b, 'd, 'w) deps \<Rightarrow> byte list list \<Rightarrow> ('d, 'w) config \<Rightarrow>
    ('d, 'w) config fetch_turn list" where
  "fetch_turns dp [] cfg = [StreamEnded cfg]"
| "fetch_turns dp (b # bs) cfg = (let cfg' = snd (handle_block dp b cfg)
     in Handled cfg' # fetch_turns dp bs cfg')"

lemma fetch_turn:
  "bf_run w c s = Some (Ready (Inr ()), u) \<Longrightarrow>
    fetch_calling dp w c FetchStart None (s, cfg) = Some (Ready (Inr Started), u, cfg)"
  "bf_next w c s = Some (Ready (Inr None), u) \<Longrightarrow>
    fetch_calling dp w c FetchTurn None (s, cfg) = Some (Ready (Inr (StreamEnded cfg)), u, cfg)"
  "bf_next w c s = Some (Ready (Inr (Some b)), u) \<Longrightarrow> handle_block dp b cfg = (Inr (), cfg') \<Longrightarrow>
    fetch_calling dp w c FetchTurn None (s, cfg) = Some (Ready (Inr (Handled cfg')), u, cfg')"
  by (simp_all add: bind_t_def sync_t_def ret_s_def paired_def fetch_handle_def bind_r_def)

lemma hands_out_turns:
  assumes "hands_out w c s bs u" and "fst (store_all dp bs cfg) = Inr ()"
  shows "run_calls (fetch_calling dp w c) (replicate (Suc (length bs)) FetchTurn) None got (s, cfg) =
    Some (Ends (got @ fetch_turns dp bs cfg), u, snd (store_all dp bs cfg))"
  using assms
proof (induction arbitrary: got cfg rule: hands_out.induct)
  case (stream_over s u)
  then show ?case by (simp add: fetch_turn(2) del: fetch_calling.simps)
next
  case (next_block s b t bs u)
  from next_block.prems obtain cfg' where cfg': "handle_block dp b cfg = (Inr (), cfg')"
    by (cases "handle_block dp b cfg"; cases "fst (handle_block dp b cfg)") (auto simp: bind_s_def)
  with next_block.prems next_block.IH[of cfg' "got @ [Handled cfg']"] show ?case
    by (simp add: fetch_turn(3)[OF next_block.hyps(1) cfg'] bind_s_def Let_def del: fetch_calling.simps)
qed

lemma fetch_turns_last:
  "fst (store_all dp bs cfg) = Inr () \<Longrightarrow>
    last (fetch_turns dp bs cfg) = StreamEnded (snd (store_all dp bs cfg))"
proof (induction bs arbitrary: cfg)
  case (Cons b bs)
  from Cons.prems obtain cfg' where "handle_block dp b cfg = (Inr (), cfg')"
    by (cases "handle_block dp b cfg"; cases "fst (handle_block dp b cfg)") (auto simp: bind_s_def)
  moreover have "fetch_turns dp bs cfg' \<noteq> []" by (cases bs) (simp_all add: Let_def)
  ultimately show ?case using Cons by (simp add: bind_s_def Let_def)
qed simp

definition fetch_reads :: "bf_reply \<Rightarrow> fetch_call list" where
  "fetch_reads reply = FetchStart # replicate (Suc (length (reply_blocks reply))) FetchTurn"

lemma fetch_play_follows:
  fixes dp :: "('b, 'd, 'w) deps"
  assumes "wire_ok w" "cbor_stream c" "cbor_progress c" and "bf_calm s"
    and "roomy (ch_conn (bf_channel s))" and "length (bf_bytes c (bf_request s)) < 65536"
    and "carries_reply c reply ps" and "fst (store_all dp (reply_blocks reply) cfg) = Inr ()"
  shows "fetch_plays.follows TYPE('b) dp w c 0x0003 0x8003 clock (fetch_reads reply) [] (s, cfg)
    (Expect (bf_bytes c (bf_request s)) # map Say ps) (Started # fetch_turns dp (reply_blocks reply) cfg)"
proof -
  let ?ch = "hear w [said w 0x8003 clock (map Say ps)] (bf_channel s)"
  let ?asked = "frame w (cn_clock (ch_conn (bf_channel s)) 0) 0x0003 (bf_bytes c (bf_request s))"
  let ?goal = "Started # fetch_turns dp (reply_blocks reply) cfg"
  obtain t v u where t: "bf_run w c s = Some (Pending [], t)"
      "cn_sent (ch_conn (bf_channel t)) = cn_sent (ch_conn (bf_channel s)) @ ?asked"
    and v: "bf_run w c (s\<lparr>bf_channel := ?ch\<rparr>) = Some (Ready (Inr ()), v)"
      "hands_out w c v (reply_blocks reply) u"
    and u: "bf_calm u" "cn_sent (ch_conn (bf_channel u)) = cn_sent (ch_conn (bf_channel s)) @ ?asked"
    by (rule bf_round_heard[OF assms(1,2,4-7)])
  have "fetch_plays.follows TYPE('b) dp w c 0x0003 0x8003 clock (fetch_reads reply @ []) [] (s, cfg)
      (Expect (bf_bytes c (bf_request s)) # map Say ps @ []) ?goal"
  proof (rule fetch_plays.follows_round[OF assms(3) _ assms(6)])
    show "fetch_plays.open_stream (s, cfg)"
      using assms(4) by (simp add: fetch_plays.open_stream_def bf_calm_def tuned_def)
    show "run_calls (fetch_calling dp w c) (fetch_reads reply) None [] (s, cfg) =
        Some (Waits (fetch_reads reply) [] [], t, cfg)"
      using t(1) by (simp add: fetch_reads_def bind_t_def paired_def)
    show "caught_up w (said w 0x8003 clock (map Say ps)) ((bf_channel \<circ> fst) (s, cfg)) ?ch"
      by (simp add: caught_up_hear)
    show "run_calls (fetch_calling dp w c) (fetch_reads reply) None []
        (map_prod (\<lambda>s. s\<lparr>bf_channel := ?ch\<rparr>) id (s, cfg)) =
          Some (Ends ?goal, u, snd (store_all dp (reply_blocks reply) cfg))"
      using hands_out_turns[OF v(2) assms(8), of "[Started]"]
      by (simp add: fetch_reads_def fetch_turn(1)[OF v(1)] del: fetch_calling.simps)
    show "fetch_plays.follows TYPE('b) dp w c 0x0003 0x8003 (\<lambda>k. clock (k + length ps)) [] ?goal
        (u, snd (store_all dp (reply_blocks reply) cfg)) [] ?goal"
      using u(1) by (intro fetch_plays.follows_done)
        (simp add: fetch_plays.open_stream_def bf_calm_def tuned_def)
  qed (use t(2) u(2) in \<open>simp_all add: fetch_plays.written_def fetch_reads_def\<close>)
  then show ?thesis by simp
qed

definition fetch_starts :: "bf_builder \<Rightarrow> ('d, 'w) config \<Rightarrow> connection \<Rightarrow>
    (error, block_fetch \<times> ('d, 'w) config) result" where
  "fetch_starts builder cfg conn = bind_r (fst (bf_client builder conn)) (\<lambda>client. Inr (client, cfg))"

text \<open>
  C1. The program of \<open>blockfetch.rs\<close> under any schedule: it shakes hands, asks for its range of
  blocks, and hands every block of the reply to the database and the writer; the node accepts a
  version and sends the reply in payloads cut in any way. However the two are scheduled, the node
  meets the proposal and then the request for exactly the program's range; no call fails; a program
  that is through has stored the blocks of the reply, each once and in order, so that the database
  ends as if they had been stored with no network between; and every schedule can be completed.
  This is for a socket that takes every frame whole, and a database and a writer that accept all
  blocks of the reply.
\<close>

theorem fetch_program_any_schedule:
  fixes dp :: "('b, 'd, 'w) deps"
  assumes "wire_ok w" "cbor_stream c" "cbor_order c" "cbor_progress c"
    and "tcp_connect dial (cf_host cfg) = Inr conn" "roomy conn" and "v = N2N 6 \<or> v = N2N 7"
    and "length (hs_bytes c (hb_proposal (to_node (cf_magic cfg)))) < 65536"
    and "length (hs_bytes c (AcceptVersion v (cf_magic cfg))) < 65536"
    and "fetch_range dp = Inr builder" "bb_first builder = Some a" "bb_last builder = Some b"
    and "length (bf_bytes c (RequestRange a b)) < 65536" and "carries_reply c reply ps"
    and "fst (store_all dp (reply_blocks reply) cfg) = Inr ()"
  shows "\<exists>s. hs_client (to_node (cf_magic cfg)) conn = Inr s \<and>
    session_passes w c (fetch_calling dp w c) (bf_channel \<circ> fst)
      (\<lambda>ch. map_prod (\<lambda>s. s\<lparr>bf_channel := ch\<rparr>) id) (fetch_starts builder cfg) (fetch_reads reply)
      (session_opened s (accepts_first c v (cf_magic cfg) 0x0003 0x8003
        (Expect (bf_bytes c (RequestRange a b)) # map Say ps)) clock)
      (Started # fetch_turns dp (reply_blocks reply) cfg) \<and>
    last (fetch_turns dp (reply_blocks reply) cfg) = StreamEnded (snd (store_all dp (reply_blocks reply) cfg))"
proof -
  obtain s where s: "hs_client (to_node (cf_magic cfg)) conn = Inr s"
    "shakes_hands w c (hs_bytes c (hb_proposal (to_node (cf_magic cfg))))
      (hs_bytes c (AcceptVersion v (cf_magic cfg))) s"
    by (rule to_node_shakes_hands[OF assms(1-3,5-9)])
  have "\<exists>client. fetch_starts builder cfg near = Inr client \<and> (\<forall>clock. fetch_plays.follows TYPE('b) dp w c
      0x0003 0x8003 clock (fetch_reads reply) [] client
      (Expect (bf_bytes c (RequestRange a b)) # map Say ps)
      (Started # fetch_turns dp (reply_blocks reply) cfg))"
    if "fresh near" "roomy near" for near
  proof -
    obtain client where client: "fetch_starts builder cfg near = Inr (client, cfg)"
      "bf_state client = BfIdle" "bf_result client = []" "\<not> bf_done client"
      "bf_channel client = connection_channel 0x0003 near" "bf_request client = RequestRange a b"
      by (simp add: fetch_starts_def bf_client_def assms(11,12) bf_request_def bind_r_def Let_def)
    then have calm: "bf_calm client" "roomy (ch_conn (bf_channel client))"
      using tuned_open[OF that(1)] peer_opened(1)[OF that] by (simp_all add: bf_calm_def)
    from fetch_play_follows[OF assms(1,2,4) calm _ assms(14,15)] client(1,6) assms(13) show ?thesis
      by simp
  qed
  from fetch_plays.program_passes[OF assms(4,1) s(2) this] s(1) fetch_turns_last[OF assms(15)] show ?thesis
    by (auto simp: accepts_first_def)
qed

text \<open>A program whose database keeps the blocks one after the other.\<close>

definition sample_keeps :: "(unit, byte list list, unit) deps" where
  "sample_keeps = \<lparr>dp_decode_fragment = (\<lambda>data. Inr (0, ())), dp_hash_block_header = (\<lambda>block. []),
     dp_open_tree = (\<lambda>name db. (Inr (), db)), dp_insert = (\<lambda>name key data db. (Inr (), db @ [data])),
     dp_records = (\<lambda>name db. []), dp_crawl = (\<lambda>block writer. (Inr (), writer)),
     dp_hex_decode = (\<lambda>digits. Some [word_of_nat (length digits)])\<rparr>"

definition sample_kept :: "byte list list \<Rightarrow> (byte list list, unit) config" where
  "sample_kept blocks = \<lparr>cf_sdb = blocks, cf_host = ''node'', cf_magic = 42, cf_writer = (),
     cf_byron_mainnet = point_of_bytes (1, [1]), cf_byron_testnet = point_of_bytes (2, [2]),
     cf_byron_guild = point_of_bytes (3, [3])\<rparr>"

lemma sample_keeps_block:
  "handle_block sample_keeps b (sample_kept blocks) = (Inr (), sample_kept (blocks @ [b]))"
  by (simp add: handle_block_def sample_keeps_def sample_kept_def unwrap_s_def)

text \<open>A node with two blocks, the first of which comes in one payload with the start of the batch.\<close>

theorem fetch_program_any_schedule_witness:
  "\<exists>s builder. hs_client (to_node 42) sample_connection = Inr s \<and>
    fetch_range sample_keeps = Inr builder \<and>
    session_passes sample_wire sample_cbor (fetch_calling sample_keeps sample_wire sample_cbor)
      (bf_channel \<circ> fst) (\<lambda>ch. map_prod (\<lambda>s. s\<lparr>bf_channel := ch\<rparr>) id)
      (fetch_starts builder (sample_kept [])) [FetchStart, FetchTurn, FetchTurn, FetchTurn]
      (session_opened s
        [Expect (0, hs_bytes sample_cbor (hb_proposal (to_node 42))),
         Say (0x8000, hs_bytes sample_cbor (AcceptVersion (N2N 7) 42)),
         Expect (0x0003, bf_bytes sample_cbor (RequestRange
           (point_of_bytes (26249860, [64])) (point_of_bytes (26250057, [64])))),
         Say (0x8003, bf_bytes sample_cbor StartBatch @ bf_bytes sample_cbor (Block [1])),
         Say (0x8003, bf_bytes sample_cbor (Block [2])), Say (0x8003, bf_bytes sample_cbor BatchDone)] id)
      [Started, Handled (sample_kept [[1]]), Handled (sample_kept [[1], [2]]),
        StreamEnded (sample_kept [[1], [2]])]"
proof -
  let ?bytes = "bf_bytes sample_cbor"
  let ?ps = "[?bytes StartBatch @ ?bytes (Block [1]), ?bytes (Block [2]), ?bytes BatchDone]"
  let ?a = "point_of_bytes (26249860, [64])" and ?b = "point_of_bytes (26250057, [64])"
  let ?builder = "bf_last 26250057 [64] (bf_first 26249860 [64] bf_builder_new)"
  have range: "fetch_range sample_keeps = Inr ?builder"
      "bb_first ?builder = Some ?a" "bb_last ?builder = Some ?b"
    by (simp_all add: fetch_range_def sample_keeps_def bf_first_def bf_last_def bf_builder_new_def)
  have request: "length (?bytes (RequestRange ?a ?b)) < 65536"
    by (simp add: point_of_bytes_def bf_bytes_def message_to_bytes_def sample_cbor_def)
  have reply: "carries_reply sample_cbor (HasBlocks [[1], [2]]) ?ps"
    by (simp add: carries_reply_def batch_def) (simp add: bf_bytes_def message_to_bytes_def sample_cbor_def)
  have stored: "fst (store_all sample_keeps (reply_blocks (HasBlocks [[1], [2]])) (sample_kept [])) = Inr ()"
    by (simp add: sample_keeps_block bind_s_def)
  have magic: "cf_magic (sample_kept []) = 42" by (simp add: sample_kept_def)
  from fetch_program_any_schedule[where cfg = "sample_kept []" and v = "N2N 7" and clock = id,
      OF sample_program_laws _ _ _ range request reply stored]
  obtain s where "hs_client (to_node 42) sample_connection = Inr s"
    "session_passes sample_wire sample_cbor (fetch_calling sample_keeps sample_wire sample_cbor)
      (bf_channel \<circ> fst) (\<lambda>ch. map_prod (\<lambda>s. s\<lparr>bf_channel := ch\<rparr>) id)
      (fetch_starts ?builder (sample_kept [])) (fetch_reads (HasBlocks [[1], [2]]))
      (session_opened s (accepts_first sample_cbor (N2N 7) 42 0x0003 0x8003
        (Expect (?bytes (RequestRange ?a ?b)) # map Say ?ps)) id)
      (Started # fetch_turns sample_keeps (reply_blocks (HasBlocks [[1], [2]])) (sample_kept []))"
    by (auto simp: magic sample_program)
  with range(1) show ?thesis
    by (auto simp: accepts_first_def fetch_reads_def sample_keeps_block Let_def)
qed

end
