(* ===== verification/Examples_Serve.thy ===== *)
theory Examples_Serve
  imports Examples_Facts
begin

unbundle bit_operations_syntax

text \<open>
  The programs that only shake hands: the server, which handles one client after the other,
  the measurement of a connection and the local node; and the configuration of all programs.
\<close>

section \<open>Serving\<close>

text \<open>A client that sends a readable message on the handshake's channel.\<close>

fun client_opens :: "wire \<Rightarrow> cbor \<Rightarrow> client \<Rightarrow> bool" where
  "client_opens w c (now, stream, chunks) \<longleftrightarrow> stream_works stream \<and>
     (\<exists>fs m. peer_writes w fs (concat chunks) \<and> hs_wf m \<and>
       concat (payloads_for 0x8000 fs) = hs_bytes c m)"

text \<open>The connection after the server's answer.\<close>

fun answered :: "wire \<Rightarrow> cbor \<Rightarrow> u32 \<Rightarrow> client \<Rightarrow> connection \<Rightarrow> bool" where
  "answered w c magic (now, stream, chunks) conn' \<longleftrightarrow> fresh conn' \<and> cn_sent conn' =
     cn_sent (after_send w 0x8000 (hs_bytes c (AcceptVersion (N2N 7) magic))
       (from_tcp_stream now stream))"

lemma handle_client_answers:
  assumes "wire_ok w" "cbor_stream c" "cbor_order c" and "client_opens w c client"
  shows "\<exists>conn'. handle_client w c cfg client = Some (Ready (Inr ()), conn') \<and>
    answered w c (cf_magic cfg) client conn'"
proof (cases client)
  case (fields now stream chunks)
  with assms(4) obtain fs m where fs: "stream_works stream" "peer_writes w fs (concat chunks)"
      "hs_wf m" "concat (payloads_for 0x8000 fs) = hs_bytes c m"
    by auto
  from hs_server_wire[OF assms(1-3) from_tcp_stream_fresh[OF fs(1), of now]
      to_node_configured[of "cf_magic cfg"] fs(2-4)]
  show ?thesis by (auto simp: fields shake_hands_def hs_build_def hb_acceptance_def)
qed

lemma serve_loop_answers:
  assumes "wire_ok w" "cbor_stream c" "cbor_order c"
    and "\<forall>client \<in> set clients. client_opens w c client"
  shows "\<exists>conns. serve_loop w c cfg (map Inr clients @ others) handled =
      serve_loop w c cfg others (handled @ conns) \<and>
    list_all2 (answered w c (cf_magic cfg)) clients conns"
  using assms(4)
proof (induction clients arbitrary: handled)
  case Nil
  then show ?case by simp
next
  case (Cons client clients)
  from Cons.prems handle_client_answers[OF assms(1-3), of client cfg] obtain conn' where
    conn': "handle_client w c cfg client = Some (Ready (Inr ()), conn')"
      "answered w c (cf_magic cfg) client conn'" by auto
  from Cons.IH[of "handled @ [conn']"] Cons.prems obtain conns where
    "serve_loop w c cfg (map Inr clients @ others) (handled @ [conn']) =
      serve_loop w c cfg others (handled @ [conn'] @ conns)"
    "list_all2 (answered w c (cf_magic cfg)) clients conns" by auto
  with conn' show ?case by (intro exI[of _ "conn' # conns"]) simp
qed

text \<open>
  C23. The server of \<open>server.rs\<close> answers every client that opens with a readable message, one after
  the other in the order in which they connect: each gets one acceptance, of version 7 and the
  server's magic number, and the server then waits for the next client.
\<close>

theorem serve_answers_clients:
  assumes "wire_ok w" "cbor_stream c" "cbor_order c"
    and "\<forall>client \<in> set clients. client_opens w c client"
  shows "\<exists>conns. serve w c cfg (Inr ()) (map Inr clients) = Some (Pending [], conns) \<and>
    list_all2 (answered w c (cf_magic cfg)) clients conns"
  using serve_loop_answers[OF assms, of cfg "[]" "[]"] by (simp add: serve_def)

definition sample_stream :: socket where
  "sample_stream = \<lparr>sk_clock = (\<lambda>_. 0), sk_writes = (\<lambda>_. Accepts 65535)\<rparr>"

lemma sample_stream_works: "stream_works sample_stream"
  by (simp add: stream_works_def sample_stream_def)

definition sample_client :: client where
  "sample_client = (0, sample_stream, sample_frames 7
     [(0x0000, hs_bytes sample_cbor (ProposeVersions [(N2N 7, 42)]))])"

lemma sample_client_opens: "client_opens sample_wire sample_cbor sample_client"
proof -
  let ?fs = "[(0x0000, hs_bytes sample_cbor (ProposeVersions [(N2N 7, 42)]))]"
  have "peer_writes sample_wire ?fs (concat (sample_frames 7 ?fs))"
    by (rule sample_frames_written)
      (simp add: hs_bytes_def message_to_bytes_def sample_cbor_def)
  moreover have "hs_wf (ProposeVersions [(N2N 7, 42)])" by simp
  moreover have "concat (payloads_for 0x8000 ?fs) =
      hs_bytes sample_cbor (ProposeVersions [(N2N 7, 42)])"
    by (simp add: payloads_for_def)
  ultimately show ?thesis
    using sample_stream_works unfolding sample_client_def client_opens.simps by blast
qed

theorem serve_answers_clients_witness:
  "\<exists>conns. serve sample_wire sample_cbor sample_config (Inr ())
      [Inr sample_client, Inr sample_client] = Some (Pending [], conns) \<and> length conns = 2"
  using serve_answers_clients[OF sample_wire_ok sample_cbor_stream sample_cbor_order,
      of "[sample_client, sample_client]" sample_config] sample_client_opens
  by (auto dest: list_all2_lengthD)

lemma silent_writes: "peer_writes w [] []"
  unfolding peer_writes_def by (intro exI[of _ sample_connection]) (simp add: send_all_def)

lemma handle_client_silent:
  assumes "wire_ok w" and "stream_works stream"
  shows "\<exists>conn'. handle_client w c cfg (now, stream, []) = Some (Pending [], conn')"
proof -
  let ?conn = "from_tcp_stream now stream"
  obtain s where s: "s = hs_hear w [] (hs_with_channel (to_node (cf_magic cfg)) Server
      (connection_channel 0x8000 ?conn))" by blast
  have silent: "peer_writes w [] (concat [])" by (simp add: silent_writes)
  obtain ps where ps: "hs_ready Server ps s" "concat ps = concat (payloads_for 0x8000 [])"
    by (rule hs_open_hears[OF assms(1) from_tcp_stream_fresh[OF assms(2)] silent s])
  then have "negotiate w c s = Some (Pending [], s\<lparr>hs_channel := feed [] [] (hs_channel s)\<rparr>)"
    using hs.execute_idles[where s = s and ps = ps and ch = "hs_channel s" and c = c and ca = c
        and w = w] hs_ready_feed[OF ps(1)]
    by (simp add: negotiate_def bind_t_def hs_agency_def hs_ready_def payloads_for_def)
  then show ?thesis by (simp add: shake_hands_def hs_build_def flip: s)
qed

text \<open>
  C25. A client that connects and stays silent stops the server: whoever connects after it is
  never accepted, however many they are and whatever they send.
\<close>

theorem serve_stuck_on_silent:
  assumes "wire_ok w" "cbor_stream c" "cbor_order c"
    and "\<forall>client \<in> set clients. client_opens w c client" and "stream_works stream"
  shows "\<exists>conns. serve w c cfg (Inr ()) (map Inr clients @ Inr (now, stream, []) # others) =
      Some (Pending [], conns) \<and> length conns = Suc (length clients)"
proof -
  obtain conns where "serve_loop w c cfg (map Inr clients @ Inr (now, stream, []) # others) [] =
      serve_loop w c cfg (Inr (now, stream, []) # others) conns"
    "list_all2 (answered w c (cf_magic cfg)) clients conns"
    using serve_loop_answers[OF assms(1-4), of cfg "Inr (now, stream, []) # others" "[]"] by auto
  moreover obtain conn' where "handle_client w c cfg (now, stream, []) = Some (Pending [], conn')"
    using handle_client_silent[OF assms(1,5)] by blast
  ultimately show ?thesis by (simp add: serve_def list_all2_lengthD)
qed

theorem serve_stuck_on_silent_witness:
  "\<exists>conns. serve sample_wire sample_cbor sample_config (Inr ())
      [Inr sample_client, Inr (3, sample_stream, []), Inr sample_client] =
    Some (Pending [], conns) \<and> length conns = 2"
  using serve_stuck_on_silent[OF sample_wire_ok sample_cbor_stream sample_cbor_order _
      sample_stream_works, of "[sample_client]" sample_config 3 "[Inr sample_client]"]
    sample_client_opens
  by (simp add: numeral_2_eq_2)

lemma handle_client_garbage:
  assumes "wire_ok w" and "stream_works stream" and "peer_writes w fs (concat chunks)"
    and "payloads_for 0x8000 fs = [p]" and "next_item c p = ItemBad" "p \<noteq> []"
  shows "\<exists>conn'. handle_client w c cfg (now, stream, chunks) =
    Some (Ready (Inl (Panic ExplicitPanic)), conn')"
proof -
  let ?open = "connection_channel 0x8000 (from_tcp_stream now stream)"
  have fresh: "fresh (from_tcp_stream now stream)" by (rule from_tcp_stream_fresh[OF assms(2)])
  obtain s where s: "s = hs_hear w chunks (hs_with_channel (to_node (cf_magic cfg)) Server ?open)"
    by blast
  have conn: "ch_conn (hs_channel s) = arrivals w chunks (ch_conn ?open)"
    by (simp add: s hs_hear_def hs_with_channel_def hear_def)
  have "cn_channels (ch_conn ?open) 0x8000 = Some []"
      "cn_demux (ch_conn ?open) = Some (1, AtHeader [])" "cn_input (ch_conn ?open) = []"
      "\<not> cn_eof (ch_conn ?open)"
    using fresh by (simp_all add: fresh_def connection_channel_def run_demux_def register_def)
  with arrivals_delivered[where k = "0x8000", OF assms(1,3) this(2-4)]
  have queue: "cn_channels (ch_conn (hs_channel s)) 0x8000 = Some [p]"
    by (simp add: conn assms(4))
  obtain ps where ps: "hs_ready Server ps s" by (rule hs_open_hears[OF assms(1) fresh assms(3) s])
  moreover have "ch_idx (hs_channel s) = 0x8000"
    by (simp add: s hs_hear_def hs_with_channel_def hear_def connection_channel_def)
  ultimately have ready: "hs_ready Server [p] s" using queue by (simp add: hs_ready_def)
  have "execute w c (hs_protocol c) (s\<lparr>hs_channel := feed [] [p] (hs_channel s)\<rparr>) =
      Some (Ready (Inl (Panic ExplicitPanic)), s\<lparr>hs_channel := feed [] [] (hs_channel s)\<rparr>)"
    using hs.execute_garbage[where s = s and ch = "hs_channel s" and p = p and ps = "[]" and ca = c
        and c = c and w = w] ready assms(5,6) by (simp add: hs_ready_def hs_agency_def)
  then have "negotiate w c s =
      Some (Ready (Inl (Panic ExplicitPanic)), s\<lparr>hs_channel := feed [] [] (hs_channel s)\<rparr>)"
    by (simp add: hs_ready_feed[OF ready] negotiate_def bind_t_def)
  then show ?thesis by (simp add: shake_hands_def hs_build_def flip: s)
qed

text \<open>
  C24. One client that sends bytes that are no CBOR takes the server down: its panic ends the
  loop, and whoever connects after it is never accepted.
\<close>

theorem serve_killed_by_garbage:
  assumes "wire_ok w" "cbor_stream c" "cbor_order c"
    and "\<forall>client \<in> set clients. client_opens w c client"
    and "stream_works stream" "peer_writes w fs (concat chunks)" "payloads_for 0x8000 fs = [p]"
    and "next_item c p = ItemBad" "p \<noteq> []"
  shows "\<exists>conns. serve w c cfg (Inr ()) (map Inr clients @ Inr (now, stream, chunks) # others) =
      Some (Ready (Inl (Panic ExplicitPanic)), conns) \<and> length conns = Suc (length clients)"
proof -
  obtain conns where "serve_loop w c cfg (map Inr clients @ Inr (now, stream, chunks) # others) [] =
      serve_loop w c cfg (Inr (now, stream, chunks) # others) conns"
    "list_all2 (answered w c (cf_magic cfg)) clients conns"
    using serve_loop_answers[OF assms(1-4), of cfg "Inr (now, stream, chunks) # others" "[]"] by auto
  moreover obtain conn' where
    "handle_client w c cfg (now, stream, chunks) = Some (Ready (Inl (Panic ExplicitPanic)), conn')"
    using handle_client_garbage[OF assms(1,5-9)] by blast
  ultimately show ?thesis by (simp add: serve_def list_all2_lengthD)
qed

theorem serve_killed_by_garbage_witness:
  "\<exists>conns. serve sample_wire sample_cbor sample_config (Inr ())
      [Inr sample_client, Inr (3, sample_stream, sample_frames 3 [(0x0000, [255])]),
       Inr sample_client] = Some (Ready (Inl (Panic ExplicitPanic)), conns) \<and> length conns = 2"
proof -
  have "peer_writes sample_wire [(0x0000, [255])] (concat (sample_frames 3 [(0x0000, [255])]))"
    by (rule sample_frames_written) simp
  moreover have "next_item sample_cbor [255] = ItemBad"
    by (simp add: sample_cbor_def sample_next_def numeral_3_eq_3)
  ultimately show ?thesis
    using serve_killed_by_garbage[OF sample_wire_ok sample_cbor_stream sample_cbor_order _
      sample_stream_works, of "[sample_client]" "[(0x0000, [255])]"
        "sample_frames 3 [(0x0000, [255])]" "[255]" sample_config 3 "[Inr sample_client]"]
      sample_client_opens
    by (simp add: payloads_for_def numeral_2_eq_2)
qed

section \<open>Measuring a connection\<close>

text \<open>
  The line logged on a host: both durations in milliseconds when the node accepts a version and
  the magic number of the program, a failure when it cannot be reached or accepts a version
  that was not proposed. But a node of another network gets no line: its answer panics.
\<close>

theorem ping_host_outcome:
  assumes "wire_ok w" "cbor_stream c" "cbor_order c"
    and "\<And>conn. tcp_connect dial host = Inr conn \<Longrightarrow> fresh conn \<and> node_accepts w c v magic chunks"
  shows "ping_host w c dial chunks connected_at done_at cfg host log =
    Some (case tcp_connect dial host of
      Inl e \<Rightarrow> (Ready (Inr ()), log @ [PingFailed host (ErrText ''Could not connect.'')])
    | Inr conn \<Rightarrow>
        if magic \<noteq> cf_magic cfg then (Ready (Inl (Panic AssertPanic)), log)
        else if v = N2N 6 \<or> v = N2N 7 then (Ready (Inr ()), log @ [PingSuccess host
          ((connected_at - cn_start_time conn) div 1000) ((done_at - cn_start_time conn) div 1000)])
        else (Ready (Inr ()), log @ [PingFailed host (ErrText ''Handshake failed.'')]))"
proof (cases "tcp_connect dial host")
  case (Inl e)
  then show ?thesis by (simp add: ping_host_def ping_def)
next
  case (Inr conn)
  with assms(4) have "fresh conn" "node_accepts w c v magic chunks" by auto
  from shake_hands_client[OF assms(1-3) this(1) to_node_configured[of "cf_magic cfg"] this(2)]
  obtain conn' where "shake_hands w c (to_node (cf_magic cfg)) Client chunks conn =
      Some (Ready (hb_verdict (to_node (cf_magic cfg)) v magic), conn')"
    "cn_start_time conn' = cn_start_time conn" by blast
  then show ?thesis
    by (simp add: ping_host_def ping_def Inr hb_verdict_def duration_def)
qed

theorem ping_host_outcome_witness:
  "ping_host sample_wire sample_cbor sample_dial (sample_accepts 42) 2500 7000
      sample_config ''a'' [] = Some (Ready (Inr ()), [PingSuccess ''a'' 2 7]) \<and>
   ping_host sample_wire sample_cbor sample_dial (sample_accepts 1) 2500 7000
      sample_config ''b'' [] = Some (Ready (Inl (Panic AssertPanic)), [])"
proof -
  note ping = ping_host_outcome[OF sample_wire_ok sample_cbor_stream sample_cbor_order,
      where dial = sample_dial and v = "N2N 7" and cfg = sample_config]
  show ?thesis
    using ping[where magic = 42 and chunks = "sample_accepts 42"]
      ping[where magic = 1 and chunks = "sample_accepts 1"]
      sample_node_accepts sample_connection_fresh
    by (simp add: sample_config_def sample_connection_def connection_new_def)
qed

section \<open>The local node\<close>

text \<open>
  The program of \<open>local.rs\<close> connects to the path of its command line, or to \<open>test.sock\<close> when
  it has none, proposes version 9 of the node-to-client protocol alone, and succeeds exactly when
  the node accepts that version and its magic number.
\<close>

theorem local_negotiates:
  assumes "wire_ok w" "cbor_stream c" "cbor_order c"
    and "unix_connect dial (case argv of program # path # _ \<Rightarrow> path | _ \<Rightarrow> ''test.sock'') = Inr conn"
    and "fresh conn" "node_accepts w c v magic' chunks"
  shows "\<exists>conn'. local_example w c dial chunks argv magic =
      Some (Ready (if magic' \<noteq> magic then Inl (Panic AssertPanic) else if v = C2N 9 then Inr ()
        else Inl (Error (ErrText ''Handshake failed.''))), Some conn') \<and>
    cn_sent conn' =
      cn_sent (after_send w 0 (hs_bytes c (ProposeVersions [(C2N 9, magic)])) conn)"
proof -
  let ?b = "network_magic magic (client_to_node hs_builder)"
  have "hs_configured ?b" by (intro hs_configured.intros)
  from shake_hands_client[OF assms(1-3,5) this assms(6)] obtain conn' where
    "shake_hands w c ?b Client chunks conn = Some (Ready (hb_verdict ?b v magic'), conn')"
    "cn_sent conn' = cn_sent (after_send w 0 (hs_bytes c (hb_proposal ?b)) conn)"
    by blast
  moreover have "unix_connect dial (socket_path argv) = Inr conn"
    using assms(4) by (auto split: list.splits)
  ultimately show ?thesis
    by (auto simp: local_example_def hb_verdict_def hb_proposal_def network_magic_def
        client_to_node_def)
qed

theorem local_negotiates_witness:
  "\<exists>conn'. local_example sample_wire sample_cbor sample_dial (sample_accepts 42)
    [''local''] 42 = Some (Ready (Inl (Error (ErrText ''Handshake failed.''))), Some conn')"
  using local_negotiates[OF sample_wire_ok sample_cbor_stream sample_cbor_order _
      sample_connection_fresh sample_node_accepts[of 42], of sample_dial "[''local'']" 42]
  by auto

section \<open>Configuration\<close>

text \<open>What \<open>hex\<close> documents: an even number of digits decodes to half as many bytes.\<close>

definition hex_ok :: "(string \<Rightarrow> byte list option) \<Rightarrow> bool" where
  "hex_ok decode \<longleftrightarrow> (\<forall>text. even (length text) \<longrightarrow> set text \<subseteq> set ''0123456789abcdefABCDEF'' \<longrightarrow>
     (\<exists>bytes. decode text = Some bytes \<and> length bytes = length text div 2))"

lemma hex_okD:
  assumes "hex_ok decode" and "even (length text)" "set text \<subseteq> set ''0123456789abcdefABCDEF''"
  obtains bytes where "decode text = Some bytes" "length bytes = length text div 2"
  using assms unfolding hex_ok_def by blast

text \<open>
  The configuration of the programs never fails on the points it names, and the hashes of
  these are 32 bytes long; nor does the range of blocks to fetch. A database or a writer that
  cannot be opened ends the program with a panic.
\<close>

theorem config_new_points:
  assumes "hex_ok (dp_hex_decode dp)"
  shows "\<exists>cfg builder. config_new dp (Inr db) (oura_init (Inr ()) (Inr sink) writer) = Inr cfg \<and>
    cf_sdb cfg = db \<and> cf_writer cfg = writer \<and>
    map pt_slot (known_points cfg) = [4492799, 1598399, 719] \<and>
    list_all (\<lambda>p. length (pt_hash p) = 32) (known_points cfg) \<and> cf_magic cfg = 764824073 \<and>
    fetch_range dp = Inr builder \<and> config_new dp (Inl (Error e)) r = Inl (Panic UnwrapPanic)"
proof -
  have dec: "\<exists>bytes. dp_hex_decode dp digits = Some bytes \<and> length bytes = 32"
    if "length digits = 64" "set digits \<subseteq> set ''0123456789abcdefABCDEF''" for digits
    using hex_okD[OF assms, of digits] that by fastforce
  obtain b1 where b1: "dp_hex_decode dp
      ''f8084c61b6a238acec985b59310b6ecec49c0ab8352249afd7268da5cff2a457'' = Some b1" "length b1 = 32"
    using dec[of "''f8084c61b6a238acec985b59310b6ecec49c0ab8352249afd7268da5cff2a457''"] by auto
  obtain b2 where b2: "dp_hex_decode dp
      ''7e16781b40ebf8b6da18f7b5e8ade855d6738095ef2f1c58c77e88b6e45997a4'' = Some b2" "length b2 = 32"
    using dec[of "''7e16781b40ebf8b6da18f7b5e8ade855d6738095ef2f1c58c77e88b6e45997a4''"] by auto
  obtain b3 where b3: "dp_hex_decode dp
      ''e5400faf19e712ebc5ff5b4b44cecb2b140d1cca25a011e36a91d89e97f53e2e'' = Some b3" "length b3 = 32"
    using dec[of "''e5400faf19e712ebc5ff5b4b44cecb2b140d1cca25a011e36a91d89e97f53e2e''"] by auto
  obtain b4 where b4: "dp_hex_decode dp
      ''915386f44ad3a7fccee949c9d3fe43f5a20459c7401f990e1cc7d52c10be1fd6'' = Some b4" "length b4 = 32"
    using dec[of "''915386f44ad3a7fccee949c9d3fe43f5a20459c7401f990e1cc7d52c10be1fd6''"] by auto
  obtain b5 where b5: "dp_hex_decode dp
      ''5fec758c8aaff4a7683c27b075dc3984d8d982839cc56470a682d1411c9f8198'' = Some b5" "length b5 = 32"
    using dec[of "''5fec758c8aaff4a7683c27b075dc3984d8d982839cc56470a682d1411c9f8198''"] by auto
  show ?thesis
    by (simp add: config_new_def oura_init_def known_points_def fetch_range_def point_of_hex_def b1 b2 b3 b4 b5)
qed

definition sample_hex :: "string \<Rightarrow> byte list option" where
  "sample_hex digits = (if even (length digits) then Some (replicate (length digits div 2) 0) else None)"

definition sample_libs :: "(unit, unit, unit) deps" where
  "sample_libs = \<lparr>dp_decode_fragment = (\<lambda>_. Inr (0, ())), dp_hash_block_header = (\<lambda>_. []),
     dp_open_tree = (\<lambda>_ db. (Inr (), db)), dp_insert = (\<lambda>_ _ _ db. (Inr (), db)),
     dp_records = (\<lambda>_ _. []), dp_crawl = (\<lambda>_ writer. (Inr (), writer)),
     dp_hex_decode = sample_hex\<rparr>"

theorem config_new_points_witness:
  "\<exists>cfg. config_new sample_libs (Inr ()) (oura_init (Inr ()) (Inr ()) ()) = Inr cfg \<and>
    cf_magic cfg = 764824073"
proof -
  have "hex_ok (dp_hex_decode sample_libs)"
    by (simp add: hex_ok_def sample_libs_def sample_hex_def)
  from config_new_points[OF this, of "()" "()" "()"] show ?thesis by blast
qed

end
