(* ===== verification/Example_Mains.thy ===== *)
theory Example_Mains
  imports Examples_Store Examples_Serve
begin

text \<open>
  The entry points of the programs: the configuration is made, the program is awaited and its
  result unwrapped. What \<open>main\<close> leaves behind besides, such as the lines it has logged, is \<open>None\<close>
  when there is no configuration.
\<close>

section \<open>The entry points\<close>

definition common_init :: "('b, 'd, 'w) deps \<Rightarrow> (error, 'd) result \<Rightarrow> (error, 'w) result \<Rightarrow>
    (error, ('d, 'w) config) result" where
  "common_init dp db oura = config_new dp db oura"

fun await_unwrap :: "(error, 'a) poll \<Rightarrow> (error, 'a) poll" where
  "await_unwrap (Pending l) = Pending l"
| "await_unwrap (Ready r) = Ready (unwrap r)"

definition run_main :: "(error, 'c) result \<Rightarrow> ('c \<Rightarrow> ((error, 'a) poll \<times> 'l) option) \<Rightarrow>
    ((error, 'a) poll \<times> 'l option) option" where
  "run_main init program = (case init of
       Inl f \<Rightarrow> Some (await_unwrap (Ready (Inl f)), None)
     | Inr cfg \<Rightarrow> map_option (\<lambda>(r, l). (await_unwrap r, Some l)) (program cfg))"

definition sync_main :: "('b, 'd, 'w) deps \<Rightarrow> (error, 'd) result \<Rightarrow> (error, 'w) result \<Rightarrow> wire \<Rightarrow> cbor \<Rightarrow>
    (nat \<Rightarrow> byte list \<Rightarrow> byte list) \<Rightarrow> dialer \<Rightarrow> net \<Rightarrow>
    ((error, unit) poll \<times> (sync_event list \<times> connection option) option) option" where
  "sync_main dp db oura w c blake2b dial net =
     run_main (common_init dp db oura) (sync_example w c blake2b dial net)"

definition tip_main :: "('b, 'd, 'w) deps \<Rightarrow> (error, 'd) result \<Rightarrow> (error, 'w) result \<Rightarrow> wire \<Rightarrow> cbor \<Rightarrow>
    (nat \<Rightarrow> byte list \<Rightarrow> byte list) \<Rightarrow> dialer \<Rightarrow> net \<Rightarrow>
    ((error, unit) poll \<times> (tip_event list \<times> connection option) option) option" where
  "tip_main dp db oura w c blake2b dial net =
     run_main (common_init dp db oura) (tip_example w c blake2b dial net)"

definition fetch_main :: "('b, 'd, 'w) deps \<Rightarrow> (error, 'd) result \<Rightarrow> (error, 'w) result \<Rightarrow> wire \<Rightarrow> cbor \<Rightarrow>
    dialer \<Rightarrow> net \<Rightarrow>
    ((error, unit) poll \<times> (('d, 'w) config \<times> connection option) option) option" where
  "fetch_main dp db oura w c dial net =
     run_main (common_init dp db oura) (fetch_example dp w c dial net)"

text \<open>\<open>writer\<close> is the program's own, beside that of the configuration.\<close>

definition blockread_main :: "('b, 'd, 'w) deps \<Rightarrow> (error, 'd) result \<Rightarrow> (error, 'w) result \<Rightarrow>
    (error, unit) result \<Rightarrow> (error, (error, unit) poll) result \<Rightarrow> 'w \<Rightarrow>
    ((error, nat) poll \<times> ('d \<times> 'w) option) option" where
  "blockread_main dp db oura well_known sink writer =
     run_main (common_init dp db oura) (\<lambda>cfg. blockread dp well_known sink (cf_sdb cfg, writer))"

definition local_main :: "('b, 'd, 'w) deps \<Rightarrow> (error, 'd) result \<Rightarrow> (error, 'w) result \<Rightarrow> wire \<Rightarrow> cbor \<Rightarrow>
    dialer \<Rightarrow> byte list list \<Rightarrow> string list \<Rightarrow>
    ((error, unit) poll \<times> connection option option) option" where
  "local_main dp db oura w c dial chunks argv =
     run_main (common_init dp db oura) (\<lambda>cfg. local_example w c dial chunks argv (cf_magic cfg))"

text \<open>\<open>serve\<close> returns nothing that could be unwrapped.\<close>

definition server_main :: "('b, 'd, 'w) deps \<Rightarrow> (error, 'd) result \<Rightarrow> (error, 'w) result \<Rightarrow> wire \<Rightarrow> cbor \<Rightarrow>
    (error, unit) result \<Rightarrow> (error, client) result list \<Rightarrow>
    ((error, unit) poll \<times> connection list) option" where
  "server_main dp db oura w c bound clients = (case common_init dp db oura of
       Inl f \<Rightarrow> Some (Ready (Inl f), [])
     | Inr cfg \<Rightarrow> serve w c cfg bound clients)"

subsection \<open>The pings of all hosts\<close>

text \<open>
  \<open>line\<close> is the network of a host: the system that connects to it, the chunks that arrive from it
  and the two readings of the clock. The future of a host has not been polled, is suspended
  after it was, or is over.
\<close>

type_synonym line = "dialer \<times> byte list list \<times> nat \<times> nat"

fun ping_line :: "wire \<Rightarrow> cbor \<Rightarrow> ('d, 'w) config \<Rightarrow> line \<Rightarrow> string \<Rightarrow>
    (ping_event list, error, unit) task" where
  "ping_line w c cfg (dial, chunks, connected_at, done_at) host =
     ping_host w c dial chunks connected_at done_at cfg host"

datatype ping_future = PingNew | PingGoing | PingOver "(error, unit) result"

text \<open>
  One poll of a future. The first one logs its first line; \<open>arrived\<close> tells whether all that it
  waits for is there by this poll, otherwise it is suspended. A future that is over is not polled.
\<close>

definition ping_go :: "wire \<Rightarrow> cbor \<Rightarrow> ('d, 'w) config \<Rightarrow> line \<Rightarrow> string \<Rightarrow> bool \<Rightarrow> ping_event list \<Rightarrow>
    (ping_future \<times> ping_event list) option" where
  "ping_go w c cfg line host arrived log =
     (if arrived then
        (case ping_line w c cfg line host log of
           None \<Rightarrow> None
         | Some (Pending l, log') \<Rightarrow> Some (PingGoing, log')
         | Some (Ready r, log') \<Rightarrow> Some (PingOver r, log'))
      else Some (PingGoing, log))"

fun ping_poll :: "wire \<Rightarrow> cbor \<Rightarrow> ('d, 'w) config \<Rightarrow> line \<Rightarrow> string \<Rightarrow> bool \<Rightarrow> ping_future \<Rightarrow>
    ping_event list \<Rightarrow> (ping_future \<times> ping_event list) option" where
  "ping_poll w c cfg line host arrived PingNew log =
     ping_go w c cfg line host arrived (ping_started host (cf_magic cfg) log)"
| "ping_poll w c cfg line host arrived PingGoing log = ping_go w c cfg line host arrived log"
| "ping_poll w c cfg line host arrived (PingOver r) log = Some (PingOver r, log)"

text \<open>
  The polls of the futures, in the order of \<open>schedule\<close>, on the one log of the program. A panic in
  a future ends them: \<open>join_all\<close> is polled by one task, which it takes down.
\<close>

fun ping_polls :: "wire \<Rightarrow> cbor \<Rightarrow> ('d, 'w) config \<Rightarrow> string list \<Rightarrow> (nat \<Rightarrow> line) \<Rightarrow> (nat \<times> bool) list \<Rightarrow>
    ping_future list \<Rightarrow> ping_event list \<Rightarrow> (ping_future list \<times> ping_event list) option" where
  "ping_polls w c cfg hosts lines [] futures log = Some (futures, log)"
| "ping_polls w c cfg hosts lines ((k, arrived) # schedule) futures log =
     (case ping_poll w c cfg (lines k) (hosts ! k) arrived (futures ! k) log of
        None \<Rightarrow> None
      | Some (PingOver (Inl f), log') \<Rightarrow> Some (futures[k := PingOver (Inl f)], log')
      | Some (future, log') \<Rightarrow>
          ping_polls w c cfg hosts lines schedule (futures[k := future]) log')"

text \<open>\<open>join\<close> is what \<open>join_all\<close> of \<open>futures\<close> makes of what its futures have come to.\<close>

type_synonym pings = "(error, unit) poll list \<Rightarrow> (error, unit list) poll"

fun ping_came_to :: "ping_future \<Rightarrow> (error, unit) poll" where
  "ping_came_to (PingOver r) = Ready r"
| "ping_came_to _ = Pending []"

definition ping_all :: "wire \<Rightarrow> cbor \<Rightarrow> pings \<Rightarrow> (nat \<Rightarrow> line) \<Rightarrow> (nat \<times> bool) list \<Rightarrow> string list \<Rightarrow>
    ('d, 'w) config \<Rightarrow> ((error, unit) poll \<times> ping_event list) option" where
  "ping_all w c join lines schedule argv cfg = (case ping_hosts argv cfg of
       Inl f \<Rightarrow> Some (Ready (Inl f), [])
     | Inr hosts \<Rightarrow>
        (case ping_polls w c cfg hosts lines schedule (map (\<lambda>_. PingNew) hosts) [] of
           None \<Rightarrow> None
         | Some (futures, log) \<Rightarrow>
             Some (case join (map ping_came_to futures) of
                     Pending l \<Rightarrow> Pending l
                   | Ready (Inl f) \<Rightarrow> Ready (Inl f)
                   | Ready (Inr _) \<Rightarrow> Ready (Inr ()), log)))"

definition ping_main :: "('b, 'd, 'w) deps \<Rightarrow> (error, 'd) result \<Rightarrow> (error, 'w) result \<Rightarrow> wire \<Rightarrow> cbor \<Rightarrow>
    pings \<Rightarrow> (nat \<Rightarrow> line) \<Rightarrow> (nat \<times> bool) list \<Rightarrow> string list \<Rightarrow>
    ((error, unit) poll \<times> ping_event list) option" where
  "ping_main dp db oura w c join lines schedule argv = (case common_init dp db oura of
       Inl f \<Rightarrow> Some (Ready (Inl f), [])
     | Inr cfg \<Rightarrow> ping_all w c join lines schedule argv cfg)"

section \<open>How the programs end\<close>

lemma await_unwrap_ready:
  "await_unwrap p = Ready (Inl f) \<Longrightarrow> \<exists>panic. f = Panic panic"
  "await_unwrap p = Ready (Inr a) \<Longrightarrow> p = Ready (Inr a)"
  by (cases p; cases "case p of Ready r \<Rightarrow> r | Pending l \<Rightarrow> undefined";
      cases "case p of Ready (Inl f) \<Rightarrow> f | _ \<Rightarrow> undefined"; auto)+

text \<open>An entry point does not end with an error: the error becomes a panic.\<close>

lemma run_main_panics:
  assumes "run_main init program = Some (Ready (Inl f), l)"
  shows "\<exists>panic. f = Panic panic"
  using assms by (cases init) (auto simp: run_main_def simp del: await_unwrap.simps dest: await_unwrap_ready(1))

lemma run_main_succeeds:
  assumes "run_main init program = Some (Ready (Inr a), l)"
  shows "\<exists>cfg l'. program cfg = Some (Ready (Inr a), l')"
  using assms by (cases init) (auto simp: run_main_def simp del: await_unwrap.simps dest!: await_unwrap_ready(2))

text \<open>The loops that follow the chain have no way out but a failure.\<close>

lemma sync_loop_endless:
  assumes "sync_loop w c blake2b net k log s = Some res"
  shows "fst res \<noteq> Ready (Inr ())"
proof (rule sync_loop.raw_induct[where P = "\<lambda>w c blake2b net k log s res. fst res \<noteq> Ready (Inr ())",
    OF _ assms])
  fix f w c blake2b net k log s res
  assume IH: "\<And>w c blake2b net k log s res. f w c blake2b net k log s = Some res \<Longrightarrow>
      fst res \<noteq> Ready (Inr ())"
    and "(case request_next w c blake2b (cs_hear w (net k) s) of
        None \<Rightarrow> None
      | Some (Pending l, s') \<Rightarrow> Some (Pending l, log, s')
      | Some (Ready (Inl f), s') \<Rightarrow> Some (Ready (Inl f), log, s')
      | Some (Ready (Inr (Forward header tip)), s') \<Rightarrow>
          f w c blake2b net (Suc k)
            (log @ [BlockHeaderAt (bh_block_number header) (bh_slot_number header)]) s'
      | Some (Ready (Inr (Backward point tip)), s') \<Rightarrow>
          f w c blake2b net (Suc k) (log @ [RolledBackTo (pt_slot point)]) s') = Some res"
  then show "fst res \<noteq> Ready (Inr ())"
    using IH by (auto split: option.splits prod.splits poll.splits sum.splits reply.splits)
qed

lemma tip_loop_endless:
  assumes "tip_loop w c blake2b net k log s = Some res"
  shows "fst res \<noteq> Ready (Inr ())"
proof (rule tip_loop.raw_induct[where P = "\<lambda>w c blake2b net k log s res. fst res \<noteq> Ready (Inr ())",
    OF _ assms])
  fix f w c blake2b net k log s res
  assume IH: "\<And>w c blake2b net k log s res. f w c blake2b net k log s = Some res \<Longrightarrow>
      fst res \<noteq> Ready (Inr ())"
    and "(case request_next w c blake2b (cs_hear w (net k) s) of
        None \<Rightarrow> None
      | Some (Pending l, s') \<Rightarrow> Some (Pending l, log, s')
      | Some (Ready (Inl f), s') \<Rightarrow> Some (Ready (Inl f), log, s')
      | Some (Ready (Inr (Forward header tip)), s') \<Rightarrow>
          (let log' = log @ [MovedForward header tip] @
                 (if bh_hash header = tip_hash tip then [ReachedTip] else [])
           in case find_intersect w c blake2b [point_of_tip tip] (cs_hear w (net (Suc k)) s') of
                None \<Rightarrow> None
              | Some (Pending l, s'') \<Rightarrow> Some (Pending l, log', s'')
              | Some (Ready (Inl f), s'') \<Rightarrow> Some (Ready (Inl f), log', s'')
              | Some (Ready (Inr _), s'') \<Rightarrow> f w c blake2b net (Suc (Suc k)) log' s'')
      | Some (Ready (Inr (Backward slot tip)), s') \<Rightarrow>
          f w c blake2b net (Suc k) (log @ [MovedBackward slot tip]) s') = Some res"
  then show "fst res \<noteq> Ready (Inr ())"
    using IH by (auto simp: Let_def split: option.splits prod.splits poll.splits sum.splits reply.splits)
qed

lemma sync_example_endless: "sync_example w c blake2b dial net cfg \<noteq> Some (Ready (Inr ()), l)"
  by (auto simp: sync_example_def dest: sync_loop_endless
      split: option.splits prod.splits poll.splits sum.splits)

lemma tip_example_endless: "tip_example w c blake2b dial net cfg \<noteq> Some (Ready (Inr ()), l)"
  by (auto simp: tip_example_def dest: tip_loop_endless
      split: option.splits prod.splits poll.splits sum.splits intersect.splits)

text \<open>
  The programs that follow the chain never come to an end of their own: whatever the network
  does, \<open>sync.rs\<close> and \<open>tip.rs\<close> wait for a call or go down in a panic, also where the library
  has only returned an error.
\<close>

theorem followers_only_panic:
  assumes "sync_main dp db oura w c blake2b dial net = Some (Ready r, l) \<or>
    tip_main dp db oura w c blake2b dial net = Some (Ready r, l')"
  shows "\<exists>panic. r = Inl (Panic panic)"
proof (cases r)
  case (Inl f)
  with assms show ?thesis unfolding sync_main_def tip_main_def by (auto dest: run_main_panics)
next
  case (Inr a)
  with assms show ?thesis
    unfolding sync_main_def tip_main_def
    by (auto simp: sync_example_endless tip_example_endless dest!: run_main_succeeds)
qed

text \<open>A system that cannot connect: the timer has run out.\<close>

definition sample_offline :: dialer where
  "sample_offline = sample_dial\<lparr>dl_connect := (\<lambda>addr. Inl (ErrText ''elapsed''))\<rparr>"

theorem followers_only_panic_witness:
  "sync_main sample_libs (Inr ()) (Inr ()) sample_wire sample_cbor sample_hash sample_offline (\<lambda>k. []) =
      Some (Ready (Inl (Panic UnwrapPanic)), Some ([], None)) \<and>
    (\<exists>panic. Inl (Panic UnwrapPanic) = (Inl (Panic panic) :: (error, unit) result))"
proof -
  obtain cfg where "common_init sample_libs (Inr ()) (Inr ()) = Inr cfg"
    by (simp add: common_init_def config_new_def sample_libs_def sample_hex_def point_of_hex_def)
  then have "sync_main sample_libs (Inr ()) (Inr ()) sample_wire sample_cbor sample_hash sample_offline
      (\<lambda>k. []) = Some (Ready (Inl (Panic UnwrapPanic)), Some ([], None))"
    by (simp add: sync_main_def run_main_def sync_example_def sample_offline_def tcp_connect_def)
  then show ?thesis using followers_only_panic[OF disjI1] by blast
qed

section \<open>All hosts\<close>

text \<open>
  What \<open>futures\<close> documents of \<open>join_all\<close>: it is ready when all its futures are, with what they
  returned in their order, and pending before; and a future that panics when it is polled takes
  the poll of all down.
\<close>

definition join_ok :: "pings \<Rightarrow> bool" where
  "join_ok join \<longleftrightarrow> (\<forall>n. join (replicate n (Ready (Inr ()))) = Ready (Inr (replicate n ()))) \<and>
     (\<forall>polls f. Ready (Inl f) \<in> set polls \<longrightarrow>
        (\<exists>f'. Ready (Inl f') \<in> set polls \<and> join polls = Ready (Inl f'))) \<and>
     (\<forall>polls l. Pending l \<in> set polls \<and> (\<forall>f. Ready (Inl f) \<notin> set polls) \<longrightarrow>
        (\<exists>l'. join polls = Pending l'))"

text \<open>
  A host that cannot be reached, or whose node accepts a version of the proposal; its report. The
  node of another network accepts with another magic number.
\<close>

definition line_answers :: "wire \<Rightarrow> cbor \<Rightarrow> u32 \<Rightarrow> string \<Rightarrow> line \<Rightarrow> bool" where
  "line_answers w c magic host = (\<lambda>(dial, chunks, _). case tcp_connect dial host of
       Inl e \<Rightarrow> True
     | Inr conn \<Rightarrow> fresh conn \<and>
         (node_accepts w c (N2N 6) magic chunks \<or> node_accepts w c (N2N 7) magic chunks))"

definition line_foreign :: "wire \<Rightarrow> cbor \<Rightarrow> u32 \<Rightarrow> string \<Rightarrow> line \<Rightarrow> bool" where
  "line_foreign w c magic host = (\<lambda>(dial, chunks, _). case tcp_connect dial host of
       Inl e \<Rightarrow> False
     | Inr conn \<Rightarrow> fresh conn \<and> (\<exists>v other. other \<noteq> magic \<and> node_accepts w c v other chunks))"

definition line_report :: "string \<Rightarrow> line \<Rightarrow> ping_event" where
  "line_report host = (\<lambda>(dial, _, connected_at, done_at). case tcp_connect dial host of
       Inl e \<Rightarrow> PingFailed host (ErrText ''Could not connect.'')
     | Inr conn \<Rightarrow> PingSuccess host
         ((connected_at - cn_start_time conn) div 1000) ((done_at - cn_start_time conn) div 1000))"

lemma ping_line_outcome:
  assumes "wire_ok w" "cbor_stream c" "cbor_order c"
  shows "line_answers w c (cf_magic cfg) host line \<Longrightarrow>
      ping_line w c cfg line host log = Some (Ready (Inr ()), log @ [line_report host line])"
    and "line_foreign w c (cf_magic cfg) host line \<Longrightarrow>
      ping_line w c cfg line host log = Some (Ready (Inl (Panic AssertPanic)), log)"
proof -
  obtain dial chunks connected_at done_at where line: "line = (dial, chunks, connected_at, done_at)"
    by (cases line)
  note outcome = ping_host_outcome[OF assms, where dial = dial and host = host and chunks = chunks
      and connected_at = connected_at and done_at = done_at and cfg = cfg and log = log]
  {
    assume answers: "line_answers w c (cf_magic cfg) host line"
    then have "node_accepts w c (N2N 6) (cf_magic cfg) chunks \<or> node_accepts w c (N2N 7) (cf_magic cfg) chunks"
      if "tcp_connect dial host = Inr conn" for conn
      using that by (simp add: line_answers_def line)
    moreover have "fresh conn" if "tcp_connect dial host = Inr conn" for conn
      using answers that by (simp add: line_answers_def line)
    ultimately show "ping_line w c cfg line host log =
        Some (Ready (Inr ()), log @ [line_report host line])"
      using outcome[where v = "N2N 6" and magic = "cf_magic cfg"]
        outcome[where v = "N2N 7" and magic = "cf_magic cfg"]
      by (cases "tcp_connect dial host") (auto simp: line line_report_def)
  }
  assume "line_foreign w c (cf_magic cfg) host line"
  then obtain conn v other where "tcp_connect dial host = Inr conn" "fresh conn"
      "other \<noteq> cf_magic cfg" "node_accepts w c v other chunks"
    by (auto simp: line_foreign_def line split: sum.splits)
  with outcome[where v = v and magic = other]
  show "ping_line w c cfg line host log = Some (Ready (Inl (Panic AssertPanic)), log)"
    by (simp add: line)
qed

text \<open>
  The turns of a schedule that matter: the first poll of a host, and the first one at which all
  that it waits for has arrived. \<open>before\<close> are the polls so far.
\<close>

datatype ping_turn = Begins nat | Ends nat

fun ping_turns :: "(nat \<times> bool) list \<Rightarrow> (nat \<times> bool) list \<Rightarrow> ping_turn list" where
  "ping_turns before [] = []"
| "ping_turns before ((k, arrived) # schedule) =
     (if k \<in> fst ` set before then [] else [Begins k]) @
     (if arrived \<and> (k, True) \<notin> set before then [Ends k] else []) @
     ping_turns (before @ [(k, arrived)]) schedule"

fun turn_line :: "u32 \<Rightarrow> string list \<Rightarrow> (nat \<Rightarrow> line) \<Rightarrow> ping_turn \<Rightarrow> ping_event" where
  "turn_line magic hosts lines (Begins k) = PingStarted (hosts ! k) magic"
| "turn_line magic hosts lines (Ends k) = line_report (hosts ! k) (lines k)"

fun turn_survives :: "(nat \<Rightarrow> bool) \<Rightarrow> ping_turn \<Rightarrow> bool" where
  "turn_survives foreign (Begins k) \<longleftrightarrow> True"
| "turn_survives foreign (Ends k) \<longleftrightarrow> \<not> foreign k"

text \<open>What a future has come to after the polls of \<open>before\<close>.\<close>

definition ping_after :: "(nat \<Rightarrow> bool) \<Rightarrow> (nat \<times> bool) list \<Rightarrow> nat \<Rightarrow> ping_future" where
  "ping_after foreign before k =
     (if (k, True) \<in> set before
      then PingOver (if foreign k then Inl (Panic AssertPanic) else Inr ())
      else if k \<in> fst ` set before then PingGoing else PingNew)"

definition pings_after :: "(nat \<Rightarrow> bool) \<Rightarrow> nat \<Rightarrow> (nat \<times> bool) list \<Rightarrow> ping_future list" where
  "pings_after foreign n before = map (ping_after foreign before) [0..<n]"

lemma ping_turns_step:
  "ping_turns before (x # schedule) = ping_turns before [x] @ ping_turns (before @ [x]) schedule"
  by (cases x) simp

lemma ping_turns_foreign:
  assumes "foreign k" and "(k, True) \<notin> set before"
  shows "takeWhile (turn_survives foreign) (ping_turns before ((k, True) # schedule)) =
    takeWhile (turn_survives foreign) (ping_turns before [(k, True)])"
  unfolding ping_turns_step[of before "(k, True)" schedule]
  using assms by (intro takeWhile_append1[where x = "Ends k"]) simp_all

lemma ping_turns_near:
  assumes "\<not> (arrived \<and> foreign k)"
  shows "takeWhile (turn_survives foreign) (ping_turns before ((k, arrived) # schedule)) =
    takeWhile (turn_survives foreign) (ping_turns before [(k, arrived)]) @
    takeWhile (turn_survives foreign) (ping_turns (before @ [(k, arrived)]) schedule)"
proof -
  have "\<forall>turn \<in> set (ping_turns before [(k, arrived)]). turn_survives foreign turn"
    using assms by auto
  then show ?thesis
    unfolding ping_turns_step[of before "(k, arrived)" schedule]
    by (simp add: takeWhile_append2 takeWhile_eq_all_conv[THEN iffD2] del: ping_turns.simps)
qed

lemma ping_poll_turn:
  assumes "wire_ok w" "cbor_stream c" "cbor_order c" and "foreign k \<longrightarrow> (k, True) \<notin> set before"
    and "if foreign k then line_foreign w c (cf_magic cfg) (hosts ! k) (lines k)
      else line_answers w c (cf_magic cfg) (hosts ! k) (lines k)"
  shows "ping_poll w c cfg (lines k) (hosts ! k) arrived (ping_after foreign before k) log =
    Some (ping_after foreign (before @ [(k, arrived)]) k,
      log @ map (turn_line (cf_magic cfg) hosts lines)
        (takeWhile (turn_survives foreign) (ping_turns before [(k, arrived)])))"
proof -
  note outcome = ping_line_outcome[OF assms(1-3), of cfg "hosts ! k" "lines k"]
  consider (over) "(k, True) \<in> set before"
    | (going) "(k, True) \<notin> set before" "k \<in> fst ` set before"
    | (new) "(k, True) \<notin> set before" "k \<notin> fst ` set before" by blast
  then show ?thesis
  proof cases
    case over
    then have "k \<in> fst ` set before" by force
    with over assms(4) show ?thesis by (simp add: ping_after_def)
  next
    case going
    with assms(4,5) outcome show ?thesis
      by (simp add: ping_after_def ping_go_def)
  next
    case new
    with assms(4,5) outcome show ?thesis
      by (simp add: ping_after_def ping_go_def ping_started_def)
  qed
qed

lemma pings_after_update:
  assumes "k < n"
  shows "(pings_after foreign n before)[k := ping_after foreign (before @ [(k, arrived)]) k] =
    pings_after foreign n (before @ [(k, arrived)])"
proof (rule nth_equalityI)
  fix i assume "i < length ((pings_after foreign n before)[k := ping_after foreign (before @ [(k, arrived)]) k])"
  then have i: "i < n" by (simp add: pings_after_def)
  show "(pings_after foreign n before)[k := ping_after foreign (before @ [(k, arrived)]) k] ! i =
      pings_after foreign n (before @ [(k, arrived)]) ! i"
  proof (cases "i = k")
    case True
    with i show ?thesis by (simp add: pings_after_def)
  next
    case False
    then have "ping_after foreign (before @ [(k, arrived)]) i = ping_after foreign before i"
      by (simp add: ping_after_def)
    with i False show ?thesis by (simp add: pings_after_def)
  qed
qed (simp add: pings_after_def)

lemma ping_polls_turns:
  assumes "wire_ok w" "cbor_stream c" "cbor_order c"
    and "\<And>k. k < length hosts \<Longrightarrow> if foreign k
      then line_foreign w c (cf_magic cfg) (hosts ! k) (lines k)
      else line_answers w c (cf_magic cfg) (hosts ! k) (lines k)"
    and "fst ` set schedule \<subseteq> {..<length hosts}" and "\<forall>k. foreign k \<longrightarrow> (k, True) \<notin> set before"
  shows "\<exists>polled. ping_polls w c cfg hosts lines schedule
        (pings_after foreign (length hosts) before) log =
      Some (pings_after foreign (length hosts) (before @ polled),
        log @ map (turn_line (cf_magic cfg) hosts lines)
          (takeWhile (turn_survives foreign) (ping_turns before schedule))) \<and>
    (if \<exists>k. foreign k \<and> (k, True) \<in> set schedule
     then (\<exists>k < length hosts. foreign k \<and> (k, True) \<in> set polled) else polled = schedule)"
  using assms(5,6)
proof (induction schedule arbitrary: before log)
  case Nil
  then show ?case by simp
next
  case (Cons x schedule)
  obtain k arrived where x: "x = (k, arrived)" by (cases x)
  with Cons.prems have k: "k < length hosts" by simp
  let ?before = "before @ [(k, arrived)]"
  let ?lines = "\<lambda>turns. map (turn_line (cf_magic cfg) hosts lines) (takeWhile (turn_survives foreign) turns)"
  let ?now = "ping_turns before [(k, arrived)]"
  have future: "pings_after foreign (length hosts) before ! k = ping_after foreign before k"
    using k by (simp add: pings_after_def)
  have step: "ping_poll w c cfg (lines k) (hosts ! k) arrived (ping_after foreign before k) log =
      Some (ping_after foreign ?before k, log @ ?lines ?now)"
    using Cons.prems(2) assms(4)[OF k] by (intro ping_poll_turn[OF assms(1-3)]) blast+
  show ?case
  proof (cases "arrived \<and> foreign k")
    case True
    then have ends: "ping_after foreign ?before k = PingOver (Inl (Panic AssertPanic))"
      using Cons.prems(2) by (simp add: ping_after_def)
    have "?lines (ping_turns before (x # schedule)) = ?lines ?now"
      using True Cons.prems(2) ping_turns_foreign[of foreign k before schedule] x by simp
    moreover have "pings_after foreign (length hosts) ?before =
        (pings_after foreign (length hosts) before)[k := PingOver (Inl (Panic AssertPanic))]"
      using pings_after_update[OF k, of foreign before arrived] ends by simp
    ultimately show ?thesis
      using True k step ends
      by (intro exI[of _ "[x]"]) (auto simp: x future simp del: ping_turns.simps)
  next
    case False
    have "fst ` set schedule \<subseteq> {..<length hosts}" "\<forall>k. foreign k \<longrightarrow> (k, True) \<notin> set ?before"
      using Cons.prems False by auto
    from Cons.IH[OF this, of "log @ ?lines ?now"] obtain polled where polled:
      "ping_polls w c cfg hosts lines schedule (pings_after foreign (length hosts) ?before)
          (log @ ?lines ?now) =
        Some (pings_after foreign (length hosts) (?before @ polled),
          (log @ ?lines ?now) @ ?lines (ping_turns ?before schedule))"
      "if \<exists>k. foreign k \<and> (k, True) \<in> set schedule
       then (\<exists>k < length hosts. foreign k \<and> (k, True) \<in> set polled) else polled = schedule"
      by blast
    let ?sum = "(log @ ?lines ?now) @ ?lines (ping_turns ?before schedule)"
    have "\<forall>f. ping_after foreign ?before k \<noteq> PingOver (Inl f)"
      using False Cons.prems(2) by (auto simp: ping_after_def)
    then have "ping_polls w c cfg hosts lines (x # schedule) (pings_after foreign (length hosts) before) log =
        ping_polls w c cfg hosts lines schedule (pings_after foreign (length hosts) ?before)
          (log @ ?lines ?now)"
      using step Cons.prems(2) pings_after_update[OF k, of foreign before arrived]
      by (auto simp: x future simp del: ping_turns.simps split: ping_future.split sum.split)
    with polled(1) have "ping_polls w c cfg hosts lines (x # schedule)
        (pings_after foreign (length hosts) before) log =
      Some (pings_after foreign (length hosts) (before @ x # polled), ?sum)"
      by (simp add: x del: ping_polls.simps ping_turns.simps)
    moreover have "?lines (ping_turns before (x # schedule)) = ?lines ?now @ ?lines (ping_turns ?before schedule)"
      using ping_turns_near[of arrived foreign k before schedule] False x by simp
    moreover have "(\<exists>k. foreign k \<and> (k, True) \<in> set (x # schedule)) \<longleftrightarrow>
        (\<exists>k. foreign k \<and> (k, True) \<in> set schedule)"
      using False x by auto
    then have "if \<exists>k. foreign k \<and> (k, True) \<in> set (x # schedule)
        then (\<exists>k < length hosts. foreign k \<and> (k, True) \<in> set (x # polled))
        else x # polled = x # schedule"
      using polled(2) by (cases "\<exists>k. foreign k \<and> (k, True) \<in> set schedule") auto
    ultimately show ?thesis
      by (intro exI[of _ "x # polled"]) (simp only: append_assoc)
  qed
qed

lemma ping_came_to_after:
  "ping_came_to (ping_after foreign before k) =
    (if (k, True) \<in> set before
     then Ready (if foreign k then Inl (Panic AssertPanic) else Inr ()) else Pending [])"
  by (simp add: ping_after_def)

text \<open>What \<open>join_all\<close> makes of the futures after the polls of \<open>before\<close>.\<close>

lemma join_pings_after:
  assumes "join_ok join"
  shows "k < n \<Longrightarrow> foreign k \<Longrightarrow> (k, True) \<in> set before \<Longrightarrow>
      join (map ping_came_to (pings_after foreign n before)) = Ready (Inl (Panic AssertPanic))"
    and "\<forall>k. foreign k \<longrightarrow> (k, True) \<notin> set before \<Longrightarrow> \<forall>k < n. (k, True) \<in> set before \<Longrightarrow>
      join (map ping_came_to (pings_after foreign n before)) = Ready (Inr (replicate n ()))"
    and "\<forall>k. foreign k \<longrightarrow> (k, True) \<notin> set before \<Longrightarrow> \<exists>k < n. (k, True) \<notin> set before \<Longrightarrow>
      \<exists>l. join (map ping_came_to (pings_after foreign n before)) = Pending l"
proof -
  let ?polls = "map ping_came_to (pings_after foreign n before)"
  have polls: "?polls = map (\<lambda>k. if (k, True) \<in> set before
      then Ready (if foreign k then Inl (Panic AssertPanic) else Inr ()) else Pending []) [0..<n]"
    by (simp add: pings_after_def ping_came_to_after)
  show "join ?polls = Ready (Inl (Panic AssertPanic))"
    if "k < n" "foreign k" "(k, True) \<in> set before"
  proof -
    have "Ready (Inl (Panic AssertPanic)) \<in> set ?polls" using that unfolding polls by force
    moreover have "f = Panic AssertPanic" if "Ready (Inl f) \<in> set ?polls" for f
      using that unfolding polls by (auto split: if_splits)
    ultimately show ?thesis using assms unfolding join_ok_def by blast
  qed
  assume near: "\<forall>k. foreign k \<longrightarrow> (k, True) \<notin> set before"
  {
    assume "\<forall>k < n. (k, True) \<in> set before"
    with near have "?polls = replicate n (Ready (Inr ()))"
      unfolding polls by (intro nth_equalityI) auto
    then show "join ?polls = Ready (Inr (replicate n ()))" using assms by (simp add: join_ok_def)
  }
  assume "\<exists>k < n. (k, True) \<notin> set before"
  then have "Pending [] \<in> set ?polls" unfolding polls by force
  moreover have "Ready (Inl f) \<notin> set ?polls" for f
    using near unfolding polls by (auto split: if_splits)
  ultimately show "\<exists>l. join ?polls = Pending l" using assms unfolding join_ok_def by blast
qed

text \<open>
  C28. The program of \<open>ping.rs\<close> on all the hosts of its command line, under every order of the polls
  of their futures; each host cannot be reached, or its node accepts a version that was proposed,
  or it is a node of another network. The log has a line for each host when it is first polled and, when all that it
  waits for has arrived, the report on a host that cannot be reached or whose node accepts, in the
  order in which this happens, and the program ends when there is one on every host. But when a
  node of another network has answered, the program ends with a panic: what is in the log by
  then stays there, and the hosts that are not through yet get no report.
\<close>

theorem ping_all_outcome:
  assumes "wire_ok w" "cbor_stream c" "cbor_order c" and "join_ok join"
    and "ping_hosts argv cfg = Inr hosts" and "fst ` set schedule \<subseteq> {..<length hosts}"
    and "\<And>k. k < length hosts \<Longrightarrow> if foreign k
      then line_foreign w c (cf_magic cfg) (hosts ! k) (lines k)
      else line_answers w c (cf_magic cfg) (hosts ! k) (lines k)"
  shows "\<exists>r. ping_all w c join lines schedule argv cfg =
      Some (r, map (turn_line (cf_magic cfg) hosts lines)
        (takeWhile (turn_survives foreign) (ping_turns [] schedule))) \<and>
    (if \<exists>k. foreign k \<and> (k, True) \<in> set schedule then r = Ready (Inl (Panic AssertPanic))
     else if \<forall>k < length hosts. (k, True) \<in> set schedule then r = Ready (Inr ())
     else \<exists>l. r = Pending l)"
proof -
  let ?n = "length hosts"
  have "pings_after foreign ?n [] = map (\<lambda>_. PingNew) hosts"
    by (rule nth_equalityI) (simp_all add: pings_after_def ping_after_def)
  with ping_polls_turns[OF assms(1-3,7,6), where before = "[]" and log = "[]"]
  obtain polled where run: "ping_polls w c cfg hosts lines schedule (map (\<lambda>_. PingNew) hosts) [] =
      Some (pings_after foreign ?n polled, map (turn_line (cf_magic cfg) hosts lines)
        (takeWhile (turn_survives foreign) (ping_turns [] schedule)))"
    and polled: "if \<exists>k. foreign k \<and> (k, True) \<in> set schedule
      then (\<exists>k < ?n. foreign k \<and> (k, True) \<in> set polled) else polled = schedule"
    by auto
  note join = join_pings_after[OF assms(4), where foreign = foreign and n = ?n and before = polled]
  consider (panic) "\<exists>k. foreign k \<and> (k, True) \<in> set schedule"
    | (through) "\<forall>k. foreign k \<longrightarrow> (k, True) \<notin> set schedule" "\<forall>k < ?n. (k, True) \<in> set schedule"
    | (pending) "\<forall>k. foreign k \<longrightarrow> (k, True) \<notin> set schedule" "\<exists>k < ?n. (k, True) \<notin> set schedule"
    by blast
  then show ?thesis
  proof cases
    case panic
    with polled obtain k where "k < ?n" "foreign k" "(k, True) \<in> set polled" by auto
    from join(1)[OF this] panic run show ?thesis by (auto simp: ping_all_def assms(5))
  next
    case through
    with polled have "polled = schedule" by auto
    with join(2) through run show ?thesis by (auto simp: ping_all_def assms(5))
  next
    case pending
    with polled have "polled = schedule" by auto
    with join(3) pending run show ?thesis by (auto simp: ping_all_def assms(5))
  qed
qed

text \<open>
  Two hosts: of the network, the second one through first; and with a node of another network,
  which answers after the report on the first host and before the other one is through.
\<close>

definition sample_join :: pings where
  "sample_join polls = (case [f. Ready (Inl f) \<leftarrow> polls] of
       f # _ \<Rightarrow> Ready (Inl f)
     | [] \<Rightarrow> if \<forall>p \<in> set polls. \<exists>r. p = Ready (Inr r)
         then Ready (Inr (map (\<lambda>_. ()) polls)) else Pending [])"

lemma sample_join_ok: "join_ok sample_join"
  unfolding join_ok_def
proof (intro conjI allI impI)
  fix polls :: "(error, unit) poll list" and f
  let ?fs = "[f. Ready (Inl f) \<leftarrow> polls]"
  have fs: "set ?fs = {f. Ready (Inl f) \<in> set polls}"
    by (induction polls) (auto split: poll.splits sum.splits)
  {
    assume "Ready (Inl f) \<in> set polls"
    then obtain f' rest where "?fs = f' # rest" using fs by (cases ?fs) auto
    then show "\<exists>f'. Ready (Inl f') \<in> set polls \<and> sample_join polls = Ready (Inl f')"
      using fs by (auto simp: sample_join_def)
  }
  fix l
  assume "Pending l \<in> set polls \<and> (\<forall>f. Ready (Inl f) \<notin> set polls)"
  then have "set ?fs = {}" and pending: "\<not> (\<forall>p \<in> set polls. \<exists>r. p = Ready (Inr r))"
    unfolding fs by auto
  then have "?fs = []" by (simp only: set_empty)
  then show "\<exists>l'. sample_join polls = Pending l'"
    using pending unfolding sample_join_def by (simp only: list.case if_False) blast
next
  fix n
  have "[f. Ready (Inl f) \<leftarrow> replicate n (Ready (Inr ()) :: (error, unit) poll)] = []"
    by (induction n) simp_all
  then show "sample_join (replicate n (Ready (Inr ()))) = Ready (Inr (replicate n ()))"
    by (simp add: sample_join_def map_replicate_const)
qed

theorem ping_all_outcome_witness:
  "ping_all sample_wire sample_cbor sample_join (\<lambda>k. (sample_dial, sample_accepts 42, 2500, 7000))
      [(0, False), (1, False), (1, True), (0, True)] [''ping'', ''a'', ''b''] sample_config =
    Some (Ready (Inr ()), [PingStarted ''a'' 42, PingStarted ''b'' 42,
      PingSuccess ''b'' 2 7, PingSuccess ''a'' 2 7]) \<and>
   ping_all sample_wire sample_cbor sample_join
      (\<lambda>k. (sample_dial, sample_accepts (if k = 1 then 1 else 42), 2500, 7000))
      [(0, False), (1, False), (2, False), (0, True), (1, True), (2, True)]
      [''ping'', ''a'', ''b'', ''c''] sample_config =
    Some (Ready (Inl (Panic AssertPanic)), [PingStarted ''a'' 42, PingStarted ''b'' 42,
      PingStarted ''c'' 42, PingSuccess ''a'' 2 7])"
proof
  let ?near = "\<lambda>k. (sample_dial, sample_accepts 42, 2500, 7000)"
  let ?mixed = "\<lambda>k. (sample_dial, sample_accepts (if k = 1 then 1 else 42), 2500, 7000)"
  have magic: "cf_magic sample_config = 42" by (simp add: sample_config_def)
  note outcome = ping_all_outcome[OF sample_wire_ok sample_cbor_stream sample_cbor_order sample_join_ok]
  note simps = line_answers_def line_foreign_def magic sample_connection_fresh sample_node_accepts
  have hosts: "ping_hosts [''ping'', ''a'', ''b''] sample_config = Inr [''a'', ''b'']"
    by (simp add: ping_hosts_def)
  have all: "\<forall>k < length [''a'', ''b'']. (k, True) \<in> set [(0, False), (1, False), (1, True), (0, True)]"
    by (auto simp: less_Suc_eq)
  from outcome[OF hosts, where foreign = "\<lambda>k. False" and lines = ?near
      and schedule = "[(0, False), (1, False), (1, True), (0, True)]"] all
  show "ping_all sample_wire sample_cbor sample_join ?near
      [(0, False), (1, False), (1, True), (0, True)] [''ping'', ''a'', ''b''] sample_config =
    Some (Ready (Inr ()), [PingStarted ''a'' 42, PingStarted ''b'' 42,
      PingSuccess ''b'' 2 7, PingSuccess ''a'' 2 7])"
    by (simp add: simps line_report_def) (simp add: sample_connection_def connection_new_def)
  have hosts: "ping_hosts [''ping'', ''a'', ''b'', ''c''] sample_config = Inr [''a'', ''b'', ''c'']"
    by (simp add: ping_hosts_def)
  have mixed: "if k = 1 then line_foreign sample_wire sample_cbor (cf_magic sample_config)
        ([''a'', ''b'', ''c''] ! k) (?mixed k)
      else line_answers sample_wire sample_cbor (cf_magic sample_config) ([''a'', ''b'', ''c''] ! k) (?mixed k)"
    for k
    using sample_node_accepts[of 1]
    by (auto simp: simps intro!: exI[of _ "N2N 7"] exI[of _ "1 :: u32"])
  note panics = outcome[where foreign = "\<lambda>k. k = 1" and lines = ?mixed
      and schedule = "[(0, False), (1, False), (2, False), (0, True), (1, True), (2, True)]", OF hosts _ mixed]
  from panics show "ping_all sample_wire sample_cbor sample_join ?mixed
      [(0, False), (1, False), (2, False), (0, True), (1, True), (2, True)]
      [''ping'', ''a'', ''b'', ''c''] sample_config =
    Some (Ready (Inl (Panic AssertPanic)), [PingStarted ''a'' 42, PingStarted ''b'' 42,
      PingStarted ''c'' 42, PingSuccess ''a'' 2 7])"
    by (simp add: magic line_report_def) (simp add: sample_connection_def connection_new_def)
qed

end
