(* ===== verification/Message_Info.thy ===== *)
theory Message_Info
  imports Block_Fetch Chain_Sync Handshake Tx_Submission
begin

text \<open>
  The lines that the library logs for its messages: the method \<open>info\<close> of each protocol over the
  \<open>Debug\<close> format that the compiler derives, and the theorem that a line names its message, but for
  the header and the block that \<open>info\<close> leaves out on purpose.
\<close>

section \<open>The derived format\<close>

text \<open>Decimal numbers of the standard library.\<close>

fun decimal :: "nat \<Rightarrow> string" where
  "decimal n = (if n < 10 then [char_of (48 + n)] else decimal (n div 10) @ [char_of (48 + n mod 10)])"

declare decimal.simps [simp del]

definition debug_int :: "int \<Rightarrow> string" where
  "debug_int i = (if i < 0 then CHR ''-'' # decimal (nat (- i)) else decimal (nat i))"

text \<open>A vector in brackets, its elements separated by commas.\<close>

fun debug_items :: "('a \<Rightarrow> string) \<Rightarrow> 'a list \<Rightarrow> string" where
  "debug_items f [] = []"
| "debug_items f (x # xs) = f x @ concat (map (\<lambda>y. '', '' @ f y) xs)"

definition debug_list :: "('a \<Rightarrow> string) \<Rightarrow> 'a list \<Rightarrow> string" where
  "debug_list f xs = ''['' @ debug_items f xs @ '']''"

definition debug_bytes :: "byte list \<Rightarrow> string" where
  "debug_bytes = debug_list (\<lambda>b. decimal (unat b))"

definition debug_point :: "point \<Rightarrow> string" where
  "debug_point point = ''Point { slot: '' @ decimal (unat (pt_slot point)) @
     '', hash: '' @ debug_bytes (pt_hash point) @ '' }''"

definition debug_tip :: "tip \<Rightarrow> string" where
  "debug_tip tip = ''Tip { block_number: '' @ debug_int (sint (tip_block_number tip)) @
     '', slot_number: '' @ decimal (unat (tip_slot_number tip)) @
     '', hash: '' @ debug_bytes (tip_hash tip) @ '' }''"

fun debug_version :: "version \<Rightarrow> string" where
  "debug_version (N2N n) = ''N2N('' @ debug_int n @ '')''"
| "debug_version (C2N n) = ''C2N('' @ debug_int n @ '')''"

definition debug_proposed :: "version \<times> u32 \<Rightarrow> string" where
  "debug_proposed = (\<lambda>(version, magic). ''('' @ debug_version version @ '', '' @
     decimal (unat magic) @ '')'')"

section \<open>The lines of the messages\<close>

fun bf_info :: "bf_message \<Rightarrow> string" where
  "bf_info (Block bytes) = ''Message::Block(... '' @ decimal (length bytes) @ '' bytes ...)''"
| "bf_info (RequestRange p q) =
     ''RequestRange('' @ debug_point p @ '', '' @ debug_point q @ '')''"
| "bf_info ClientDone = ''ClientDone''"
| "bf_info StartBatch = ''StartBatch''"
| "bf_info NoBlocks = ''NoBlocks''"
| "bf_info BatchDone = ''BatchDone''"

fun cs_info :: "cs_message \<Rightarrow> string" where
  "cs_info (RollForward _ tip) = ''Message::RollForward(..., '' @ debug_tip tip @ '')''"
| "cs_info RequestNext = ''RequestNext''"
| "cs_info AwaitReply = ''AwaitReply''"
| "cs_info (RollBackward point tip) =
     ''RollBackward('' @ debug_point point @ '', '' @ debug_tip tip @ '')''"
| "cs_info (FindIntersect points) = ''FindIntersect('' @ debug_list debug_point points @ '')''"
| "cs_info (IntersectFound point tip) =
     ''IntersectFound('' @ debug_point point @ '', '' @ debug_tip tip @ '')''"
| "cs_info (IntersectNotFound tip) = ''IntersectNotFound('' @ debug_tip tip @ '')''"
| "cs_info MsgDone = ''Done''"

fun hs_info :: "hs_message \<Rightarrow> string" where
  "hs_info (ProposeVersions versions) =
     ''ProposeVersions('' @ debug_list debug_proposed versions @ '')''"
| "hs_info (AcceptVersion version magic) =
     ''AcceptVersion('' @ debug_version version @ '', '' @ decimal (unat magic) @ '')''"
| "hs_info Refuse = ''Refuse''"

text \<open>The format of a CBOR value is that of \<open>serde_cbor\<close>, a parameter.\<close>

fun tx_info :: "(cbor_value \<Rightarrow> string) \<Rightarrow> tx_message \<Rightarrow> string" where
  "tx_info debug_value (TxArray values) = ''Array('' @ debug_list debug_value values @ '')''"
| "tx_info debug_value (TxRaw bytes) = ''Raw('' @ debug_bytes bytes @ '')''"

section \<open>Reading a line back\<close>

text \<open>
  A format is unambiguous when the text of a value ends where the next delimiter begins, and no
  two values have the same text.
\<close>

definition delimited :: "string \<Rightarrow> bool" where
  "delimited r \<longleftrightarrow> r = [] \<or> hd r \<in> {CHR '','', CHR '' '', CHR '')'', CHR '']''}"

lemma delimited_simps [simp]:
  "delimited []" "delimited (CHR '','' # r)" "delimited (CHR '' '' # r)" "delimited (CHR '')'' # r)"
  "delimited (CHR '']'' # r)"
  by (simp_all add: delimited_def)

locale unambiguous_format =
  fixes shown :: "'a \<Rightarrow> string"
  assumes shown_ends: "shown x @ r = shown y @ s \<Longrightarrow> delimited r \<Longrightarrow> delimited s \<Longrightarrow> x = y \<and> r = s"
    and shown_starts: "shown x \<noteq> [] \<and> hd (shown x) \<noteq> CHR '']''"
begin

lemma shown_begins: "shown x @ r \<noteq> CHR '']'' # s"
  using shown_starts[of x] by (cases "shown x") auto

lemma shown_sep:
  "delimited r \<Longrightarrow> delimited s \<Longrightarrow> shown x @ r = shown y @ s \<longleftrightarrow> x = y \<and> r = s"
  using shown_ends by blast

lemma shown_then [simp]:
  "shown x @ CHR '','' # r = shown y @ CHR '','' # s \<longleftrightarrow> x = y \<and> r = s"
  "shown x @ CHR '' '' # r = shown y @ CHR '' '' # s \<longleftrightarrow> x = y \<and> r = s"
  "shown x @ CHR '')'' # r = shown y @ CHR '')'' # s \<longleftrightarrow> x = y \<and> r = s"
  "shown x = shown y \<longleftrightarrow> x = y"
  using shown_sep[of "[]" "[]" x y] by (simp_all add: shown_sep)

lemma renamed: "inj g \<Longrightarrow> unambiguous_format (\<lambda>a. shown (g a))"
  using shown_starts by unfold_locales (auto dest: shown_ends injD)

lemma tail_end:
  "concat (map (\<lambda>y. '', '' @ shown y) xs) @ CHR '']'' # r =
    concat (map (\<lambda>y. '', '' @ shown y) ys) @ CHR '']'' # s \<Longrightarrow> xs = ys \<and> r = s"
proof (induction xs arbitrary: ys)
  case Nil
  then show ?case by (cases ys) auto
next
  case (Cons x xs)
  then obtain y ys' where ys: "ys = y # ys'" by (cases ys) auto
  have delim: "delimited (concat (map (\<lambda>y. '', '' @ shown y) zs) @ CHR '']'' # t)" for zs t
    by (cases zs) simp_all
  from Cons.prems have "shown x @ concat (map (\<lambda>y. '', '' @ shown y) xs) @ CHR '']'' # r =
      shown y @ concat (map (\<lambda>y. '', '' @ shown y) ys') @ CHR '']'' # s"
    by (simp add: ys)
  from shown_ends[OF this delim delim] Cons.IH[of ys'] show ?case by (simp add: ys)
qed

lemma items_end:
  assumes "debug_items shown xs @ CHR '']'' # r = debug_items shown ys @ CHR '']'' # s"
  shows "xs = ys \<and> r = s"
proof (cases xs; cases ys)
  fix x xs' y ys' assume xs: "xs = x # xs'" "ys = y # ys'"
  have delim: "delimited (concat (map (\<lambda>y. '', '' @ shown y) zs) @ CHR '']'' # t)" for zs t
    by (cases zs) simp_all
  from assms have "shown x @ concat (map (\<lambda>y. '', '' @ shown y) xs') @ CHR '']'' # r =
      shown y @ concat (map (\<lambda>y. '', '' @ shown y) ys') @ CHR '']'' # s"
    by (simp add: xs)
  from shown_ends[OF this delim delim] tail_end[of xs' r ys' s] show ?thesis by (simp add: xs)
qed (use assms shown_begins shown_begins[symmetric] in auto)

lemma list_format: "unambiguous_format (debug_list shown)"
proof
  fix xs ys :: "'a list" and r s
  assume "debug_list shown xs @ r = debug_list shown ys @ s"
  then show "xs = ys \<and> r = s" using items_end[of xs r ys s] by (simp add: debug_list_def)
qed (simp add: debug_list_def)

end

definition digit :: "char \<Rightarrow> bool" where
  "digit c \<longleftrightarrow> 48 \<le> (of_char c :: nat) \<and> (of_char c :: nat) < 58"

lemma decimal_digits: "c \<in> set (decimal n) \<Longrightarrow> digit c"
proof (induction n rule: decimal.induct)
  case (1 n)
  show ?case
  proof (cases "n < 10")
    case True
    with 1(2) show ?thesis by (simp add: decimal.simps[of n] digit_def)
  next
    case False
    have "48 + n mod 10 < 58" by simp
    then have "digit (char_of (48 + n mod 10))" by (simp add: digit_def)
    with 1 False show ?thesis by (auto simp: decimal.simps[of n])
  qed
qed

lemma decimal_nonempty [simp]: "decimal n \<noteq> []"
  by (simp add: decimal.simps[of n])

definition undecimal :: "string \<Rightarrow> nat" where
  "undecimal = foldl (\<lambda>a d. 10 * a + (of_char d - 48)) 0"

lemma undecimal_decimal [simp]: "undecimal (decimal n) = n"
proof (induction n rule: decimal.induct)
  case (1 n)
  then show ?case
    by (cases "n < 10") (simp_all add: undecimal_def decimal.simps[of n])
qed

interpretation number_format: unambiguous_format decimal
proof
  have whole: "takeWhile digit (decimal n @ r) = decimal n" if "delimited r" for n r
  proof -
    have "takeWhile digit r = []" using that by (cases r) (auto simp: delimited_def digit_def)
    then show ?thesis using decimal_digits by (subst takeWhile_append2) auto
  qed
  fix x y :: nat and r s
  assume eq: "decimal x @ r = decimal y @ s" and "delimited r" "delimited s"
  then have same: "decimal x = decimal y" using whole by metis
  then have "x = y" by (metis undecimal_decimal)
  with eq show "x = y \<and> r = s" by simp
next
  fix x :: nat
  show "decimal x \<noteq> [] \<and> hd (decimal x) \<noteq> CHR '']''"
    using decimal_digits[OF hd_in_set[OF decimal_nonempty[of x]]] by (auto simp: digit_def)
qed

lemma number_end:
  "decimal x @ r = decimal y @ s \<Longrightarrow> delimited r \<Longrightarrow> delimited s \<Longrightarrow> x = y \<and> r = s"
  by (rule number_format.shown_ends)

lemma decimal_no_sign: "decimal n @ r \<noteq> CHR ''-'' # s"
  using decimal_digits[OF hd_in_set[OF decimal_nonempty[of n]]]
  by (cases "decimal n") (auto simp: digit_def)

interpretation int_format: unambiguous_format debug_int
proof
  fix x y :: int and r s
  assume eq: "debug_int x @ r = debug_int y @ s" and ends: "delimited r" "delimited s"
  consider "x < 0" "y < 0" | "0 \<le> x" "0 \<le> y" | "x < 0" "0 \<le> y" | "0 \<le> x" "y < 0" by linarith
  then show "x = y \<and> r = s"
  proof cases
    case 1
    with eq number_end[OF _ ends, of "nat (- x)" "nat (- y)"] show ?thesis
      by (auto simp: debug_int_def)
  next
    case 2
    with eq number_end[OF _ ends, of "nat x" "nat y"] show ?thesis
      by (auto simp: debug_int_def)
  next
    case 3
    with eq decimal_no_sign[of "nat y" s] show ?thesis by (simp add: debug_int_def) metis
  next
    case 4
    with eq decimal_no_sign[of "nat x" r] show ?thesis by (simp add: debug_int_def)
  qed
next
  fix x
  show "debug_int x \<noteq> [] \<and> hd (debug_int x) \<noteq> CHR '']''"
    using number_format.shown_starts by (simp add: debug_int_def)
qed

lemma unat_inj [simp]: "unat x = unat y \<longleftrightarrow> x = y"
  by (simp add: word_unat_eq_iff)

lemma sint_inj [simp]: "sint x = sint y \<longleftrightarrow> x = y"
  by (rule word_eq_iff_signed[symmetric])

interpretation word_format: unambiguous_format "\<lambda>x :: 'a::len word. decimal (unat x)"
  by (rule number_format.renamed) (simp add: inj_def)

interpretation i64_format: unambiguous_format "\<lambda>x :: i64. debug_int (sint x)"
  by (rule int_format.renamed) (simp add: inj_def)

interpretation bytes_format: unambiguous_format debug_bytes
  unfolding debug_bytes_def by (rule word_format.list_format)

interpretation point_format: unambiguous_format debug_point
  by unfold_locales (auto simp: debug_point_def)

interpretation tip_format: unambiguous_format debug_tip
  by unfold_locales (auto simp: debug_tip_def)

interpretation version_format: unambiguous_format debug_version
proof
  fix x y :: version and r s
  assume "debug_version x @ r = debug_version y @ s"
  then show "x = y \<and> r = s" by (cases x; cases y) simp_all
next
  fix x
  show "debug_version x \<noteq> [] \<and> hd (debug_version x) \<noteq> CHR '']''" by (cases x) simp_all
qed

interpretation proposed_format: unambiguous_format debug_proposed
  by unfold_locales (auto simp: debug_proposed_def)

interpretation points_format: unambiguous_format "debug_list debug_point"
  by (rule point_format.list_format)

interpretation versions_format: unambiguous_format "debug_list debug_proposed"
  by (rule proposed_format.list_format)

section \<open>A line names its message\<close>

lemma bf_info_eq:
  "bf_info m = bf_info m' \<longleftrightarrow>
    m = m' \<or> (\<exists>b b'. m = Block b \<and> m' = Block b' \<and> length b = length b')"
  by (cases m; cases m') auto

lemma cs_info_eq:
  "cs_info m = cs_info m' \<longleftrightarrow>
    m = m' \<or> (\<exists>h h' tip. m = RollForward h tip \<and> m' = RollForward h' tip)"
  by (cases m; cases m') auto

lemma hs_info_eq: "hs_info m = hs_info m' \<longleftrightarrow> m = m'"
  by (cases m; cases m') auto

text \<open>
  C39. What the library logs for a message names it: two block fetch messages with the same line are
  the same or blocks of the same length, two chain sync messages with the same line are the same or
  headers announced with the same tip, and a line of the handshake is that of one message only.
\<close>

theorem info_names_message:
  "(bf_info m = bf_info m' \<longleftrightarrow>
      m = m' \<or> (\<exists>b b'. m = Block b \<and> m' = Block b' \<and> length b = length b')) \<and>
    (cs_info n = cs_info n' \<longleftrightarrow>
      n = n' \<or> (\<exists>h h' tip. n = RollForward h tip \<and> n' = RollForward h' tip)) \<and>
    (hs_info k = hs_info k' \<longleftrightarrow> k = k')"
  by (intro conjI bf_info_eq cs_info_eq hs_info_eq)

end
