(* ===== verification/Spec2Isabelle.thy ===== *)
theory Spec2Isabelle
  imports Tx_Submission Reader_Facts Crate_Tests Store_Plays Example_Mains Message_Info
begin

text \<open>
  A verification development for \<open>cardano-ouroboros-network\<close>, a Rust library that speaks the
  network protocols of a Cardano node: frames on one byte stream carry the channels of several
  mini protocols, each a state machine between a client and a server that exchange CBOR
  messages. Paths below are relative to the crate.

  \<^bold>\<open>Parts and theories.\<close>
  \<^item> \<open>Net_Prelude\<close>: results with panics as values, operations on \<open>&mut self\<close> as state passing,
    the outcome of an \<open>async fn\<close> (ready, or suspended with its local buffer), the ordered map
    of the standard library, and the lemma that a prefix of a concatenation of messages is whole
    messages and the beginning of one.
  \<^item> \<open>Cbor_Value\<close>: \<open>serde_cbor::Value\<close>, and the record \<open>cbor\<close> of the library's functions, a
    parameter of every definition that calls them. The predicates \<open>cbor_stream\<close>, \<open>cbor_slice\<close>,
    \<open>cbor_order\<close>, \<open>cbor_equal\<close> and \<open>cbor_progress\<close> state its documented behaviour;
    \<open>Cbor_Sample\<close> has one codec that satisfies them, on which the witnesses run.
  \<^item> \<open>Chain_Model\<close> (\<open>src/model.rs\<close>, \<open>src/lib.rs\<close>): points, tips, headers, errors.
  \<^item> \<open>Wire_Values\<close> (\<open>src/protocols.rs\<close>): the cursor \<open>Values\<close>, the conversions of points, tips
    and wrapped block headers. \<open>blake2b\<close> and \<open>hex::decode\<close> are parameters.
  \<^item> \<open>Mux\<close>, \<open>Mux_Facts\<close>, \<open>Mux_Delivery\<close> (\<open>src/mux.rs\<close>): a connection is a record with the bytes
    sent, the bytes that have arrived, the table of channels with their queues and the
    demultiplexer's task at its suspension point; \<open>demux_run\<close> is the loop of the task. The locale
    \<open>mailboxes\<close> is the interface between the task and the channels.
  \<^item> \<open>Mux_Link\<close>: two connections at the ends of one socket as a step relation, and the pair of
    queues that they implement.
  \<^item> \<open>Protocol\<close>, \<open>Protocol_Facts\<close> (\<open>src/protocols.rs\<close>): the traits \<open>Protocol\<close> and \<open>Message\<close>. An
    implementation is a record of methods; \<open>send_bytes\<close>, \<open>receive_bytes\<close> and \<open>execute\<close> take it.
    The locale \<open>protocol_contract\<close> holds what the loop needs of an implementation, and the
    lemmas proved in it hold for all four; \<open>message_codec\<close> is the contract of a message type.
  \<^item> \<open>Handshake\<close>, \<open>Handshake_Facts\<close> (\<open>src/protocols/handshake.rs\<close>): versions, messages, both
    sides.
  \<^item> \<open>Chain_Sync\<close>, \<open>Chain_Sync_Facts\<close> (\<open>src/protocols/chainsync.rs\<close>).
  \<^item> \<open>Block_Fetch\<close>, \<open>Block_Fetch_Facts\<close> (\<open>src/protocols/blockfetch.rs\<close> and the loop over a stream
    of \<open>examples/blockfetch.rs\<close>).
  \<^item> \<open>Tx_Submission\<close> (\<open>src/protocols/txsubmission.rs\<close>).
  \<^item> \<open>Reader_Facts\<close>: what the readers of all messages make of arbitrary values.
  \<^item> \<open>Suspension\<close>: calls that are suspended and resumed when more bytes have arrived.
  \<^item> \<open>Handshake_Dialogue\<close>, \<open>Handshake_Link\<close>: both sides of a handshake on one connection, call
    after call and under any schedule.
  \<^item> \<open>Wire_Sessions\<close>: the calls of the clients on bytes that arrive on the socket among frames
    for other channels; \<open>fresh\<close> and \<open>tuned\<close> follow a connection from one channel to the next.
    \<open>Fetch_Sessions\<close>: the life of a block fetch client from its construction to \<open>done\<close>.
  \<^item> \<open>Resumable_Calls\<close>: any sequence of calls on one channel, polled again and again while bytes
    arrive. A \<open>caller\<close> gives the calls; the locale \<open>resumable_calls\<close> holds what they need, which is
    closed under sequencing, guards and changes of the state outside the channel.
  \<^item> \<open>Scripted_Peers\<close>: a user of such calls and a peer that expects and sends payloads on its own
    channel, as a step relation (\<open>play_step\<close>); \<open>play_passes\<close> is what a test of the crate asserts, for
    every schedule. \<open>Play_Rounds\<close>: \<open>follows\<close> reduces this to rounds in which one request is answered;
    \<open>Handshake_Plays\<close>, \<open>Sync_Plays\<close> and \<open>Fetch_Plays\<close> apply it to the two sides of a handshake and
    to the two clients.
  \<^item> \<open>Node_Sessions\<close>: a program on one connection, which shakes hands on one channel and makes its
    calls on another, and a node that is not this library: it reads frames as they come and writes
    frames as its script has it. \<open>session_step\<close> is one step of the two, \<open>session_passes\<close> what is
    promised of every schedule. \<open>Program_Plays\<close>: the handshake of a program and its hand-over of the
    connection; with \<open>program_passes\<close> a program passes if its calls follow the node's script.
  \<^item> \<open>Crate_Tests\<close>: the modules \<open>tests\<close> of \<open>src/protocols.rs\<close> and of the protocols, as definitions of what
    they run and assert, with the theorems that they pass; the helpers \<open>test_unix_pair\<close> and
    \<open>Channel::expect\<close> of \<open>src/mux.rs\<close> are in \<open>Scripted_Peers\<close>.
  \<^item> \<open>Message_Info\<close>: the strings that \<open>info\<close> gives to the log.
  \<^item> \<open>Examples\<close> (\<open>examples/*.rs\<close>): the configuration and the eight programs, from the connection
    to the end of their run; \<open>Examples_Facts\<close> on those that follow the chain, \<open>Examples_Store\<close>
    on those that keep blocks, \<open>Examples_Serve\<close> on the server, the measurement, the local node and
    the configuration. The record \<open>deps\<close> holds what they use of \<open>pallas\<close>, \<open>sled\<close>, \<open>oura\<close> and \<open>hex\<close>,
    parameters; \<open>sled_ok\<close> and \<open>hex_ok\<close> state the documented behaviour that a theorem needs.
    \<open>Example_Mains\<close>: \<open>common::init\<close>, the entry points \<open>main\<close>, and the pings of all hosts: the polls of
    their futures in any order on one log (\<open>ping_polls\<close>), with what \<open>join_all\<close> of \<open>futures\<close> makes of
    the futures in the end as a parameter (\<open>join_ok\<close>).
  \<^item> \<open>Example_Plays\<close>, \<open>Store_Plays\<close>: \<open>sync.rs\<close>, \<open>tip.rs\<close> and \<open>blockfetch.rs\<close> as callers, the turns of
    their loops as calls and what they keep beside the client paired with it, under every schedule.
  \<^item> this theory: the properties that span components.

  \<^bold>\<open>How calls run.\<close> A channel owns its connection while it is open, so the state of a protocol
  holds its channel, which holds the connection. A public call is a function from this state to
  \<open>None\<close> (it would run for ever; shown impossible), or to a result with the next state. The
  task runs when a call waits on its channel and, in \<open>arrivals\<close>, after every chunk of bytes that
  arrives; that the result does not depend on this is a property. The drop of the last channel
  ends the task at once (\<open>demux_drop\<close>): a poll that goes on over the abort on another thread is
  not modelled. A call that has nothing to
  read is \<open>Pending\<close> with the buffer it had taken and can be resumed; the buffer is local to the
  call, as in the code. Resuming it when more bytes have arrived is the same as calling it with
  these bytes there from the start, so the theorems and the example programs let the bytes of a
  call arrive before it. Assertions of debug builds are kept as panics, which only \<open>receive_bytes\<close>,
  \<open>send_bytes\<close> and \<open>bf_send\<close> called outside \<open>execute\<close> can reach.

  \<^bold>\<open>What is shown.\<close> For every protocol: each message survives its encoding; the loop hands the
  messages of a stream to the state machine one by one, whatever frames they were cut into; each
  call returns. For the multiplexer: what one side sends the other receives, complete, in order
  and on the opposite channel, however the stream is cut, as long as payloads fit a frame and the
  socket takes them whole; the table of channels is exactly the open channel, which alone holds
  the task; two connections that run concurrently refine a queue of payloads in each
  direction, step by step. For the handshake: under every schedule of its two sides each call
  returns the result the protocol promises, and no schedule gets stuck. For the clients: the results of \<open>negotiate\<close>, \<open>find_intersect\<close>,
  \<open>request_next\<close> and of the stream of blocks are those the protocol promises, and their state
  machines refine the protocol's. The readers of messages report whatever they cannot read, but
  for two kinds of messages. For the programs: against a node that follows the protocols they
  log or store its answers, all of them and in order; the database of the fetching program can
  always be replayed. Under every schedule of polls, arrivals and runs of the tasks, a block fetch or
  chain sync client and a node that keeps to the protocol come to the end of their session, with
  the same results; so the tests of the crate pass under every schedule of the tasks they join. So do the
  three programs that talk to a node about its chain, from the handshake to the last answer: the
  node meets only the frames it expects, and what the program has logged or stored is what it would
  be with no network between. A logged line names its message. Where the code falls short of this the theorem states what it
  does instead: refusals it cannot read back, a server that does not negotiate, payloads that do
  not fit a frame, short writes, a socket that fails, a closed peer, frames cut by the end of a channel, answers that
  nobody asked for, a server that one silent or malformed client stops.

  \<^bold>\<open>Bounds.\<close> No fuel: \<open>receive_loop\<close> and \<open>execute_from\<close> are partial functions, and their
  termination is a theorem, from the progress of the decoder and the backlog of the channel.
  Messages nest at most three deep, within the limit of 100 under which the decoder is assumed to
  read back what was written. Payloads are below \<open>2 ^ 16\<close> bytes where a theorem says so.

  \<^bold>\<open>Not modelled.\<close> The calls of the \<open>log\<close> crate, which have no effect on the program; the strings
  that \<open>info\<close> passes to them are. What the operating
  system and the timer of \<open>tokio\<close> answer when a socket is opened is a parameter (\<open>dialer\<close>); the
  constructors of connections are definitions. Of the examples, the stub of \<open>local.rs\<close> for Windows
  and the set-up of the logger; the lines the programs log are the events of their runs. In the
  sessions of \<open>Node_Sessions\<close> the node accepts the handshake in one frame, and the loops of programs
  that have no end are stopped after any number of turns. Of the tests, the set-up of the logger, and the barriers between
  the parts of one test: the plays have every schedule of the test and more. Fairness and timing of
  the scheduler: a call that waits is suspended, and the theorems speak of what has arrived or, for
  whole sessions, of every schedule and of its completions.
\<close>

unbundle bit_operations_syntax

section \<open>Every call returns\<close>

text \<open>
  C11. Whatever state a client or server is in, whatever has arrived and whatever the peer does:
  each public call that talks to the peer returns a value, fails, or is suspended waiting for the
  peer. None spins.
\<close>

theorem every_call_returns:
  assumes "cbor_progress c"
  shows "(\<exists>r. negotiate w c hs = Some r) \<and>
    (\<exists>r. find_intersect w c blake2b points cs = Some r) \<and>
    (\<exists>r. request_next w c blake2b cs = Some r) \<and>
    (\<exists>r. bf_run w c bf = Some r) \<and> (\<exists>r. bf_next w c bf = Some r) \<and>
    (\<exists>r. bf_collect w c blocks bf = Some r) \<and>
    (\<exists>r. bf_finish w c bf = Some r) \<and>
    (\<exists>r. execute w c (tx_protocol c) tx = Some r)"
proof (intro conjI)
  note returns = bind_t_returns sync_t_returns hs.execute_returns[OF assms]
    cs.execute_returns[OF assms] bf.execute_returns[OF assms] tx.execute_returns[OF assms]
  show "\<exists>r. negotiate w c hs = Some r" unfolding negotiate_def by (intro returns)
  show "\<exists>r. find_intersect w c blake2b points cs = Some r"
    unfolding find_intersect_def by (intro returns)
  show "\<exists>r. request_next w c blake2b cs = Some r" unfolding request_next_def by (intro returns)
  show "\<exists>r. bf_run w c bf = Some r" unfolding bf_run_def by (intro returns)
  show "\<exists>r. bf_next w c bf = Some r" by (rule bf_next_returns[OF assms])
  show "\<exists>r. bf_collect w c blocks bf = Some r" by (rule bf_collect_returns[OF assms])
  have "\<exists>r. bf_closing w c bf = Some r" unfolding bf_closing_def by (intro returns)
  then show "\<exists>r. bf_finish w c bf = Some r"
    unfolding bf_finish_def by (auto split: poll.splits sum.splits)
  show "\<exists>r. execute w c (tx_protocol c) tx = Some r" by (intro returns)
qed

theorem every_call_returns_witness:
  "\<exists>r. request_next sample_wire sample_cbor sample_hash (sample_sync [[0x9f], [0], [1, 2]]) = Some r"
  using every_call_returns[OF sample_cbor_progress] by blast

section \<open>A socket that fails\<close>

text \<open>
  C38. A socket that fails while a request is written is not reported by the call that made the
  request: \<open>request_next\<close>, \<open>find_intersect\<close> and \<open>run\<close> panic, though they return results.
\<close>

theorem broken_socket_panics:
  assumes "cbor_stream c"
    and "cs_state cs = CsIdle" "cn_writes (ch_conn (cs_channel cs)) 0 = Breaks n"
    and "bf_state bf = BfIdle" "\<not> bf_done bf" "cn_writes (ch_conn (bf_channel bf)) 0 = Breaks k"
  shows "(\<exists>t. request_next w c blake2b cs = Some (Ready (Inl (Panic UnwrapPanic)), t)) \<and>
    (\<exists>t. find_intersect w c blake2b points cs = Some (Ready (Inl (Panic UnwrapPanic)), t)) \<and>
    (\<exists>t. bf_run w c bf = Some (Ready (Inl (Panic UnwrapPanic)), t))"
proof (intro conjI)
  have cs: "\<exists>t. execute w c (cs_protocol c blake2b) (cs\<lparr>cs_query := Some q\<rparr>) =
      Some (Ready (Inl (Panic UnwrapPanic)), t)" for q
  proof -
    obtain m t where "cs_send (cs\<lparr>cs_query := Some q\<rparr>) = (Inr m, t)"
      using assms(2) by (cases q) (simp_all add: cs_send_def)
    then show ?thesis
      using cs_bytes_encodes(1)[OF assms(1)] assms(2,3)
      by (subst cs.execute_send_breaks) (auto simp: cs_agency_def)
  qed
  from cs[of QueryReply] show "\<exists>t. request_next w c blake2b cs =
      Some (Ready (Inl (Panic UnwrapPanic)), t)"
    by (auto simp: request_next_def exec)
  from cs[of "QueryIntersect points"] show "\<exists>t. find_intersect w c blake2b points cs =
      Some (Ready (Inl (Panic UnwrapPanic)), t)"
    by (auto simp: find_intersect_def exec)
  have "bf_send (bf\<lparr>bf_running := True\<rparr>) =
      (Inr (bf_request bf), bf\<lparr>bf_running := True, bf_state := BfBusy\<rparr>)"
    using assms(4,5) by (simp add: bf_send_def bf_request_def)
  then show "\<exists>t. bf_run w c bf = Some (Ready (Inl (Panic UnwrapPanic)), t)"
    unfolding bf_run_def using bf_bytes_encodes(1)[OF assms(1)] assms(4,6)
    by (subst bf.execute_send_breaks) (auto simp: bf_agency_def)
qed

theorem broken_socket_panics_witness:
  "\<exists>t. request_next sample_wire sample_cbor sample_hash ((sample_sync [])\<lparr>cs_channel :=
      (sample_channel 2 [])\<lparr>ch_conn := sample_connection\<lparr>cn_writes := (\<lambda>_. Breaks 3)\<rparr>\<rparr>\<rparr>) =
    Some (Ready (Inl (Panic UnwrapPanic)), t)"
proof -
  let ?ch = "(sample_channel 2 [])\<lparr>ch_conn := sample_connection\<lparr>cn_writes := (\<lambda>_. Breaks 3)\<rparr>\<rparr>"
  from broken_socket_panics[OF sample_cbor_stream, of "(sample_sync [])\<lparr>cs_channel := ?ch\<rparr>" 3
      "(sample_fetch [])\<lparr>bf_channel := ?ch\<rparr>" 3 sample_wire sample_hash "[]"]
  show ?thesis by (simp add: sample_sync_def sample_fetch_def)
qed

section \<open>Headers\<close>

text \<open>
  C29. A block header that is wrapped and unwrapped comes back unchanged, all its numbers
  included, but for its hash, which is the hash of the bytes it was wrapped in.
\<close>

theorem header_survives_wrapping:
  assumes "cbor_slice c"
  shows "\<exists>w. wrapped_of_header c h = Inr w \<and>
    header_of_wrapped c blake2b w = Inr (h\<lparr>bh_hash := blake2b 32 (wh_bytes w)\<rparr>)"
  using header_wrap_unwrap[OF assms] unfolding header_hash_def by metis

theorem header_survives_wrapping_witness:
  "\<exists>w h. wrapped_of_header sample_cbor (sample_header) = Inr w \<and>
    header_of_wrapped sample_cbor sample_hash w = Inr h \<and> bh_slot_number h = - 5 \<and>
    bh_block_size h = 1024"
  using header_survives_wrapping[OF sample_cbor_slice, of sample_header sample_hash]
  by (auto simp: sample_header_def)

text \<open>
  Points, tips and wrapped headers read back as they were written, for every value
  of their fields; numbers of a point that do not fit are cut to 64 bits.
\<close>

theorem points_and_tips_round_trip:
  "point_of_values (point_to_vec p) = Inr p \<and> tip_of_values (tip_to_vec t) = Inr t \<and>
   point_of_values [Integer (uint (pt_slot p) + 2 ^ 64 * k), Bytes (pt_hash p)] = Inr p"
proof -
  have "(word_of_int (uint (pt_slot p) + 2 ^ 64 * k) :: u64) = word_of_int (uint (pt_slot p))"
    by (rule word_of_int_eq_iff[THEN iffD2]) (simp add: take_bit_eq_mod)
  then have "point_of_values [Integer (uint (pt_slot p) + 2 ^ 64 * k), Bytes (pt_hash p)] =
      Inr \<lparr>pt_slot = pt_slot p, pt_hash = pt_hash p\<rparr>"
    by (simp only: point_of_values_def exec v_integer.simps v_bytes.simps v_end.simps word_of_int_uint)
  then show ?thesis by simp
qed

end
